(* ===== verification/Prelude.thy ===== *)
theory Prelude
  imports Main "HOL-Library.Word"
begin

text \<open>
  The vocabulary the component theories share.

  \<^item> Machine types: the C types \<open>uchar\<close>, \<open>ushort\<close>, \<open>uint\<close> of \<open>types.h\<close>.
  \<^item> The result of a kernel routine, \<open>res\<close>: it returns, it stops the machine with
    \<open>panic\<close>, it puts the calling process to sleep on a channel, it spins until another CPU
    changes a shared word, or it has undefined behaviour in C (an array access out of bounds,
    a signed overflow, a null pointer).
    A routine that changes state has type \<open>'s \<Rightarrow> ('a \<times> 's) res\<close>; \<open>bnd\<close> sequences two.
  \<^item> The idiom of the C code that scans a table for the first entry with a property,
    \<open>find_idx\<close>.
  \<^item> Little-endian integers in byte arrays (\<open>le_nat\<close>, \<open>le_bytes\<close>) and the windows of
    byte arrays that \<open>memmove\<close> reads and writes (\<open>slice_at\<close>, \<open>splice\<close>), with the laws
    that relate them.
  \<^item> Sequences of operations on a component (\<open>run_ops\<close>) and the contract \<open>simulation\<close> under which such a sequence
    does what it does on an abstract state.
  \<^item> The constants of \<open>param.h\<close>, \<open>mmu.h\<close>, \<open>memlayout.h\<close> and \<open>fs.h\<close>.
\<close>

unbundle bit_operations_syntax

section \<open>Machine types\<close>

type_synonym uchar = "8 word"
type_synonym ushort = "16 word"
type_synonym uint = "32 word"

section \<open>Constants\<close>

definition NPROC :: nat where "NPROC = 64"
definition KSTACKSIZE :: nat where "KSTACKSIZE = 4096"
definition NCPU :: nat where "NCPU = 8"
definition NOFILE :: nat where "NOFILE = 16"
definition NFILE :: nat where "NFILE = 100"
definition NINODE :: nat where "NINODE = 50"
definition NDEV :: nat where "NDEV = 10"
definition ROOTDEV :: nat where "ROOTDEV = 1"
definition MAXARG :: nat where "MAXARG = 32"
definition MAXOPBLOCKS :: nat where "MAXOPBLOCKS = 10"
definition LOGSIZE :: nat where "LOGSIZE = MAXOPBLOCKS * 3"
definition NBUF :: nat where "NBUF = MAXOPBLOCKS * 3"
definition FSSIZE :: nat where "FSSIZE = 1000"

definition PGSIZE :: nat where "PGSIZE = 4096"
definition PGROUNDUP :: "uint \<Rightarrow> uint" where "PGROUNDUP sz = (sz + 4095) AND NOT 4095"
definition PGROUNDDOWN :: "uint \<Rightarrow> uint" where "PGROUNDDOWN a = a AND NOT 4095"
definition KERNBASE :: nat where "KERNBASE = 0x80000000"
definition PHYSTOP :: nat where "PHYSTOP = 0xE000000"

section \<open>Results\<close>

datatype chan =
    ChanProc nat       \<comment> \<open>a \<open>struct proc *\<close>: \<open>wait\<close> sleeps on the caller's own slot\<close>
  | ChanTicks          \<comment> \<open>\<open>&ticks\<close>\<close>
  | ChanLog            \<comment> \<open>\<open>&log\<close>\<close>
  | ChanBuf nat        \<comment> \<open>the sleep lock of a buffer\<close>
  | ChanIde nat        \<comment> \<open>the buffer itself, in \<open>iderw\<close>\<close>
  | ChanInode nat      \<comment> \<open>the sleep lock of an inode\<close>
  | ChanPipeR nat      \<comment> \<open>\<open>&p->nread\<close>\<close>
  | ChanPipeW nat      \<comment> \<open>\<open>&p->nwrite\<close>\<close>
  | ChanCons           \<comment> \<open>\<open>&input.r\<close>\<close>

datatype 'a res = Ret 'a | Panic string | Sleep chan | Spin | Undef

fun bnd :: "'a res \<Rightarrow> ('a \<Rightarrow> 'b res) \<Rightarrow> 'b res" where
  "bnd (Ret x) f = f x"
| "bnd (Panic m) f = Panic m"
| "bnd (Sleep c) f = Sleep c"
| "bnd Spin f = Spin"
| "bnd Undef f = Undef"

section \<open>Table scans\<close>

primrec find_idx :: "('a \<Rightarrow> bool) \<Rightarrow> 'a list \<Rightarrow> nat option" where
  "find_idx P [] = None"
| "find_idx P (x # xs) = (if P x then Some 0 else map_option Suc (find_idx P xs))"

section \<open>Bytes\<close>

primrec le_nat :: "uchar list \<Rightarrow> nat" where
  "le_nat [] = 0"
| "le_nat (b # bs) = unat b + 256 * le_nat bs"

primrec le_bytes :: "nat \<Rightarrow> nat \<Rightarrow> uchar list" where
  "le_bytes 0 n = []"
| "le_bytes (Suc k) n = word_of_nat n # le_bytes k (n div 256)"

definition slice_at :: "nat \<Rightarrow> nat \<Rightarrow> 'a list \<Rightarrow> 'a list" where
  "slice_at off n xs = take n (drop off xs)"

definition splice_at :: "nat \<Rightarrow> 'a list \<Rightarrow> 'a list \<Rightarrow> 'a list" where
  "splice_at off ys xs = take off xs @ ys @ drop (off + length ys) xs"

section \<open>Laws\<close>

named_theorems ret_simps \<open>how a sequence of kernel routines returns\<close>

lemma bnd_cong [fundef_cong]:
  assumes "m = m'" and "\<And>x. m' = Ret x \<Longrightarrow> f x = g x"
  shows "bnd m f = bnd m' g"
  using assms by (cases m') auto

lemma bnd_eq_Ret_iff [ret_simps]: "bnd m f = Ret y \<longleftrightarrow> (\<exists>x. m = Ret x \<and> f x = Ret y)"
  by (cases m) auto

lemma bnd_eq_Panic_iff: "bnd m f = Panic e \<longleftrightarrow> m = Panic e \<or> (\<exists>x. m = Ret x \<and> f x = Panic e)"
  by (cases m) auto

lemma bnd_Ret_right [simp]: "bnd m Ret = m"
  by (cases m) auto

lemma bnd_assoc: "bnd (bnd m f) g = bnd m (\<lambda>x. bnd (f x) g)"
  by (cases m) auto

lemma find_idx_None_iff: "find_idx P xs = None \<longleftrightarrow> (\<forall>x \<in> set xs. \<not> P x)"
  by (induction xs) auto

lemma find_idx_Some_iff:
  "find_idx P xs = Some i \<longleftrightarrow> i < length xs \<and> P (xs ! i) \<and> (\<forall>j < i. \<not> P (xs ! j))"
proof (induction xs arbitrary: i)
  case Nil
  then show ?case by simp
next
  case (Cons x xs)
  then show ?case
    by (cases i) (auto simp: less_Suc_eq_0_disj)
qed

lemma find_idx_SomeD:
  assumes "find_idx P xs = Some i"
  shows "i < length xs" and "P (xs ! i)" and "\<And>j. j < i \<Longrightarrow> \<not> P (xs ! j)"
  using assms by (auto simp: find_idx_Some_iff)

lemma find_idx_exists:
  assumes "i < length xs" and "P (xs ! i)"
  shows "\<exists>j \<le> i. find_idx P xs = Some j"
proof (cases "find_idx P xs")
  case None
  with assms show ?thesis by (auto simp: find_idx_None_iff)
next
  case (Some j)
  with assms show ?thesis
    by (metis find_idx_SomeD(3) linorder_not_less)
qed

subsection \<open>Little-endian integers\<close>

lemma unat_uchar_less: "unat (b :: uchar) < 256"
proof -
  have "unat b < 2 ^ LENGTH(8)" by (rule unsigned_less)
  then show ?thesis by simp
qed

lemma mod_0_exists: "x mod n = 0 \<Longrightarrow> \<exists>k. x = n * k" for x n :: nat
  by (rule exI [of _ "x div n"]) auto

lemma length_le_bytes [simp]: "length (le_bytes k n) = k"
  by (induction k arbitrary: n) auto

lemma le_nat_bound: "le_nat bs < 256 ^ length bs"
proof (induction bs)
  case Nil
  then show ?case by simp
next
  case (Cons b bs)
  have "unat b < 256" by (rule unat_uchar_less)
  with Cons show ?case by simp
qed

lemma le_nat_le_bytes: "le_nat (le_bytes k n) = n mod 256 ^ k"
proof (induction k arbitrary: n)
  case 0
  then show ?case by simp
next
  case (Suc k)
  have "n mod (256 * 256 ^ k) = 256 * (n div 256 mod 256 ^ k) + n mod 256"
    by (rule mod_mult2_eq)
  then show ?case by (simp add: Suc unsigned_of_nat take_bit_eq_mod)
qed

lemma le_nat_le_bytes_id [simp]: "n < 256 ^ k \<Longrightarrow> le_nat (le_bytes k n) = n"
  by (simp add: le_nat_le_bytes)

lemma le_bytes_le_nat [simp]: "le_bytes (length bs) (le_nat bs) = bs"
proof (induction bs)
  case Nil
  then show ?case by simp
next
  case (Cons b bs)
  have "unat b < 256" by (rule unat_uchar_less)
  then have "(unat b + 256 * le_nat bs) div 256 = le_nat bs" by simp
  moreover have "word_of_nat (unat b + 256 * le_nat bs) = b"
  proof -
    have "word_of_nat (256 * le_nat bs) = (0 :: uchar)"
      by (subst word_of_nat_eq_0_iff) simp
    then show ?thesis by simp
  qed
  ultimately show ?case using Cons by simp
qed

subsection \<open>Windows of byte arrays\<close>

lemma length_slice: "off + n \<le> length xs \<Longrightarrow> length (slice_at off n xs) = n"
  by (simp add: slice_at_def)

lemma length_splice_at [simp]:
  "off + length ys \<le> length xs \<Longrightarrow> length (splice_at off ys xs) = length xs"
  by (simp add: splice_at_def)

lemma nth_slice: "i < n \<Longrightarrow> off + n \<le> length xs \<Longrightarrow> slice_at off n xs ! i = xs ! (off + i)"
  by (simp add: slice_at_def)

lemma nth_splice_at:
  assumes "off + length ys \<le> length xs" and "i < length xs"
  shows "splice_at off ys xs ! i =
    (if off \<le> i \<and> i < off + length ys then ys ! (i - off) else xs ! i)"
  using assms by (auto simp: splice_at_def nth_append min_def)

lemma slice_splice_same [simp]:
  "off + length ys \<le> length xs \<Longrightarrow> slice_at off (length ys) (splice_at off ys xs) = ys"
  by (simp add: slice_at_def splice_at_def)

lemma slice_splice_disjoint:
  assumes "off + length ys \<le> length xs" and "o' + n \<le> length xs"
    and "o' + n \<le> off \<or> off + length ys \<le> o'"
  shows "slice_at o' n (splice_at off ys xs) = slice_at o' n xs"
proof (rule nth_equalityI)
  show "length (slice_at o' n (splice_at off ys xs)) = length (slice_at o' n xs)"
    using assms by (simp add: length_slice)
next
  fix i
  assume "i < length (slice_at o' n (splice_at off ys xs))"
  with assms show "slice_at o' n (splice_at off ys xs) ! i = slice_at o' n xs ! i"
    by (auto simp: length_slice nth_slice nth_splice_at)
qed

lemma splice_slice_id: "off + n \<le> length xs \<Longrightarrow> splice_at off (slice_at off n xs) xs = xs"
  by (rule nth_equalityI) (auto simp: length_slice nth_splice_at nth_slice)

lemma slice_append_split: "slice_at off (m + n) xs = slice_at off m xs @ slice_at (off + m) n xs"
  by (simp add: slice_at_def take_add add.commute)

section \<open>Sequences of operations\<close>

primrec run_ops :: "('e \<Rightarrow> 's \<Rightarrow> 'r \<times> 's) \<Rightarrow> 'e list \<Rightarrow> 's \<Rightarrow> 'r list \<times> 's" where
  "run_ops step [] s = ([], s)"
| "run_ops step (e # es) s = (let (r, s) = step e s; (rs, s) = run_ops step es s in (r # rs, s))"

text \<open>What a component promises to its clients: each operation \<open>e\<close> that is \<open>ok\<close> returns what \<open>spec\<close> says of the abstract
  state and moves the abstract state as \<open>spec\<close> does.\<close>

locale simulation =
  fixes step :: "'e \<Rightarrow> 's \<Rightarrow> 'r \<times> 's"
    and spec :: "'e \<Rightarrow> 'a \<Rightarrow> 'r \<times> 'a"
    and inv :: "'s \<Rightarrow> bool"
    and abs :: "'s \<Rightarrow> 'a"
    and ok :: "'e \<Rightarrow> bool"
  assumes sim: "inv s \<Longrightarrow> ok e \<Longrightarrow> inv (snd (step e s)) \<and> spec e (abs s) = (fst (step e s), abs (snd (step e s)))"
begin

lemma run_sim:
  assumes "inv s" and "list_all ok es"
  shows "inv (snd (run_ops step es s)) \<and>
    run_ops spec es (abs s) = (fst (run_ops step es s), abs (snd (run_ops step es s)))"
  using assms
proof (induction es arbitrary: s)
  case (Cons e es)
  then have "inv (snd (step e s))" "spec e (abs s) = (fst (step e s), abs (snd (step e s)))" using sim by auto
  with Cons show ?case by (auto simp: split_beta Let_def)
qed simp

end

end
