(* ===== verification/Klib.thy ===== *)
theory Klib
  imports Prelude
begin

text \<open>
  The kernel's \<open>string.c\<close>. \<open>memset\<close> and \<open>memmove\<close> work on the byte-addressed memory
  \<open>mem\<close> (32-bit addresses, so pointer arithmetic wraps and regions may overlap). The string
  routines take the bytes that start at each pointer as a list; a read or write past the end
  of the array the pointer points into is \<^const>\<open>Undef\<close>.
\<close>

type_synonym mem = "uint \<Rightarrow> uchar"

section \<open>Memory\<close>

primrec stosb :: "mem \<Rightarrow> uint \<Rightarrow> int \<Rightarrow> nat \<Rightarrow> mem" where
  "stosb m a c 0 = m"
| "stosb m a c (Suc n) = stosb (m(a := word_of_int c)) (a + 1) c n"

definition store32 :: "mem \<Rightarrow> uint \<Rightarrow> uint \<Rightarrow> mem" where
  "store32 m a v = m(a := ucast v, a + 1 := ucast (drop_bit 8 v),
     a + 2 := ucast (drop_bit 16 v), a + 3 := ucast (drop_bit 24 v))"

definition load32 :: "mem \<Rightarrow> uint \<Rightarrow> uint" where
  "load32 m a = ucast (m a) OR push_bit 8 (ucast (m (a + 1))) OR
     push_bit 16 (ucast (m (a + 2))) OR push_bit 24 (ucast (m (a + 3)))"

primrec stosl :: "mem \<Rightarrow> uint \<Rightarrow> uint \<Rightarrow> nat \<Rightarrow> mem" where
  "stosl m a v 0 = m"
| "stosl m a v (Suc n) = stosl (store32 m a v) (a + 4) v n"

definition memset :: "mem \<Rightarrow> uint \<Rightarrow> int \<Rightarrow> uint \<Rightarrow> mem" where
  "memset m dst c n =
     (if sint dst mod 4 = 0 \<and> n mod 4 = 0
      then (let c = word_of_int c AND 0xFF :: uint
            in stosl m dst (push_bit 24 c OR push_bit 16 c OR push_bit 8 c OR c) (unat (n div 4)))
      else stosb m dst c (unat n))"

primrec memcmp_loop :: "mem \<Rightarrow> uint \<Rightarrow> uint \<Rightarrow> nat \<Rightarrow> int" where
  "memcmp_loop m s1 s2 0 = 0"
| "memcmp_loop m s1 s2 (Suc n) =
     (if m s1 \<noteq> m s2 then uint (m s1) - uint (m s2) else memcmp_loop m (s1 + 1) (s2 + 1) n)"

definition memcmp :: "mem \<Rightarrow> uint \<Rightarrow> uint \<Rightarrow> uint \<Rightarrow> int" where
  "memcmp m v1 v2 n = memcmp_loop m v1 v2 (unat n)"

primrec copy_fwd :: "mem \<Rightarrow> uint \<Rightarrow> uint \<Rightarrow> nat \<Rightarrow> mem" where
  "copy_fwd m d s 0 = m"
| "copy_fwd m d s (Suc n) = copy_fwd (m(d := m s)) (d + 1) (s + 1) n"

primrec copy_bwd :: "mem \<Rightarrow> uint \<Rightarrow> uint \<Rightarrow> nat \<Rightarrow> mem" where
  "copy_bwd m d s 0 = m"
| "copy_bwd m d s (Suc n) = copy_bwd (m(d - 1 := m (s - 1))) (d - 1) (s - 1) n"

definition memmove :: "mem \<Rightarrow> uint \<Rightarrow> uint \<Rightarrow> uint \<Rightarrow> mem" where
  "memmove m dst src n =
     (if src < dst \<and> src + n > dst
      then copy_bwd m (dst + n) (src + n) (unat n)
      else copy_fwd m dst src (unat n))"

definition memcpy :: "mem \<Rightarrow> uint \<Rightarrow> uint \<Rightarrow> uint \<Rightarrow> mem" where
  "memcpy m dst src n = memmove m dst src n"

section \<open>Strings\<close>

fun strncmp :: "uchar list \<Rightarrow> uchar list \<Rightarrow> nat \<Rightarrow> int res" where
  "strncmp p q 0 = Ret 0"
| "strncmp (x # p) (y # q) (Suc n) =
     (if x \<noteq> 0 \<and> x = y then strncmp p q n else Ret (uint x - uint y))"
| "strncmp p q (Suc n) = Undef"

fun zero_fill :: "uchar list \<Rightarrow> nat \<Rightarrow> uchar list res" where
  "zero_fill s 0 = Ret s"
| "zero_fill (x # s) (Suc n) = bnd (zero_fill s n) (\<lambda>s. Ret (0 # s))"
| "zero_fill [] (Suc n) = Undef"

fun strncpy :: "uchar list \<Rightarrow> uchar list \<Rightarrow> nat \<Rightarrow> uchar list res" where
  "strncpy s t 0 = Ret s"
| "strncpy (x # s) (y # t) (Suc n) =
     (if y \<noteq> 0 then bnd (strncpy s t n) (\<lambda>s. Ret (y # s))
      else bnd (zero_fill s n) (\<lambda>s. Ret (0 # s)))"
| "strncpy s t (Suc n) = Undef"

text \<open>\<open>safestrcpy_loop s t n\<close> is the loop entered with \<open>--n\<close> still to be done and the
  final \<open>*s = 0\<close>.\<close>

fun safestrcpy_loop :: "uchar list \<Rightarrow> uchar list \<Rightarrow> nat \<Rightarrow> uchar list res" where
  "safestrcpy_loop (x # s) (y # t) (Suc (Suc n)) =
     (if y \<noteq> 0 then bnd (safestrcpy_loop s t (Suc n)) (\<lambda>s. Ret (y # s))
      else (case s of [] \<Rightarrow> Undef | _ # s' \<Rightarrow> Ret (0 # 0 # s')))"
| "safestrcpy_loop (x # s) t (Suc 0) = Ret (0 # s)"
| "safestrcpy_loop s t n = Undef"

definition safestrcpy :: "uchar list \<Rightarrow> uchar list \<Rightarrow> int \<Rightarrow> uchar list res" where
  "safestrcpy s t n = (if n \<le> 0 then Ret s else safestrcpy_loop s t (nat n))"

fun strlen :: "uchar list \<Rightarrow> nat res" where
  "strlen [] = Undef"
| "strlen (x # s) = (if x = 0 then Ret 0 else bnd (strlen s) (\<lambda>n. Ret (Suc n)))"

text \<open>The string an array holds: its bytes before the first NUL.\<close>

definition cstr :: "uchar list \<Rightarrow> uchar list" where
  "cstr s = takeWhile (\<lambda>c. c \<noteq> 0) s"

section \<open>Laws of the memory routines\<close>

lemma unat_diff_1:
  fixes x a :: uint
  assumes "x \<noteq> a"
  shows "unat (x - (a + 1)) = unat (x - a) - 1" and "0 < unat (x - a)"
proof -
  have "x - a \<noteq> 0" using assms by simp
  then show "0 < unat (x - a)" and "unat (x - (a + 1)) = unat (x - a) - 1"
    by (simp_all add: unat_gt_0 diff_diff_eq [symmetric] unat_minus_one)
qed

lemma stosb_apply: "stosb m a c n x = (if unat (x - a) < n then word_of_int c else m x)"
proof (induction n arbitrary: m a)
  case 0
  then show ?case by simp
next
  case (Suc n)
  then show ?case using unat_diff_1 [of x a] by (cases "x = a") auto
qed

lemma stosl_eq_stosb:
  fixes b :: uchar
  assumes "ucast v = b" "ucast (drop_bit 8 v) = b" "ucast (drop_bit 16 v) = b"
    "ucast (drop_bit 24 v) = b" and "b = word_of_int c"
  shows "stosl m a v n = stosb m a c (4 * n)"
  using assms
proof (induction n arbitrary: m a)
  case 0
  then show ?case by simp
next
  case (Suc n)
  have "4 * Suc n = Suc (Suc (Suc (Suc (4 * n))))" by simp
  then have "stosb m a c (4 * Suc n) = stosb (store32 m a v) (a + 4) c (4 * n)"
    using Suc.prems by (simp only: stosb.simps store32_def) (simp add: add.assoc)
  with Suc show ?case by simp
qed

lemma byte_of_replicated:
  fixes c :: uint
  defines "v \<equiv> push_bit 24 (c AND 0xFF) OR push_bit 16 (c AND 0xFF) OR push_bit 8 (c AND 0xFF)
    OR (c AND 0xFF)"
  shows "ucast v = (ucast c :: uchar)" and "ucast (drop_bit 8 v) = (ucast c :: uchar)"
    and "ucast (drop_bit 16 v) = (ucast c :: uchar)" and "ucast (drop_bit 24 v) = (ucast c :: uchar)"
proof -
  have mask: "(0xFF :: uint) = mask 8" by (simp add: mask_eq_exp_minus_1)
  have eq: "w = ucast c" if "\<And>n. n < 8 \<Longrightarrow> bit w n = bit c n" for w :: uchar
    using that by (intro bit_word_eqI) (simp add: bit_simps)
  show "ucast v = (ucast c :: uchar)" unfolding v_def mask
    by (rule eq) (simp add: bit_simps)
  show "ucast (drop_bit 8 v) = (ucast c :: uchar)" unfolding v_def mask
    by (rule eq) (simp add: bit_simps)
  show "ucast (drop_bit 16 v) = (ucast c :: uchar)" unfolding v_def mask
    by (rule eq) (simp add: bit_simps)
  show "ucast (drop_bit 24 v) = (ucast c :: uchar)" unfolding v_def mask
    by (rule eq) (simp add: bit_simps)
qed

text \<open>Whichever of its two stores \<open>memset\<close> uses, it sets the bytes one by one.\<close>

lemma memset_eq_stosb: "memset m dst c n = stosb m dst c (unat n)"
proof (cases "sint dst mod 4 = 0 \<and> n mod 4 = 0")
  case True
  have "unat (n mod 4) = 0" using True by simp
  then have n: "4 * unat (n div 4) = unat n"
    by (simp add: unat_mod_distrib unat_div_distrib mod_0_imp_dvd)
  have "ucast (word_of_int c :: uint) = (word_of_int c :: uchar)"
    by (rule bit_word_eqI) (simp add: bit_simps)
  from stosl_eq_stosb [OF byte_of_replicated this, of m dst "unat (n div 4)"]
  show ?thesis unfolding memset_def Let_def if_P [OF True] n .
next
  case False
  then show ?thesis unfolding memset_def by (rule if_not_P)
qed

lemma copy_fwd_apply:
  assumes "\<And>j k. j < k \<Longrightarrow> k < n \<Longrightarrow> d + word_of_nat j \<noteq> s + word_of_nat k"
  shows "copy_fwd m d s n x = (if unat (x - d) < n then m (s + (x - d)) else m x)"
  using assms
proof (induction n arbitrary: m d s)
  case 0
  then show ?case by simp
next
  case (Suc n)
  have "(d + 1) + word_of_nat j \<noteq> (s + 1) + word_of_nat k" if "j < k" "k < n" for j k
    using Suc.prems [of "Suc j" "Suc k"] that by (simp add: add.assoc)
  then have IH: "copy_fwd m' (d + 1) (s + 1) n x =
      (if unat (x - (d + 1)) < n then m' (s + 1 + (x - (d + 1))) else m' x)" for m'
    by (rule Suc.IH)
  show ?case
  proof (cases "x = d")
    case True
    have "s + 1 + (d - (d + 1)) = s" by simp
    with True IH show ?thesis by simp
  next
    case False
    have "s + 1 + (x - (d + 1)) = s + (x - d)" by simp
    moreover have "s + (x - d) \<noteq> d" if "unat (x - d) < Suc n"
      using Suc.prems [of 0 "unat (x - d)"] unat_diff_1 [OF False] that by auto
    ultimately show ?thesis
      using False IH unat_diff_1 [OF False] by auto
  qed
qed

lemma copy_bwd_apply:
  assumes "\<And>j k. j < k \<Longrightarrow> k < n \<Longrightarrow> d + word_of_nat k \<noteq> s + word_of_nat j"
  shows "copy_bwd m (d + word_of_nat n) (s + word_of_nat n) n x =
    (if unat (x - d) < n then m (s + (x - d)) else m x)"
  using assms
proof (induction n arbitrary: m)
  case 0
  then show ?case by simp
next
  case (Suc n)
  have IH: "copy_bwd m' (d + word_of_nat n) (s + word_of_nat n) n x =
      (if unat (x - d) < n then m' (s + (x - d)) else m' x)" for m'
    by (rule Suc.IH) (simp add: Suc.prems)
  have step: "copy_bwd m (d + word_of_nat (Suc n)) (s + word_of_nat (Suc n)) (Suc n) x =
      copy_bwd (m(d + word_of_nat n := m (s + word_of_nat n)))
        (d + word_of_nat n) (s + word_of_nat n) n x"
    by (simp add: algebra_simps)
  show ?case
  proof (cases "unat (x - d) < n")
    case True
    have "s + (x - d) \<noteq> d + word_of_nat n"
      using Suc.prems [of "unat (x - d)" n] True by auto
    with True show ?thesis by (simp add: step IH)
  next
    case False
    moreover have "unat (word_of_nat n :: uint) \<le> n"
      by (simp add: unsigned_of_nat take_bit_eq_mod)
    ultimately show ?thesis
      by (auto simp: step IH less_Suc_eq algebra_simps)
  qed
qed

lemma unat_add_of_nat:
  fixes a :: uint
  assumes "unat a + k < 2 ^ 32"
  shows "unat (a + word_of_nat k) = unat a + k"
  using assms by (simp add: unat_word_ariths unsigned_of_nat take_bit_eq_mod)

text \<open>C17. \<open>memmove\<close> copies the \<open>n\<close> bytes that were at \<open>src\<close> to \<open>dst\<close> and changes nothing else,
  also when the two regions overlap, as long as neither region runs past the end of the
  address space.\<close>

theorem memmove_correct:
  assumes "unat src + unat n \<le> 2 ^ 32" and "unat dst + unat n \<le> 2 ^ 32"
  shows "memmove m dst src n x =
    (if unat (x - dst) < unat n then m (src + (x - dst)) else m x)"
proof (cases "src < dst \<and> src + n > dst")
  case True
  have "dst + word_of_nat k \<noteq> src + word_of_nat j" if "j < k" "k < unat n" for j k
  proof -
    have "unat (src + word_of_nat j) < unat (dst + word_of_nat k)"
      using True that assms by (simp add: unat_add_of_nat word_less_nat_alt)
    then show ?thesis by auto
  qed
  from copy_bwd_apply [OF this, of "unat n" m x] True show ?thesis by (simp add: memmove_def)
next
  case False
  have "dst + word_of_nat j \<noteq> src + word_of_nat k" if jk: "j < k" "k < unat n" for j k
  proof (cases "dst \<le> src")
    case True
    then have "unat (dst + word_of_nat j) < unat (src + word_of_nat k)"
      using jk assms by (simp add: unat_add_of_nat word_le_nat_alt)
    then show ?thesis by auto
  next
    case gt: False
    then have lt: "unat src < unat dst" by (simp add: word_le_nat_alt)
    then have "unat (src + n) = unat src + unat n"
      using assms jk by (simp add: unat_word_ariths)
    with False gt have "unat src + unat n \<le> unat dst"
      by (simp add: word_le_nat_alt not_le word_less_nat_alt)
    then have "unat (src + word_of_nat k) < unat (dst + word_of_nat j)"
      using jk assms lt by (simp add: unat_add_of_nat)
    then show ?thesis by auto
  qed
  from copy_fwd_apply [OF this, of "unat n" m x] False show ?thesis by (auto simp: memmove_def)
qed

theorem memmove_correct_witness:
  "memmove (\<lambda>a. ucast a) 12 10 8 19 = (17 :: uchar) \<and> memmove (\<lambda>a. ucast a) 12 10 8 20 = (20 :: uchar)"
  using memmove_correct [of 10 8 12 "\<lambda>a. ucast a" 19] memmove_correct [of 10 8 12 "\<lambda>a. ucast a" 20]
  by simp

lemma memset_apply:
  "memset m dst c n x = (if unat (x - dst) < unat n then word_of_int c else m x)"
  by (simp add: memset_eq_stosb stosb_apply)

text \<open>C18. \<open>memset\<close> sets exactly the \<open>n\<close> bytes from \<open>dst\<close> to the low byte of \<open>c\<close>, on the
  word-wise path for aligned regions as on the byte-wise one.\<close>

theorem memset_correct:
  "memset m dst c n x = (if unat (x - dst) < unat n then word_of_int c else m x)"
  by (rule memset_apply)

section \<open>Words and pages in memory\<close>

definition aligned :: "nat \<Rightarrow> uint \<Rightarrow> bool" where
  "aligned k a \<longleftrightarrow> unat a mod k = 0"

lemma unat_uint_less: "unat (a :: uint) < 4294967296"
proof -
  have "unat a < 2 ^ LENGTH(32)" by (rule unsigned_less)
  then show ?thesis by simp
qed

lemma unat_add_small:
  fixes a b :: uint
  assumes "unat a + unat b < 4294967296"
  shows "unat (a + b) = unat a + unat b"
  using assms by (simp add: unat_word_ariths)

lemma unat_and_not_4095: "unat (x AND NOT 4095) = 4096 * (unat x div 4096)" for x :: uint
proof -
  have mask: "(4095 :: uint) = mask 12" by (simp add: mask_eq_exp_minus_1)
  have "x AND NOT 4095 = push_bit 12 (drop_bit 12 x)"
    unfolding mask by (rule bit_word_eqI) (auto simp: bit_simps)
  then have "unat (x AND NOT 4095) = take_bit 32 (push_bit 12 (drop_bit 12 (take_bit 32 (unat x))))"
    by (simp add: unsigned_push_bit_eq unsigned_drop_bit_eq)
  also have "take_bit 32 (unat x) = unat x"
    using unat_uint_less [of x] by (simp add: take_bit_eq_mod)
  also have "take_bit 32 (push_bit 12 (drop_bit 12 (unat x))) = 4096 * (unat x div 4096)"
    using unat_uint_less [of x] by (simp add: take_bit_eq_mod push_bit_eq_mult drop_bit_eq_div)
  finally show ?thesis .
qed

lemma unat_PGROUNDDOWN: "unat (PGROUNDDOWN x) = 4096 * (unat x div 4096)"
  unfolding PGROUNDDOWN_def by (rule unat_and_not_4095)

lemma unat_PGROUNDUP:
  assumes "unat x \<le> 4294963200"
  shows "unat (PGROUNDUP x) = 4096 * ((unat x + 4095) div 4096)"
proof -
  have "unat (x + 4095) = unat x + 4095" using assms by (simp add: unat_add_small)
  then show ?thesis unfolding PGROUNDUP_def unat_and_not_4095 by simp
qed

lemma aligned_add:
  assumes "aligned n a" and "k < n" and "n dvd 4294967296"
  shows "unat (a + word_of_nat k) = unat a + k"
proof -
  obtain q where q: "unat a = n * q"
    using assms(1) by (auto simp: aligned_def mod_eq_0_iff_dvd elim: dvdE)
  obtain r where r: "4294967296 = n * r" using assms(3) by (rule dvdE)
  have "n * q < n * r" unfolding q [symmetric] r [symmetric] by (rule unat_uint_less)
  then have "Suc q \<le> r" by simp
  then have "n * Suc q \<le> n * r" by (rule mult_le_mono2)
  then have "unat a + k < 4294967296" using q r assms(2) by simp
  then show ?thesis by (simp add: unat_add_of_nat)
qed

lemma aligned_disjoint:
  assumes "aligned n a" "aligned n b" "a \<noteq> b" "j < n" "k < n" "n dvd 4294967296"
  shows "a + word_of_nat j \<noteq> b + word_of_nat k"
proof
  assume "a + word_of_nat j = b + word_of_nat k"
  then have eq: "unat a + j = unat b + k" using aligned_add assms by metis
  obtain p where "unat a = n * p"
    using assms(1) by (auto simp: aligned_def mod_eq_0_iff_dvd elim: dvdE)
  moreover obtain q where "unat b = n * q"
    using assms(2) by (auto simp: aligned_def mod_eq_0_iff_dvd elim: dvdE)
  ultimately have ab: "unat a = n * p" "unat b = n * q" by simp_all
  with eq have "(n * p + j) div n = (n * q + k) div n" by simp
  with assms(4,5) have "p = q" by simp
  with ab assms(3) show False by (simp add: word_unat_eq_iff)
qed

text \<open>Another aligned block starts at least \<open>n\<close> bytes away.\<close>

lemma aligned_far:
  assumes "aligned n a" "aligned n b" "a \<noteq> b" "j < n" "n dvd 4294967296"
  shows "\<not> unat (a + word_of_nat j - b) < n"
proof
  assume less: "unat (a + word_of_nat j - b) < n"
  have "a + word_of_nat j = b + word_of_nat (unat (a + word_of_nat j - b))" by simp
  with aligned_disjoint [OF assms(1,2,3,4) less assms(5)] show False by contradiction
qed

lemma load32_store32 [simp]: "load32 (store32 m a v) a = v"
proof (rule bit_word_eqI)
  fix n
  assume "n < LENGTH(32)"
  then have "n < 8 \<or> (8 \<le> n \<and> n < 16) \<or> (16 \<le> n \<and> n < 24) \<or> (24 \<le> n \<and> n < 32)" by auto
  then show "bit (load32 (store32 m a v) a) n = bit v n"
    by (elim disjE) (auto simp: load32_def store32_def bit_simps)
qed

lemma store32_apply_other:
  assumes "aligned n a" "aligned n b" "a \<noteq> b" "j < n" "4 \<le> n" "n dvd 4294967296"
  shows "store32 m a v (b + word_of_nat j) = m (b + word_of_nat j)"
proof -
  have "b + word_of_nat j \<noteq> a + word_of_nat k" if "k < 4" for k
    using aligned_disjoint [of n b a j k] assms that by auto
  from this [of 0] this [of 1] this [of 2] this [of 3] show ?thesis
    by (simp add: store32_def)
qed

lemma load32_cong:
  assumes "\<And>j. j < 4 \<Longrightarrow> m (a + word_of_nat j) = m' (a + word_of_nat j)"
  shows "load32 m a = load32 m' a"
  using assms [of 0] assms [of 1] assms [of 2] assms [of 3] by (simp add: load32_def)

lemma load32_store32_other:
  assumes "aligned 4 a" "aligned 4 b" "a \<noteq> b"
  shows "load32 (store32 m a v) b = load32 m b"
  by (rule load32_cong) (rule store32_apply_other [where n = 4], use assms in simp_all)

lemma load32_store32_page:
  assumes "aligned 4096 a" "aligned 4096 b" "a \<noteq> b"
  shows "load32 (store32 m a v) b = load32 m b"
  by (rule load32_cong) (rule store32_apply_other [where n = 4096], use assms in simp_all)

lemma memset_page_other:
  assumes "aligned 4096 a" "aligned 4096 b" "a \<noteq> b" "j < 4096"
  shows "memset m a c 4096 (b + word_of_nat j) = m (b + word_of_nat j)"
  using aligned_far [of 4096 b a j] assms by (simp add: memset_apply)

section \<open>Laws of the string routines\<close>

lemma cstr_simps [simp]:
  "cstr [] = []" "cstr (x # s) = (if x = 0 then [] else x # cstr s)"
  by (simp_all add: cstr_def)

lemma strncmp_returns:
  assumes "n \<le> length p \<or> 0 \<in> set p" and "n \<le> length q \<or> 0 \<in> set q"
  shows "\<exists>r. strncmp p q n = Ret r \<and> (r = 0 \<longleftrightarrow> cstr (take n p) = cstr (take n q))"
  using assms by (induction p q n rule: strncmp.induct) (auto simp: uint_0_iff word_uint_eq_iff [symmetric])

lemma zero_fill_eq: "n \<le> length s \<Longrightarrow> zero_fill s n = Ret (replicate n 0 @ drop n s)"
  by (induction s n rule: zero_fill.induct) auto

lemma strncpy_eq:
  assumes "n \<le> length s" and "n \<le> length t \<or> 0 \<in> set t"
  shows "strncpy s t n = Ret (take n (cstr t) @ replicate (n - length (cstr t)) 0 @ drop n s)"
  using assms
  by (induction s t n rule: strncpy.induct) (auto simp: zero_fill_eq)

lemma safestrcpy_loop_eq:
  assumes "0 < n" "n \<le> length s" and "n \<le> Suc (length t) \<or> 0 \<in> set t"
  shows "\<exists>r. safestrcpy_loop s t n = Ret r \<and> length r = length s \<and>
    cstr r = cstr (take (n - 1) t) \<and> 0 \<in> set (take n r)"
  using assms
proof (induction s t n rule: safestrcpy_loop.induct)
  case (1 x s y t n)
  then show ?case by (cases s) auto
qed auto

end
