(* ===== verification/Spinlock.thy ===== *)
theory Spinlock
  imports Prelude
begin

text \<open>
  \<open>spinlock.c\<close> and the parts of \<open>proc.h\<close> and \<open>proc.c\<close> it uses: \<open>struct cpu\<close>, \<open>mycpu\<close>.

  \<open>mach\<close> is the state of the machine as the code running on one CPU sees it: the table
  \<open>cpus\<close>, the number \<open>lapic_id\<close> its local APIC reports, and the interrupt flag of its
  \<open>%eflags\<close>. Of \<open>struct cpu\<close>, \<open>c_esp0\<close> is the \<open>esp0\<close> field of its task state segment;
  \<open>c_cr3\<close> is the CPU's page-table register and \<open>c_scan\<close> the index of the loop variable \<open>p\<close> of
  the \<open>scheduler\<close> running on it. The first half models each routine as run by one CPU; a lock held by another
  CPU makes \<open>acquire\<close> spin. The second half interleaves the memory accesses of
  \<open>acquire\<close> and \<open>release\<close> of many CPUs on one lock.
\<close>

section \<open>One CPU\<close>

record cpu =
  c_apicid :: uchar
  c_ncli :: int
  c_intena :: bool
  c_proc :: "nat option"
  c_esp0 :: uint
  c_cr3 :: uint
  c_scan :: nat

record mach =
  cpus :: "cpu list"
  ncpu :: nat
  lapic_id :: uchar
  eflags_if :: bool

record spinlock =
  sl_name :: string
  sl_locked :: bool
  sl_cpu :: "nat option"

definition initlock :: "string \<Rightarrow> spinlock" where
  "initlock name = \<lparr>sl_name = name, sl_locked = False, sl_cpu = None\<rparr>"

definition mycpu :: "'a mach_scheme \<Rightarrow> nat res" where
  "mycpu s =
     (if eflags_if s then Panic ''mycpu called with interrupts enabled''
      else (case find_idx (\<lambda>c. c_apicid c = lapic_id s) (take (ncpu s) (cpus s)) of
              None \<Rightarrow> Panic ''unknown apicid''
            | Some i \<Rightarrow> Ret i))"

definition pushcli :: "'a mach_scheme \<Rightarrow> 'a mach_scheme res" where
  "pushcli s =
     (let fl = eflags_if s; s = s\<lparr>eflags_if := False\<rparr>
      in bnd (mycpu s) (\<lambda>i.
         let c = cpus s ! i;
             c = (if c_ncli c = 0 then c\<lparr>c_intena := fl\<rparr> else c)
         in Ret (s\<lparr>cpus := (cpus s)[i := c\<lparr>c_ncli := c_ncli c + 1\<rparr>]\<rparr>)))"

definition popcli :: "'a mach_scheme \<Rightarrow> 'a mach_scheme res" where
  "popcli s =
     (if eflags_if s then Panic ''popcli - interruptible''
      else bnd (mycpu s) (\<lambda>i.
        let c = (cpus s ! i)\<lparr>c_ncli := c_ncli (cpus s ! i) - 1\<rparr>;
            s = s\<lparr>cpus := (cpus s)[i := c]\<rparr>
        in if c_ncli c < 0 then Panic ''popcli''
           else if c_ncli c = 0 \<and> c_intena c then Ret (s\<lparr>eflags_if := True\<rparr>)
           else Ret s))"

definition holding :: "spinlock \<Rightarrow> 'a mach_scheme \<Rightarrow> (bool \<times> 'a mach_scheme) res" where
  "holding lk s =
     bnd (pushcli s) (\<lambda>s.
     bnd (if sl_locked lk then bnd (mycpu s) (\<lambda>i. Ret (sl_cpu lk = Some i)) else Ret False) (\<lambda>r.
     bnd (popcli s) (\<lambda>s. Ret (r, s))))"

definition acquire :: "spinlock \<Rightarrow> 'a mach_scheme \<Rightarrow> (spinlock \<times> 'a mach_scheme) res" where
  "acquire lk s =
     bnd (pushcli s) (\<lambda>s.
     bnd (holding lk s) (\<lambda>(h, s).
     if h then Panic ''acquire''
     else if sl_locked lk then Spin
     else bnd (mycpu s) (\<lambda>i. Ret (lk\<lparr>sl_locked := True, sl_cpu := Some i\<rparr>, s))))"

definition release :: "spinlock \<Rightarrow> 'a mach_scheme \<Rightarrow> (spinlock \<times> 'a mach_scheme) res" where
  "release lk s =
     bnd (holding lk s) (\<lambda>(h, s).
     if \<not> h then Panic ''release''
     else (let lk = lk\<lparr>sl_cpu := None, sl_locked := False\<rparr>
           in bnd (popcli s) (\<lambda>s. Ret (lk, s))))"

text \<open>A sequence of nested critical sections of one CPU: \<open>True\<close> stands for \<open>pushcli\<close>.\<close>

primrec cli_run :: "bool list \<Rightarrow> 'a mach_scheme \<Rightarrow> 'a mach_scheme res" where
  "cli_run [] s = Ret s"
| "cli_run (b # bs) s = bnd (if b then pushcli s else popcli s) (cli_run bs)"

section \<open>Many CPUs\<close>

text \<open>
  Where a CPU is in \<open>acquire(lk)\<close> and \<open>release(lk)\<close>. One step is one access to the lock:
  \<open>Spinning\<close> is about to \<open>xchg\<close>; \<open>Won\<close> has swapped in a 1 and read 0 but not yet
  recorded itself in \<open>lk->cpu\<close>; \<open>Inside\<close> is in the critical section; \<open>Leaving\<close> has
  cleared \<open>lk->cpu\<close> but not yet \<open>lk->locked\<close>.
\<close>

datatype lock_pc = Outside | Spinning | Won | Inside | Leaving

record smp =
  m_pc :: "nat \<Rightarrow> lock_pc"
  m_lock :: spinlock

inductive smp_step :: "smp \<Rightarrow> smp \<Rightarrow> bool" where
  enter: "m_pc m i = Outside \<Longrightarrow> smp_step m (m\<lparr>m_pc := (m_pc m)(i := Spinning)\<rparr>)"
| xchg_fail: "m_pc m i = Spinning \<Longrightarrow> sl_locked (m_lock m) \<Longrightarrow>
    smp_step m (m\<lparr>m_lock := (m_lock m)\<lparr>sl_locked := True\<rparr>\<rparr>)"
| xchg_win: "m_pc m i = Spinning \<Longrightarrow> \<not> sl_locked (m_lock m) \<Longrightarrow>
    smp_step m (m\<lparr>m_pc := (m_pc m)(i := Won), m_lock := (m_lock m)\<lparr>sl_locked := True\<rparr>\<rparr>)"
| record_cpu: "m_pc m i = Won \<Longrightarrow>
    smp_step m (m\<lparr>m_pc := (m_pc m)(i := Inside), m_lock := (m_lock m)\<lparr>sl_cpu := Some i\<rparr>\<rparr>)"
| clear_cpu: "m_pc m i = Inside \<Longrightarrow>
    smp_step m (m\<lparr>m_pc := (m_pc m)(i := Leaving), m_lock := (m_lock m)\<lparr>sl_cpu := None\<rparr>\<rparr>)"
| clear_locked: "m_pc m i = Leaving \<Longrightarrow>
    smp_step m (m\<lparr>m_pc := (m_pc m)(i := Outside), m_lock := (m_lock m)\<lparr>sl_locked := False\<rparr>\<rparr>)"

definition smp_init :: "string \<Rightarrow> smp" where
  "smp_init name = \<lparr>m_pc = (\<lambda>_. Outside), m_lock = initlock name\<rparr>"

inductive smp_reachable :: "string \<Rightarrow> smp \<Rightarrow> bool" for name where
  smp_start: "smp_reachable name (smp_init name)"
| smp_next: "smp_reachable name m \<Longrightarrow> smp_step m m' \<Longrightarrow> smp_reachable name m'"

text \<open>What \<open>holding\<close> reads when CPU \<open>i\<close> evaluates it.\<close>

definition holding_smp :: "smp \<Rightarrow> nat \<Rightarrow> bool" where
  "holding_smp m i \<longleftrightarrow> sl_locked (m_lock m) \<and> sl_cpu (m_lock m) = Some i"

definition owns :: "lock_pc \<Rightarrow> bool" where
  "owns pc \<longleftrightarrow> pc = Won \<or> pc = Inside \<or> pc = Leaving"

definition smp_inv :: "smp \<Rightarrow> bool" where
  "smp_inv m \<longleftrightarrow>
     (\<forall>i j. owns (m_pc m i) \<longrightarrow> owns (m_pc m j) \<longrightarrow> i = j) \<and>
     (sl_locked (m_lock m) \<longleftrightarrow> (\<exists>i. owns (m_pc m i))) \<and>
     (\<forall>i. sl_cpu (m_lock m) = Some i \<longleftrightarrow> m_pc m i = Inside)"

section \<open>Laws\<close>

text \<open>The CPU executing the code is in the table, and its nesting depth is not negative;
  inside a \<open>pushcli\<close> interrupts are off.\<close>

definition cpu_ok :: "'a mach_scheme \<Rightarrow> nat \<Rightarrow> bool" where
  "cpu_ok s i \<longleftrightarrow> find_idx (\<lambda>c. c_apicid c = lapic_id s) (take (ncpu s) (cpus s)) = Some i \<and>
     0 \<le> c_ncli (cpus s ! i) \<and> (0 < c_ncli (cpus s ! i) \<longrightarrow> \<not> eflags_if s)"

text \<open>A machine with one CPU, its interrupts enabled and no process on it.\<close>

definition up_mach :: mach where
  "up_mach = \<lparr>cpus = [\<lparr>c_apicid = 4, c_ncli = 0, c_intena = False, c_proc = None,
     c_esp0 = 0, c_cr3 = 0, c_scan = 0\<rparr>], ncpu = 1, lapic_id = 4, eflags_if = True\<rparr>"

lemma cpu_ok_up_mach: "cpu_ok up_mach 0"
  by (simp add: cpu_ok_def up_mach_def)

lemma cpu_ok_idx: "cpu_ok s i \<Longrightarrow> i < length (cpus s) \<and> i < ncpu s"
  by (auto simp: cpu_ok_def find_idx_Some_iff)

lemma find_idx_update:
  assumes "find_idx P xs = Some i" and "P y"
  shows "find_idx P (xs[i := y]) = Some i"
  using assms by (auto simp: find_idx_Some_iff)

lemma pushcli_ok:
  assumes "cpu_ok s i"
  shows "pushcli s = Ret (s\<lparr>eflags_if := False, cpus := (cpus s)[i := (cpus s ! i)
      \<lparr>c_intena := (if c_ncli (cpus s ! i) = 0 then eflags_if s else c_intena (cpus s ! i)),
       c_ncli := c_ncli (cpus s ! i) + 1\<rparr>]\<rparr>)"
  using assms by (auto simp: pushcli_def mycpu_def cpu_ok_def Let_def)

lemma cpu_ok_frame:
  assumes "cpu_ok s i" and "c_apicid c = c_apicid (cpus s ! i)" and "0 \<le> c_ncli c"
    and "0 < c_ncli c \<Longrightarrow> \<not> f"
  shows "cpu_ok (s\<lparr>eflags_if := f, cpus := (cpus s)[i := c]\<rparr>) i"
proof -
  have i: "find_idx (\<lambda>c. c_apicid c = lapic_id s) (take (ncpu s) (cpus s)) = Some i"
    and len: "i < length (cpus s)"
    using assms(1) cpu_ok_idx [of s i] by (auto simp: cpu_ok_def)
  have "c_apicid c = lapic_id s"
    using find_idx_SomeD [OF i] assms(2) by simp
  from find_idx_update [OF i this] len assms(3,4) show ?thesis
    by (simp add: cpu_ok_def take_update_swap)
qed

lemma pushcli_ok_inv:
  assumes "cpu_ok s i" and "pushcli s = Ret s'"
  shows "cpu_ok s' i \<and> \<not> eflags_if s' \<and> c_ncli (cpus s' ! i) = c_ncli (cpus s ! i) + 1 \<and>
    c_intena (cpus s' ! i) = (if c_ncli (cpus s ! i) = 0 then eflags_if s else c_intena (cpus s ! i))"
proof -
  have "0 \<le> c_ncli (cpus s ! i)" using assms(1) by (simp add: cpu_ok_def)
  then show ?thesis
    using assms pushcli_ok [OF assms(1)] cpu_ok_idx [OF assms(1)]
    by (auto intro!: cpu_ok_frame)
qed

lemma popcli_ok:
  assumes "cpu_ok s i" and "0 < c_ncli (cpus s ! i)"
  shows "\<exists>s'. popcli s = Ret s' \<and> cpu_ok s' i \<and>
    c_ncli (cpus s' ! i) = c_ncli (cpus s ! i) - 1 \<and>
    c_intena (cpus s' ! i) = c_intena (cpus s ! i) \<and>
    eflags_if s' = (c_ncli (cpus s ! i) = 1 \<and> c_intena (cpus s ! i))"
proof -
  have IF: "\<not> eflags_if s" using assms by (simp add: cpu_ok_def)
  then have my: "mycpu s = Ret i" using assms(1) by (simp add: mycpu_def cpu_ok_def)
  let ?c = "(cpus s ! i)\<lparr>c_ncli := c_ncli (cpus s ! i) - 1\<rparr>"
  have "cpu_ok (s\<lparr>eflags_if := f, cpus := (cpus s)[i := ?c]\<rparr>) i"
    if "c_ncli (cpus s ! i) \<noteq> 1 \<longrightarrow> \<not> f" for f
    by (rule cpu_ok_frame [OF assms(1)]) (use assms(2) that in auto)
  from this [of False] this [of True] show ?thesis
    using assms(2) IF my cpu_ok_idx [OF assms(1)] by (auto simp: popcli_def Let_def cpu_ok_def)
qed

definition cli_depth :: "bool list \<Rightarrow> int" where
  "cli_depth bs = (\<Sum>b\<leftarrow>bs. if b then 1 else - 1)"

lemma cli_depth_simps [simp]:
  "cli_depth [] = 0" "cli_depth (b # bs) = (if b then 1 else - 1) + cli_depth bs"
  by (simp_all add: cli_depth_def)

lemma cli_run_inv:
  assumes "cpu_ok s i" and "c_ncli (cpus s ! i) = d"
    and "d = 0 \<Longrightarrow> eflags_if s = f" and "d \<noteq> 0 \<Longrightarrow> c_intena (cpus s ! i) = f"
    and "\<And>k. k \<le> length bs \<Longrightarrow> 0 \<le> d + cli_depth (take k bs)"
  shows "\<exists>s'. cli_run bs s = Ret s' \<and> cpu_ok s' i \<and> c_ncli (cpus s' ! i) = d + cli_depth bs \<and>
    (if d + cli_depth bs = 0 then eflags_if s' = f else \<not> eflags_if s' \<and> c_intena (cpus s' ! i) = f)"
  using assms
proof (induction bs arbitrary: s d)
  case Nil
  then show ?case by (auto simp: cpu_ok_def)
next
  case (Cons b bs)
  have pre: "0 \<le> (d + (if b then 1 else - 1)) + cli_depth (take k bs)" if "k \<le> length bs" for k
    using Cons.prems(5) [of "Suc k"] that by (simp add: add.assoc)
  have d: "0 \<le> d" using Cons.prems(1,2) by (auto simp: cpu_ok_def)
  obtain s1 where s1: "(if b then pushcli s else popcli s) = Ret s1"
    and ok: "cpu_ok s1 i" "c_ncli (cpus s1 ! i) = d + (if b then 1 else - 1)"
      "d + (if b then 1 else - 1) = 0 \<Longrightarrow> eflags_if s1 = f"
      "d + (if b then 1 else - 1) \<noteq> 0 \<Longrightarrow> c_intena (cpus s1 ! i) = f"
  proof (cases b)
    case True
    obtain s1 where "pushcli s = Ret s1" using pushcli_ok [OF Cons.prems(1)] by blast
    with True pushcli_ok_inv [OF Cons.prems(1) this] Cons.prems(2-4) d that [of s1]
    show ?thesis by (auto split: if_splits)
  next
    case False
    then have "0 < c_ncli (cpus s ! i)" using pre [of 0] Cons.prems(2) by simp
    then obtain s1 where "popcli s = Ret s1" "cpu_ok s1 i" "c_ncli (cpus s1 ! i) = d - 1"
        "c_intena (cpus s1 ! i) = c_intena (cpus s ! i)"
        "eflags_if s1 = (d = 1 \<and> c_intena (cpus s ! i))"
      using popcli_ok [OF Cons.prems(1)] Cons.prems(2) by auto
    with False \<open>0 < c_ncli (cpus s ! i)\<close> Cons.prems(2,4) that [of s1] show ?thesis by auto
  qed
  from Cons.IH [OF ok pre] s1 show ?case by (simp add: add.assoc)
qed

text \<open>C16. \<open>pushcli\<close> and \<open>popcli\<close> nest: from a CPU with nothing pushed, any matched sequence of
  them runs without a panic, ends with the interrupt flag as it was before the first
  \<open>pushcli\<close>, and keeps interrupts off wherever more have been pushed than popped.\<close>

theorem cli_nesting:
  assumes "cpu_ok s i" and "c_ncli (cpus s ! i) = 0"
    and "\<And>k. k \<le> length bs \<Longrightarrow> 0 \<le> cli_depth (take k bs)"
  shows "\<exists>s'. cli_run bs s = Ret s' \<and> c_ncli (cpus s' ! i) = cli_depth bs \<and>
    eflags_if s' = (cli_depth bs = 0 \<and> eflags_if s)"
  using cli_run_inv [OF assms(1,2), of "eflags_if s" bs] assms(3) by (auto split: if_splits)

theorem cli_nesting_witness:
  "\<exists>s'. cli_run [True, True, False, False] up_mach = Ret s' \<and> c_ncli (cpus s' ! 0) = 0 \<and> eflags_if s'"
proof -
  have "cpu_ok up_mach 0" by (rule cpu_ok_up_mach)
  moreover have "0 \<le> cli_depth (take k [True, True, False, False])" for k
    by (auto simp: take_Cons split: nat.splits)
  ultimately show ?thesis
    using cli_nesting [of up_mach 0 "[True, True, False, False]"] by (simp add: up_mach_def)
qed

lemma holding_ok:
  assumes "cpu_ok s i"
  shows "\<exists>s'. holding lk s = Ret (sl_locked lk \<and> sl_cpu lk = Some i, s') \<and> cpu_ok s' i \<and>
    c_ncli (cpus s' ! i) = c_ncli (cpus s ! i) \<and> eflags_if s' = eflags_if s \<and>
    (0 < c_ncli (cpus s ! i) \<longrightarrow> c_intena (cpus s' ! i) = c_intena (cpus s ! i))"
proof -
  obtain s1 where s1: "pushcli s = Ret s1" using pushcli_ok [OF assms] by blast
  note p = pushcli_ok_inv [OF assms s1]
  have n: "0 \<le> c_ncli (cpus s ! i)" "0 < c_ncli (cpus s ! i) \<Longrightarrow> \<not> eflags_if s"
    using assms by (auto simp: cpu_ok_def)
  obtain s2 where "popcli s1 = Ret s2" "cpu_ok s2 i"
      "c_ncli (cpus s2 ! i) = c_ncli (cpus s1 ! i) - 1"
      "c_intena (cpus s2 ! i) = c_intena (cpus s1 ! i)"
      "eflags_if s2 = (c_ncli (cpus s1 ! i) = 1 \<and> c_intena (cpus s1 ! i))"
    using popcli_ok [of s1 i] p n by auto
  moreover have "mycpu s1 = Ret i" using p by (simp add: mycpu_def cpu_ok_def)
  ultimately show ?thesis
    using s1 p n by (auto simp: holding_def)
qed

lemma acquire_ok:
  assumes "cpu_ok s i" and "\<not> sl_locked lk"
  shows "\<exists>s'. acquire lk s = Ret (lk\<lparr>sl_locked := True, sl_cpu := Some i\<rparr>, s') \<and> cpu_ok s' i \<and>
    \<not> eflags_if s' \<and> c_ncli (cpus s' ! i) = c_ncli (cpus s ! i) + 1 \<and>
    c_intena (cpus s' ! i) = (if c_ncli (cpus s ! i) = 0 then eflags_if s else c_intena (cpus s ! i))"
proof -
  obtain s1 where s1: "pushcli s = Ret s1" using pushcli_ok [OF assms(1)] by blast
  note p = pushcli_ok_inv [OF assms(1) s1]
  then obtain s2 where s2: "holding lk s1 = Ret (False, s2)" "cpu_ok s2 i" "\<not> eflags_if s2"
      "c_ncli (cpus s2 ! i) = c_ncli (cpus s ! i) + 1"
      "c_intena (cpus s2 ! i) = c_intena (cpus s1 ! i)"
    using holding_ok [of s1 i lk] assms by (auto simp: cpu_ok_def)
  then have "mycpu s2 = Ret i" by (simp add: mycpu_def cpu_ok_def)
  with s1 s2 p assms(2) show ?thesis by (auto simp: acquire_def)
qed

text \<open>C15. On one CPU, acquiring a free lock and releasing it leaves the lock free and the
  interrupt flag and nesting depth as they were; in between the lock is held with interrupts off,
  and acquiring it a second time is caught by a panic instead of a deadlock.\<close>

theorem acquire_release:
  assumes "cpu_ok s i" and "\<not> sl_locked lk"
  shows "\<exists>lk1 s1 lk2 s2. acquire lk s = Ret (lk1, s1) \<and> sl_locked lk1 \<and> \<not> eflags_if s1 \<and>
    acquire lk1 s1 = Panic ''acquire'' \<and>
    release lk1 s1 = Ret (lk2, s2) \<and> \<not> sl_locked lk2 \<and>
    eflags_if s2 = eflags_if s \<and> c_ncli (cpus s2 ! i) = c_ncli (cpus s ! i)"
proof -
  let ?lk = "lk\<lparr>sl_locked := True, sl_cpu := Some i\<rparr>"
  obtain s1 where s1: "acquire lk s = Ret (?lk, s1)" "cpu_ok s1 i" "\<not> eflags_if s1"
      "c_ncli (cpus s1 ! i) = c_ncli (cpus s ! i) + 1"
      "c_intena (cpus s1 ! i) = (if c_ncli (cpus s ! i) = 0 then eflags_if s else c_intena (cpus s ! i))"
    using acquire_ok [OF assms] by blast
  have n: "0 \<le> c_ncli (cpus s ! i)" "0 < c_ncli (cpus s ! i) \<Longrightarrow> \<not> eflags_if s"
    using assms(1) by (auto simp: cpu_ok_def)
  obtain sp where sp: "pushcli s1 = Ret sp" using pushcli_ok [OF s1(2)] by blast
  then have "cpu_ok sp i" using pushcli_ok_inv [OF s1(2) sp] by blast
  from holding_ok [OF this, of ?lk] sp have again: "acquire ?lk s1 = Panic ''acquire''"
    by (auto simp: acquire_def)
  obtain s2 where s2: "holding ?lk s1 = Ret (True, s2)" "cpu_ok s2 i"
      "c_ncli (cpus s2 ! i) = c_ncli (cpus s1 ! i)" "c_intena (cpus s2 ! i) = c_intena (cpus s1 ! i)"
    using holding_ok [OF s1(2), of ?lk] s1(4) n by auto
  obtain s3 where "popcli s2 = Ret s3" "c_ncli (cpus s3 ! i) = c_ncli (cpus s ! i)"
      "eflags_if s3 = (c_ncli (cpus s2 ! i) = 1 \<and> c_intena (cpus s2 ! i))"
    using popcli_ok [OF s2(2)] s2 s1(4) n by auto
  with s2 s1 n have "release ?lk s1 = Ret (?lk\<lparr>sl_cpu := None, sl_locked := False\<rparr>, s3)"
    "eflags_if s3 = eflags_if s"
    by (auto simp: release_def Let_def)
  with s1 again \<open>c_ncli (cpus s3 ! i) = c_ncli (cpus s ! i)\<close> show ?thesis by auto
qed

theorem acquire_release_witness:
  "\<exists>lk1 s1 lk2 s2. acquire (initlock ''kmem'') up_mach = Ret (lk1, s1) \<and> acquire lk1 s1 = Panic ''acquire'' \<and>
    release lk1 s1 = Ret (lk2, s2) \<and> eflags_if s2"
proof -
  have "\<not> sl_locked (initlock ''kmem'')" by (simp add: initlock_def)
  from acquire_release [OF cpu_ok_up_mach this] show ?thesis by (auto simp: up_mach_def)
qed

subsection \<open>Mutual exclusion\<close>

lemma smp_inv_init: "smp_inv (smp_init name)"
  by (simp add: smp_inv_def smp_init_def initlock_def owns_def)

lemma smp_inv_step:
  assumes "smp_step m m'" and "smp_inv m"
  shows "smp_inv m'"
  using assms(2) unfolding smp_inv_def owns_def
  by (cases rule: smp_step.cases [OF assms(1)]) (simp; metis lock_pc.distinct)+

lemma smp_reachable_inv: "smp_reachable name m \<Longrightarrow> smp_inv m"
  by (induction rule: smp_reachable.induct) (auto intro: smp_inv_init smp_inv_step)

text \<open>C14. However the CPUs interleave, at most one is inside the critical section of a lock,
  and \<open>holding\<close> is true on a CPU exactly while that CPU is inside.\<close>

theorem spinlock_mutual_exclusion:
  assumes "smp_reachable name m"
  shows "(m_pc m i = Inside \<and> m_pc m j = Inside \<longrightarrow> i = j) \<and>
    (holding_smp m i \<longleftrightarrow> m_pc m i = Inside)"
  using smp_reachable_inv [OF assms] unfolding smp_inv_def holding_smp_def owns_def by metis

theorem spinlock_mutual_exclusion_witness:
  "\<exists>m. smp_reachable ''kmem'' m \<and> m_pc m 3 = Inside \<and> holding_smp m 3 \<and> \<not> holding_smp m 2"
proof -
  let ?m1 = "(smp_init ''kmem'')\<lparr>m_pc := (m_pc (smp_init ''kmem''))(3 := Spinning)\<rparr>"
  let ?m2 = "?m1\<lparr>m_pc := (m_pc ?m1)(3 := Won), m_lock := (m_lock ?m1)\<lparr>sl_locked := True\<rparr>\<rparr>"
  let ?m3 = "?m2\<lparr>m_pc := (m_pc ?m2)(3 := Inside), m_lock := (m_lock ?m2)\<lparr>sl_cpu := Some 3\<rparr>\<rparr>"
  have "smp_step (smp_init ''kmem'') ?m1" by (rule smp_step.enter) (simp add: smp_init_def)
  moreover have "smp_step ?m1 ?m2"
    by (rule smp_step.xchg_win) (simp_all add: smp_init_def initlock_def)
  moreover have "smp_step ?m2 ?m3" by (rule smp_step.record_cpu) simp
  ultimately have r: "smp_reachable ''kmem'' ?m3"
    by (blast intro: smp_reachable.intros)
  have "m_pc ?m3 3 = Inside" "m_pc ?m3 2 \<noteq> Inside" by (simp_all add: smp_init_def)
  with r spinlock_mutual_exclusion [OF r, of 3 3] spinlock_mutual_exclusion [OF r, of 2 2]
  show ?thesis by blast
qed

end
