(* ===== verification/Proc.thy ===== *)
theory Proc
  imports Spinlock Klib
begin

text \<open>
  The process table of \<open>proc.c\<close> and the operations on it that need no other part of the
  kernel: \<open>sleep\<close>, \<open>wakeup\<close>, \<open>kill\<close>, \<open>yield\<close>, the scheduler's loop, and the ticket
  accounting of this kernel (\<open>gettickets\<close>, \<open>fillpstat\<close>, the body of \<open>sys_settickets\<close>).

  \<open>kstate\<close> extends \<^typ>\<open>mach\<close> with the table. A \<open>struct proc *\<close> is an index into the table
  (\<open>None\<close> is the null pointer), a \<open>struct file *\<close> an index into \<open>ftable\<close>, a
  \<open>struct inode *\<close> an index into \<open>icache\<close>. A section of code between \<open>acquire\<close> and
  \<open>release\<close> of \<open>ptable.lock\<close> is one function: theory \<open>Spinlock\<close> shows that no two CPUs are
  in such a section at once.
\<close>

section \<open>State\<close>

datatype procstate = UNUSED | EMBRYO | SLEEPING | RUNNABLE | RUNNING | ZOMBIE

record trapframe =
  tf_edi :: uint
  tf_esi :: uint
  tf_ebp :: uint
  tf_ebx :: uint
  tf_edx :: uint
  tf_ecx :: uint
  tf_eax :: uint
  tf_gs :: ushort
  tf_fs :: ushort
  tf_es :: ushort
  tf_ds :: ushort
  tf_trapno :: uint
  tf_err :: uint
  tf_eip :: uint
  tf_cs :: ushort
  tf_eflags :: uint
  tf_esp :: uint
  tf_ss :: ushort

record kcontext =
  cx_edi :: uint
  cx_esi :: uint
  cx_ebx :: uint
  cx_ebp :: uint
  cx_eip :: uint

record proc =
  p_sz :: uint
  p_pgdir :: uint
  p_kstack :: uint
  p_state :: procstate
  p_pid :: int
  p_parent :: "nat option"
  p_tf :: trapframe
  p_context :: kcontext
  p_chan :: "chan option"
  p_killed :: bool
  p_ofile :: "nat option list"
  p_cwd :: "nat option"
  p_name :: "uchar list"
  p_tickets :: int
  p_ticks :: int

record kstate = mach +
  ptable :: "proc list"
  nextpid :: int
  initproc :: "nat option"
  ticks :: uint

record pstat =
  ps_inuse :: int
  ps_tickets :: int
  ps_pid :: int
  ps_ticks :: int
  ps_name :: "uchar list"
  ps_state :: char

section \<open>The current process\<close>

definition myproc :: "'a kstate_scheme \<Rightarrow> (nat option \<times> 'a kstate_scheme) res" where
  "myproc s =
     bnd (pushcli s) (\<lambda>s.
     bnd (mycpu s) (\<lambda>i.
     let p = c_proc (cpus s ! i)
     in bnd (popcli s) (\<lambda>s. Ret (p, s))))"

text \<open>The value \<open>myproc\<close> returns (\<open>myproc_cur\<close> below).\<close>

definition cur :: "'a kstate_scheme \<Rightarrow> nat option" where
  "cur s = (case find_idx (\<lambda>c. c_apicid c = lapic_id s) (take (ncpu s) (cpus s)) of
     None \<Rightarrow> None | Some i \<Rightarrow> c_proc (cpus s ! i))"

definition upd_proc :: "nat \<Rightarrow> (proc \<Rightarrow> proc) \<Rightarrow> 'a kstate_scheme \<Rightarrow> 'a kstate_scheme" where
  "upd_proc i f s = s\<lparr>ptable := (ptable s)[i := f (ptable s ! i)]\<rparr>"

section \<open>Sleeping and waking\<close>

definition wakeup1 :: "chan \<Rightarrow> 'a kstate_scheme \<Rightarrow> 'a kstate_scheme" where
  "wakeup1 c s = s\<lparr>ptable := map (\<lambda>p.
     if p_state p = SLEEPING \<and> p_chan p = Some c then p\<lparr>p_state := RUNNABLE\<rparr> else p) (ptable s)\<rparr>"

definition wakeup :: "chan \<Rightarrow> 'a kstate_scheme \<Rightarrow> 'a kstate_scheme" where
  "wakeup c s = wakeup1 c s"

text \<open>\<open>sched\<close> up to its \<open>swtch\<close>: the checks it makes on the state of \<open>ptable.lock\<close> and
  of the calling process.\<close>

definition sched_checks :: "spinlock \<Rightarrow> 'a kstate_scheme \<Rightarrow> 'a kstate_scheme res" where
  "sched_checks lk s =
     bnd (myproc s) (\<lambda>(p, s).
     bnd (holding lk s) (\<lambda>(h, s).
     if \<not> h then Panic ''sched ptable.lock''
     else bnd (mycpu s) (\<lambda>i.
       if c_ncli (cpus s ! i) \<noteq> 1 then Panic ''sched locks''
       else (case p of None \<Rightarrow> Undef | Some j \<Rightarrow>
         if p_state (ptable s ! j) = RUNNING then Panic ''sched running''
         else if eflags_if s then Panic ''sched interruptible''
         else Ret s))))"

text \<open>\<open>sleep\<close> up to the switch to the scheduler, for the process in slot \<open>p\<close>, and its
  last step when the process runs again. \<open>has_lk\<close> says that
  the argument \<open>lk\<close> is not null. What the two locks around these steps do is the subject of
  theory \<open>Sleepwakeup\<close>.\<close>

definition sleep_enter ::
    "nat option \<Rightarrow> chan \<Rightarrow> bool \<Rightarrow> 'a kstate_scheme \<Rightarrow> 'a kstate_scheme res" where
  "sleep_enter p c has_lk s =
     (case p of None \<Rightarrow> Panic ''sleep''
      | Some i \<Rightarrow> if \<not> has_lk then Panic ''sleep without lk'' else Ret (upd_proc i (\<lambda>q. q\<lparr>p_chan := Some c, p_state := SLEEPING\<rparr>) s))"

definition sleep_leave :: "nat \<Rightarrow> 'a kstate_scheme \<Rightarrow> 'a kstate_scheme" where
  "sleep_leave i s = upd_proc i (\<lambda>q. q\<lparr>p_chan := None\<rparr>) s"

definition yield_enter :: "nat \<Rightarrow> 'a kstate_scheme \<Rightarrow> 'a kstate_scheme" where
  "yield_enter i s = upd_proc i (\<lambda>q. q\<lparr>p_state := RUNNABLE\<rparr>) s"

definition kill :: "int \<Rightarrow> 'a kstate_scheme \<Rightarrow> int \<times> 'a kstate_scheme" where
  "kill pid s =
     (case find_idx (\<lambda>p. p_pid p = pid) (ptable s) of
        None \<Rightarrow> (- 1, s)
      | Some i \<Rightarrow> (0, upd_proc i (\<lambda>p. let p = p\<lparr>p_killed := True\<rparr>
           in if p_state p = SLEEPING then p\<lparr>p_state := RUNNABLE\<rparr> else p) s))"

section \<open>The scheduler\<close>

text \<open>\<open>switchuvm\<close> on CPU \<open>i\<close>: the kernel stack to use on the next trap from user space, and
  the page table. \<open>V2P\<close> of \<open>memlayout.h\<close> subtracts \<open>KERNBASE\<close>.\<close>

definition upd_cpu :: "nat \<Rightarrow> (cpu \<Rightarrow> cpu) \<Rightarrow> 'a kstate_scheme \<Rightarrow> 'a kstate_scheme" where
  "upd_cpu i f s = s\<lparr>cpus := (cpus s)[i := f (cpus s ! i)]\<rparr>"

definition switchuvm :: "nat \<Rightarrow> nat option \<Rightarrow> 'a kstate_scheme \<Rightarrow> 'a kstate_scheme res" where
  "switchuvm i p s =
     (case p of None \<Rightarrow> Panic ''switchuvm: no process''
      | Some j \<Rightarrow> (let q = ptable s ! j in
          if p_kstack q = 0 then Panic ''switchuvm: no kstack''
          else if p_pgdir q = 0 then Panic ''switchuvm: no pgdir''
          else Ret (upd_cpu i (\<lambda>c. c\<lparr>c_esp0 := p_kstack q + word_of_nat KSTACKSIZE,
                                     c_cr3 := p_pgdir q - word_of_nat KERNBASE\<rparr>) s)))"

definition switchkvm :: "nat \<Rightarrow> uint \<Rightarrow> 'a kstate_scheme \<Rightarrow> 'a kstate_scheme" where
  "switchkvm i kpgdir s = upd_cpu i (\<lambda>c. c\<lparr>c_cr3 := kpgdir - word_of_nat KERNBASE\<rparr>) s"

text \<open>One iteration of the scheduler's inner loop on CPU \<open>i\<close>, up to the \<open>swtch\<close> into the chosen
  process, and what it does when that process switches back.\<close>

definition scheduler_step :: "nat \<Rightarrow> 'a kstate_scheme \<Rightarrow> 'a kstate_scheme res" where
  "scheduler_step i s =
     (let k = c_scan (cpus s ! i) in
      if \<not> k < NPROC then Ret (upd_cpu i (\<lambda>c. c\<lparr>c_scan := 0\<rparr>) s)
      else if p_state (ptable s ! k) \<noteq> RUNNABLE then Ret (upd_cpu i (\<lambda>c. c\<lparr>c_scan := Suc k\<rparr>) s)
      else bnd (switchuvm i (Some k) (upd_cpu i (\<lambda>c. c\<lparr>c_proc := Some k\<rparr>) s)) (\<lambda>s.
           Ret (upd_proc k (\<lambda>p. p\<lparr>p_state := RUNNING\<rparr>) s)))"

definition scheduler_resume :: "nat \<Rightarrow> uint \<Rightarrow> 'a kstate_scheme \<Rightarrow> 'a kstate_scheme" where
  "scheduler_resume i kpgdir s =
     upd_cpu i (\<lambda>c. c\<lparr>c_proc := None, c_scan := Suc (c_scan c)\<rparr>) (switchkvm i kpgdir s)"

text \<open>The inner loop until it finds a process to run, or for \<open>n\<close> iterations.\<close>

primrec scheduler_run :: "nat \<Rightarrow> nat \<Rightarrow> 'a kstate_scheme \<Rightarrow> 'a kstate_scheme res" where
  "scheduler_run 0 i s = Ret s"
| "scheduler_run (Suc n) i s =
     bnd (scheduler_step i s) (\<lambda>s. if c_proc (cpus s ! i) \<noteq> None then Ret s else scheduler_run n i s)"

section \<open>Tickets and process information\<close>

definition gettickets :: "int \<Rightarrow> 'a kstate_scheme \<Rightarrow> int" where
  "gettickets pid s =
     (case find_idx (\<lambda>p. p_pid p = pid \<and> p_state p \<noteq> UNUSED) (ptable s) of
        None \<Rightarrow> - 1 | Some i \<Rightarrow> p_tickets (ptable s ! i))"

definition fillpstat_entry :: "proc \<Rightarrow> pstat" where
  "fillpstat_entry p = \<lparr>
     ps_inuse = (if p_state p \<noteq> UNUSED then 1 else 0),
     ps_tickets = p_tickets p,
     ps_pid = p_pid p,
     ps_ticks = p_ticks p,
     ps_name = take 16 (p_name p),
     ps_state = (if p_state p = EMBRYO then CHR ''E''
       else if p_state p = RUNNING then CHR ''R''
       else if p_state p = RUNNABLE then CHR ''A''
       else if p_state p = SLEEPING then CHR ''S''
       else if p_state p = ZOMBIE then CHR ''Z''
       else CHR ''?'')\<rparr>"

definition fillpstat :: "'a kstate_scheme \<Rightarrow> pstat list" where
  "fillpstat s = map fillpstat_entry (ptable s)"

text \<open>\<open>sys_settickets\<close> once its argument \<open>n\<close> has been fetched.\<close>

definition settickets :: "int \<Rightarrow> 'a kstate_scheme \<Rightarrow> int \<times> 'a kstate_scheme" where
  "settickets n s =
     (if n < 10 then (- 1, s)
      else (case cur s of None \<Rightarrow> (- 1, s)
            | Some i \<Rightarrow> (0, upd_proc i (\<lambda>p. p\<lparr>p_tickets := n\<rparr>) s)))"

section \<open>Laws\<close>

text \<open>A zeroed slot, and the table as the kernel's \<open>.bss\<close> and \<open>.data\<close> segments hold it before
  the first process is made.\<close>

definition zero_tf :: trapframe where
  "zero_tf = \<lparr>tf_edi = 0, tf_esi = 0, tf_ebp = 0, tf_ebx = 0, tf_edx = 0, tf_ecx = 0, tf_eax = 0,
     tf_gs = 0, tf_fs = 0, tf_es = 0, tf_ds = 0, tf_trapno = 0, tf_err = 0, tf_eip = 0, tf_cs = 0,
     tf_eflags = 0, tf_esp = 0, tf_ss = 0\<rparr>"

definition zero_proc :: proc where
  "zero_proc = \<lparr>p_sz = 0, p_pgdir = 0, p_kstack = 0, p_state = UNUSED, p_pid = 0, p_parent = None,
     p_tf = zero_tf, p_context = \<lparr>cx_edi = 0, cx_esi = 0, cx_ebx = 0, cx_ebp = 0, cx_eip = 0\<rparr>,
     p_chan = None, p_killed = False, p_ofile = replicate NOFILE None, p_cwd = None,
     p_name = replicate 16 0, p_tickets = 0, p_ticks = 0\<rparr>"

definition bss_kstate :: kstate where
  "bss_kstate = mach.extend up_mach
     (kstate.fields (replicate NPROC zero_proc) 1 None 0)"

lemma length_ptable_upd_proc [simp]: "length (ptable (upd_proc i f s)) = length (ptable s)"
  by (simp add: upd_proc_def)

lemma ptable_upd_proc_nth:
  "j < length (ptable s) \<Longrightarrow>
   ptable (upd_proc i f s) ! j = (if i = j then f (ptable s ! j) else ptable s ! j)"
  by (auto simp: upd_proc_def nth_list_update)

lemma ptable_wakeup1_nth:
  "j < length (ptable s) \<Longrightarrow> ptable (wakeup1 c s) ! j =
    (let p = ptable s ! j in if p_state p = SLEEPING \<and> p_chan p = Some c then p\<lparr>p_state := RUNNABLE\<rparr> else p)"
  by (simp add: wakeup1_def Let_def)

lemma length_ptable_wakeup1 [simp]: "length (ptable (wakeup1 c s)) = length (ptable s)"
  by (simp add: wakeup1_def)

lemma myproc_cur:
  assumes "cpu_ok s i"
  shows "\<exists>s'. myproc s = Ret (cur s, s') \<and> ptable s' = ptable s \<and> eflags_if s' = eflags_if s"
proof -
  obtain s1 where s1: "pushcli s = Ret s1" using pushcli_ok [OF assms] by blast
  note p = pushcli_ok_inv [OF assms s1]
  have n: "0 \<le> c_ncli (cpus s ! i)" "0 < c_ncli (cpus s ! i) \<Longrightarrow> \<not> eflags_if s"
    using assms by (auto simp: cpu_ok_def)
  have s1': "ptable s1 = ptable s" "c_proc (cpus s1 ! i) = c_proc (cpus s ! i)"
    using pushcli_ok [OF assms] s1 cpu_ok_idx [OF assms] by auto
  have my: "mycpu s1 = Ret i" using p by (simp add: mycpu_def cpu_ok_def)
  have cur: "cur s = c_proc (cpus s ! i)" using assms by (simp add: cur_def cpu_ok_def)
  obtain s2 where s2: "popcli s1 = Ret s2"
      "eflags_if s2 = (c_ncli (cpus s1 ! i) = 1 \<and> c_intena (cpus s1 ! i))"
    using popcli_ok [of s1 i] p n by auto
  moreover have "ptable s2 = ptable s1"
    using s2(1) by (auto simp: popcli_def Let_def ret_simps split: if_splits)
  ultimately show ?thesis
    using s1 s1' my cur p n by (auto simp: myproc_def Let_def)
qed

end
