(* ===== verification/Sleepwakeup.thy ===== *)
theory Sleepwakeup
  imports Proc
begin

text \<open>
  Why \<open>sleep\<close> of \<open>proc.c\<close> misses no wakeup. A process that sleeps does so in the pattern
  \<open>acquire(lk); while(!cond) sleep(chan, lk); ...; release(lk)\<close>. The theory interleaves the lock operations of \<open>sleep\<close>,
  \<open>wakeup\<close> and the scheduler for any number of processes, with \<open>sleep_enter\<close>, \<open>sleep_leave\<close> and \<open>wakeup1\<close> acting on
  the process table. \<open>same\<close> says which of its two branches \<open>sleep\<close> takes:

  \<^item> \<open>lk\<close> is a lock of its own. A process that makes the condition true does
    \<open>acquire(lk); cond = 1; wakeup(chan); release(lk)\<close>.

  \<^item> \<open>lk\<close> is \<open>ptable.lock\<close>, as in \<open>wait\<close>. A process that makes the condition true does, as \<open>exit\<close>,
    \<open>acquire(&ptable.lock); wakeup1(chan); cond = 1\<close> and releases the lock.
\<close>

section \<open>The protocol\<close>

text \<open>Where the process in a slot is. \<open>Chk\<close>: holds \<open>lk\<close>, about to test the condition.
  \<open>Sl1\<close>: in \<open>sleep\<close>, acquiring \<open>ptable.lock\<close>. \<open>Sl2\<close>: holds both, about to release \<open>lk\<close>.
  \<open>Sl3\<close>: about to mark itself asleep. \<open>Sl4\<close>: in \<open>sched\<close>; the scheduler has released
  \<open>ptable.lock\<close>. \<open>Sl5\<close>: switched to again, holding \<open>ptable.lock\<close>. \<open>Got\<close>: the condition held
  and was consumed, about to release \<open>lk\<close>. \<open>WSet\<close>: about to make the condition true.
  \<open>Wk1\<close>: in \<open>wakeup\<close>, acquiring \<open>ptable.lock\<close>. \<open>Wk2\<close>: about to run \<open>wakeup1\<close>.
  \<open>Wk3\<close>: after \<open>wakeup1\<close>, holding \<open>ptable.lock\<close>. \<open>Wk4\<close>: about to release \<open>lk\<close>.\<close>

datatype sw_pc = Away | Want | Chk | Sl1 | Sl2 | Sl3 | Sl4 | Sl5 | Got | WWant | WSet | Wk1 | Wk2 | Wk3 | Wk4

record sw =
  sw_k :: kstate
  sw_cond :: bool
  sw_lk :: "nat option"
  sw_pt :: "nat option"
  sw_pc :: "nat \<Rightarrow> sw_pc"

definition goto :: "nat \<Rightarrow> sw_pc \<Rightarrow> sw \<Rightarrow> sw" where
  "goto i pc m = m\<lparr>sw_pc := (sw_pc m)(i := pc)\<rparr>"

inductive sw_step :: "bool \<Rightarrow> chan \<Rightarrow> sw \<Rightarrow> sw \<Rightarrow> bool" for same c where
  want: "i < NPROC \<Longrightarrow> sw_pc m i = Away \<Longrightarrow> sw_step same c m (goto i Want m)"
| lk_acquire: "\<not> same \<Longrightarrow> sw_pc m i = Want \<Longrightarrow> sw_lk m = None \<Longrightarrow>
    sw_step same c m (goto i Chk (m\<lparr>sw_lk := Some i\<rparr>))"
| pt_acquire: "same \<Longrightarrow> sw_pc m i = Want \<Longrightarrow> sw_pt m = None \<Longrightarrow>
    sw_step same c m (goto i Chk (m\<lparr>sw_pt := Some i\<rparr>))"
| test_true: "sw_pc m i = Chk \<Longrightarrow> sw_cond m \<Longrightarrow> sw_step same c m (goto i Got (m\<lparr>sw_cond := False\<rparr>))"
| lk_release: "\<not> same \<Longrightarrow> sw_pc m i = Got \<Longrightarrow> sw_step same c m (goto i Away (m\<lparr>sw_lk := None\<rparr>))"
| pt_release: "same \<Longrightarrow> sw_pc m i = Got \<Longrightarrow> sw_step same c m (goto i Away (m\<lparr>sw_pt := None\<rparr>))"
| test_false: "sw_pc m i = Chk \<Longrightarrow> \<not> sw_cond m \<Longrightarrow> sw_step same c m (goto i (if same then Sl3 else Sl1) m)"
| sleep_acquire: "sw_pc m i = Sl1 \<Longrightarrow> sw_pt m = None \<Longrightarrow>
    sw_step same c m (goto i Sl2 (m\<lparr>sw_pt := Some i\<rparr>))"
| sleep_release: "sw_pc m i = Sl2 \<Longrightarrow> sw_step same c m (goto i Sl3 (m\<lparr>sw_lk := None\<rparr>))"
| sleep_mark: "sw_pc m i = Sl3 \<Longrightarrow> sleep_enter (Some i) c True (sw_k m) = Ret k \<Longrightarrow>
    sw_step same c m (goto i Sl4 (m\<lparr>sw_k := k, sw_pt := None\<rparr>))"
| scheduled: "sw_pc m i = Sl4 \<Longrightarrow> p_state (ptable (sw_k m) ! i) = RUNNABLE \<Longrightarrow> sw_pt m = None \<Longrightarrow>
    sw_step same c m (goto i Sl5 (m\<lparr>sw_k := upd_proc i (\<lambda>p. p\<lparr>p_state := RUNNING\<rparr>) (sw_k m), sw_pt := Some i\<rparr>))"
| sleep_return: "\<not> same \<Longrightarrow> sw_pc m i = Sl5 \<Longrightarrow>
    sw_step same c m (goto i Want (m\<lparr>sw_k := sleep_leave i (sw_k m), sw_pt := None\<rparr>))"
| sleep_return_same: "same \<Longrightarrow> sw_pc m i = Sl5 \<Longrightarrow>
    sw_step same c m (goto i Chk (m\<lparr>sw_k := sleep_leave i (sw_k m)\<rparr>))"
| wwant: "i < NPROC \<Longrightarrow> sw_pc m i = Away \<Longrightarrow> sw_step same c m (goto i WWant m)"
| wlk_acquire: "\<not> same \<Longrightarrow> sw_pc m i = WWant \<Longrightarrow> sw_lk m = None \<Longrightarrow>
    sw_step same c m (goto i WSet (m\<lparr>sw_lk := Some i\<rparr>))"
| wpt_acquire: "same \<Longrightarrow> sw_pc m i = WWant \<Longrightarrow> sw_pt m = None \<Longrightarrow>
    sw_step same c m (goto i Wk2 (m\<lparr>sw_pt := Some i\<rparr>))"
| make_true: "sw_pc m i = WSet \<Longrightarrow> sw_step same c m (goto i Wk1 (m\<lparr>sw_cond := True\<rparr>))"
| wakeup_acquire: "sw_pc m i = Wk1 \<Longrightarrow> sw_pt m = None \<Longrightarrow>
    sw_step same c m (goto i Wk2 (m\<lparr>sw_pt := Some i\<rparr>))"
| wakeup_scan: "sw_pc m i = Wk2 \<Longrightarrow> sw_step same c m (goto i Wk3 (m\<lparr>sw_k := wakeup1 c (sw_k m)\<rparr>))"
| wakeup_release: "\<not> same \<Longrightarrow> sw_pc m i = Wk3 \<Longrightarrow> sw_step same c m (goto i Wk4 (m\<lparr>sw_pt := None\<rparr>))"
| make_true_same: "same \<Longrightarrow> sw_pc m i = Wk3 \<Longrightarrow> sw_step same c m (goto i Wk4 (m\<lparr>sw_cond := True\<rparr>))"
| wlk_release: "\<not> same \<Longrightarrow> sw_pc m i = Wk4 \<Longrightarrow> sw_step same c m (goto i Away (m\<lparr>sw_lk := None\<rparr>))"
| wpt_release: "same \<Longrightarrow> sw_pc m i = Wk4 \<Longrightarrow> sw_step same c m (goto i Away (m\<lparr>sw_pt := None\<rparr>))"
| kill_other: "sw_pt m = None \<Longrightarrow> sw_step same c m (m\<lparr>sw_k := snd (kill pid (sw_k m))\<rparr>)"

definition asleep_on :: "chan \<Rightarrow> proc \<Rightarrow> bool" where
  "asleep_on c p \<longleftrightarrow> p_state p = SLEEPING \<and> p_chan p = Some c"

inductive sw_reachable :: "bool \<Rightarrow> chan \<Rightarrow> sw \<Rightarrow> bool" for same c where
  sw_start: "length (ptable k) = NPROC \<Longrightarrow> \<forall>p \<in> set (ptable k). p_chan p \<noteq> Some c \<Longrightarrow>
    sw_reachable same c \<lparr>sw_k = k, sw_cond = b, sw_lk = None, sw_pt = None, sw_pc = (\<lambda>_. Away)\<rparr>"
| sw_next: "sw_reachable same c m \<Longrightarrow> sw_step same c m m' \<Longrightarrow> sw_reachable same c m'"

section \<open>Invariant\<close>

definition has_lk :: "bool \<Rightarrow> sw_pc \<Rightarrow> bool" where
  "has_lk same pc \<longleftrightarrow> \<not> same \<and> pc \<in> {Chk, Sl1, Sl2, Got, WSet, Wk1, Wk2, Wk3, Wk4}"

definition has_pt :: "bool \<Rightarrow> sw_pc \<Rightarrow> bool" where
  "has_pt same pc \<longleftrightarrow> pc \<in> {Sl3, Sl5, Wk2, Wk3} \<or> pc \<in> (if same then {Chk, Got, Wk4} else {Sl2})"

definition sleepers :: "chan \<Rightarrow> kstate \<Rightarrow> nat set" where
  "sleepers c k = {i. i < NPROC \<and> asleep_on c (ptable k ! i)}"

text \<open>The table entry of a process that is inside \<open>sched\<close> in \<open>sleep\<close>, and of any other.\<close>

definition slot_ok :: "chan \<Rightarrow> sw_pc \<Rightarrow> proc \<Rightarrow> bool" where
  "slot_ok c pc p \<longleftrightarrow>
     (pc = Sl4 \<longrightarrow> p_chan p = Some c \<and> (p_state p = SLEEPING \<or> p_state p = RUNNABLE)) \<and>
     (p_chan p = Some c \<longrightarrow> pc = Sl4 \<or> pc = Sl5 \<and> p_state p \<noteq> SLEEPING)"

definition slots_ok :: "chan \<Rightarrow> (nat \<Rightarrow> sw_pc) \<Rightarrow> kstate \<Rightarrow> bool" where
  "slots_ok c f k \<longleftrightarrow> length (ptable k) = NPROC \<and> (\<forall>i < NPROC. slot_ok c (f i) (ptable k ! i))"

definition sw_inv :: "bool \<Rightarrow> chan \<Rightarrow> sw \<Rightarrow> bool" where
  "sw_inv same c m \<longleftrightarrow>
     slots_ok c (sw_pc m) (sw_k m) \<and>
     (\<forall>i. has_lk same (sw_pc m i) \<longleftrightarrow> sw_lk m = Some i) \<and>
     (\<forall>i. has_pt same (sw_pc m i) \<longleftrightarrow> sw_pt m = Some i) \<and>
     (\<forall>i. sw_pc m i \<noteq> Away \<longrightarrow> i < NPROC) \<and>
     (\<forall>i. same \<longrightarrow> sw_pc m i \<notin> {Sl1, Sl2, WSet, Wk1}) \<and>
     (\<forall>i. sw_pc m i = Sl1 \<or> sw_pc m i = Sl2 \<longrightarrow> \<not> sw_cond m) \<and>
     (\<forall>i. same \<and> sw_pc m i = Wk3 \<longrightarrow> sleepers c (sw_k m) = {}) \<and>
     (sw_cond m \<longrightarrow> (\<exists>i. sw_pc m i = Sl3 \<or> i \<in> sleepers c (sw_k m)) \<longrightarrow>
        \<not> same \<and> (\<exists>j. sw_pc m j = Wk1 \<or> sw_pc m j = Wk2))"

lemma sw_pc_goto [simp]: "sw_pc (goto i pc m) j = (if j = i then pc else sw_pc m j)"
  by (simp add: goto_def)

lemma goto_fields [simp]:
  "sw_k (goto i pc m) = sw_k m" "sw_cond (goto i pc m) = sw_cond m"
  "sw_lk (goto i pc m) = sw_lk m" "sw_pt (goto i pc m) = sw_pt m"
  by (simp_all add: goto_def)

lemma length_ptable_kill [simp]: "length (ptable (snd (kill pid k))) = length (ptable k)"
  by (auto simp: kill_def split: option.splits)

lemma length_ptable_leave [simp]: "length (ptable (sleep_leave i k)) = length (ptable k)"
  by (simp add: sleep_leave_def)

text \<open>The steps on the process table.\<close>

lemma slots_move: "slots_ok c f k \<Longrightarrow> pc \<notin> {Sl4, Sl5} \<Longrightarrow> f i \<notin> {Sl4, Sl5} \<Longrightarrow> slots_ok c (f(i := pc)) k"
  by (auto simp: slots_ok_def slot_ok_def)

lemma slots_kill: "slots_ok c f k \<Longrightarrow> slots_ok c f (snd (kill pid k)) \<and> sleepers c (snd (kill pid k)) \<subseteq> sleepers c k"
  by (auto simp: slots_ok_def slot_ok_def sleepers_def kill_def asleep_on_def ptable_upd_proc_nth Let_def
      split: option.splits if_splits)

lemma slots_wakeup1: "slots_ok c f k \<Longrightarrow> slots_ok c f (wakeup1 c k) \<and> sleepers c (wakeup1 c k) = {}"
  by (auto simp: slots_ok_def slot_ok_def sleepers_def asleep_on_def ptable_wakeup1_nth Let_def)

lemma slots_enter:
  assumes "slots_ok c f k" and "i < NPROC" and "sleep_enter (Some i) c True k = Ret k'"
  shows "slots_ok c (f(i := Sl4)) k' \<and> sleepers c k' = insert i (sleepers c k)"
  using assms by (auto simp: slots_ok_def slot_ok_def sleepers_def asleep_on_def sleep_enter_def ptable_upd_proc_nth)

lemma slots_run:
  assumes "slots_ok c f k" and "f i = Sl4"
  shows "slots_ok c (f(i := Sl5)) (upd_proc i (\<lambda>p. p\<lparr>p_state := RUNNING\<rparr>) k) \<and>
    sleepers c (upd_proc i (\<lambda>p. p\<lparr>p_state := RUNNING\<rparr>) k) \<subseteq> sleepers c k"
  using assms by (auto simp: slots_ok_def slot_ok_def sleepers_def asleep_on_def ptable_upd_proc_nth split: if_splits)

lemma slots_leave:
  assumes "slots_ok c f k" and "pc \<notin> {Sl4, Sl5}"
  shows "slots_ok c (f(i := pc)) (sleep_leave i k) \<and> sleepers c (sleep_leave i k) \<subseteq> sleepers c k"
  using assms by (auto simp: slots_ok_def slot_ok_def sleepers_def asleep_on_def sleep_leave_def ptable_upd_proc_nth split: if_splits)

lemma sw_invD:
  assumes "sw_inv same c m"
  shows "slots_ok c (sw_pc m) (sw_k m)" and "\<And>i. has_lk same (sw_pc m i) \<longleftrightarrow> sw_lk m = Some i"
    and "\<And>i. has_pt same (sw_pc m i) \<longleftrightarrow> sw_pt m = Some i" and "\<And>i. sw_pc m i \<noteq> Away \<Longrightarrow> i < NPROC"
    and "\<And>i. same \<Longrightarrow> sw_pc m i \<notin> {Sl1, Sl2, WSet, Wk1}" and "\<And>i. sw_pc m i = Sl1 \<or> sw_pc m i = Sl2 \<Longrightarrow> \<not> sw_cond m"
    and "\<And>i. same \<Longrightarrow> sw_pc m i = Wk3 \<Longrightarrow> sleepers c (sw_k m) = {}"
    and "\<And>i. sw_cond m \<Longrightarrow> sw_pc m i = Sl3 \<or> i \<in> sleepers c (sw_k m) \<Longrightarrow> \<not> same \<and> (\<exists>j. sw_pc m j = Wk1 \<or> sw_pc m j = Wk2)"
  using assms unfolding sw_inv_def by blast+

lemma sw_invI:
  assumes "slots_ok c (sw_pc m) (sw_k m)" and "\<And>i. has_lk same (sw_pc m i) \<longleftrightarrow> sw_lk m = Some i"
    and "\<And>i. has_pt same (sw_pc m i) \<longleftrightarrow> sw_pt m = Some i" and "\<And>i. sw_pc m i \<noteq> Away \<Longrightarrow> i < NPROC"
    and "\<And>i. same \<Longrightarrow> sw_pc m i \<notin> {Sl1, Sl2, WSet, Wk1}" and "\<And>i. sw_pc m i = Sl1 \<or> sw_pc m i = Sl2 \<Longrightarrow> \<not> sw_cond m"
    and "\<And>i. same \<Longrightarrow> sw_pc m i = Wk3 \<Longrightarrow> sleepers c (sw_k m) = {}"
    and "\<And>i. sw_cond m \<Longrightarrow> sw_pc m i = Sl3 \<or> i \<in> sleepers c (sw_k m) \<Longrightarrow> \<not> same \<and> (\<exists>j. sw_pc m j = Wk1 \<or> sw_pc m j = Wk2)"
  shows "sw_inv same c m"
  using assms unfolding sw_inv_def by blast

lemma owner_move:
  assumes "\<And>j. P (f j) \<longleftrightarrow> x = Some j"
    and "x' = x \<and> P pc = P (f i) \<or> x = None \<and> x' = Some i \<and> P pc \<or> P (f i) \<and> x' = None \<and> \<not> P pc"
  shows "P ((f(i := pc)) j) \<longleftrightarrow> x' = Some j"
  using assms(2) assms(1) [of i] assms(1) [of j] by (cases "j = i") auto

text \<open>A step of process \<open>i\<close> to \<open>pc\<close>, by what it may do to the locks, the condition and the set of
  sleepers; \<open>wakeup1\<close> and \<open>kill\<close> are treated apart.\<close>

lemma sw_inv_move:
  assumes "sw_inv same c m" and "sw_pc m' = (sw_pc m)(i := pc)" and i: "i < NPROC"
    and slots: "slots_ok c ((sw_pc m)(i := pc)) (sw_k m')"
    and lk: "sw_lk m' = sw_lk m \<and> has_lk same pc = has_lk same (sw_pc m i) \<or>
      sw_lk m = None \<and> sw_lk m' = Some i \<and> has_lk same pc \<or>
      has_lk same (sw_pc m i) \<and> sw_lk m' = None \<and> \<not> has_lk same pc"
    and pt: "sw_pt m' = sw_pt m \<and> has_pt same pc = has_pt same (sw_pc m i) \<or>
      sw_pt m = None \<and> sw_pt m' = Some i \<and> has_pt same pc \<or>
      has_pt same (sw_pc m i) \<and> sw_pt m' = None \<and> \<not> has_pt same pc"
    and mode: "same \<Longrightarrow> pc \<notin> {Sl1, Sl2, WSet, Wk1, Wk3}"
    and cond: "sw_cond m' \<Longrightarrow> sw_cond m \<or> \<not> same \<and> pc = Wk1 \<and> has_lk same (sw_pc m i) \<or> same \<and> sw_pc m i = Wk3 \<and> pc = Wk4"
    and false: "pc = Sl1 \<or> pc = Sl2 \<or> pc = Sl3 \<Longrightarrow> \<not> sw_cond m'"
    and waker: "sw_pc m i = Wk1 \<or> sw_pc m i = Wk2 \<Longrightarrow> pc = Wk1 \<or> pc = Wk2"
    and sub: "sleepers c (sw_k m') \<subseteq> (if sw_pc m i = Sl3 then insert i (sleepers c (sw_k m)) else sleepers c (sw_k m))"
  shows "sw_inv same c m'"
proof -
  note I = sw_invD [OF assms(1)]
  have one: "j = k" if "has_pt same (sw_pc m j)" "has_pt same (sw_pc m k)" for j k using that I(3) by auto
  have "has_lk same (sw_pc m' j) \<longleftrightarrow> sw_lk m' = Some j" for j
    using owner_move [of "has_lk same" "sw_pc m" "sw_lk m" "sw_lk m'" pc i j] I(2) lk assms(2) by simp
  moreover have "has_pt same (sw_pc m' j) \<longleftrightarrow> sw_pt m' = Some j" for j
    using owner_move [of "has_pt same" "sw_pc m" "sw_pt m" "sw_pt m'" pc i j] I(3) pt assms(2) by simp
  moreover have "\<not> sw_cond m'" if j: "sw_pc m' j = Sl1 \<or> sw_pc m' j = Sl2" for j
  proof (cases "j = i")
    case False
    then have pj: "sw_pc m j = Sl1 \<or> sw_pc m j = Sl2" using j assms(2) by simp
    then have ns: "\<not> same" "has_lk same (sw_pc m j)" "\<not> sw_cond m" using I(5) [of j] I(6) [of j] by (auto simp: has_lk_def)
    then show ?thesis using cond False I(2) [of i] I(2) [of j] by auto
  qed (use j false assms(2) in auto)
  moreover have "sleepers c (sw_k m') = {}" if j: "same" "sw_pc m' j = Wk3" for j
  proof -
    have pj: "sw_pc m j = Wk3" "j \<noteq> i" using j mode assms(2) by (auto split: if_splits)
    moreover have "sw_pc m i \<noteq> Sl3" using one [of i j] pj by (auto simp: has_pt_def)
    ultimately show ?thesis using sub I(7) [OF j(1)] by auto
  qed
  moreover have "\<not> same \<and> (\<exists>j. sw_pc m' j = Wk1 \<or> sw_pc m' j = Wk2)"
    if c: "sw_cond m'" and x: "sw_pc m' j = Sl3 \<or> j \<in> sleepers c (sw_k m')" for j
  proof -
    have x': "sw_pc m j = Sl3 \<or> j \<in> sleepers c (sw_k m)"
      using x sub assms(2) false c by (auto split: if_splits)
    consider "sw_cond m" | "\<not> same" "pc = Wk1" | "same" "sw_pc m i = Wk3" "pc = Wk4" using cond [OF c] by blast
    then show ?thesis
    proof cases
      case 1
      then obtain w where w: "\<not> same" "sw_pc m w = Wk1 \<or> sw_pc m w = Wk2" using I(8) x' by blast
      then show ?thesis using waker assms(2) by (cases "w = i") auto
    next
      case 3
      have "sw_pc m j \<noteq> Sl3" using one [of i j] 3(2) by (auto simp: has_pt_def)
      then show ?thesis using x' I(7) [OF 3(1,2)] by simp
    qed (use assms(2) in auto)
  qed
  moreover have "same \<longrightarrow> sw_pc m' j \<notin> {Sl1, Sl2, WSet, Wk1}" "sw_pc m' j \<noteq> Away \<longrightarrow> j < NPROC" for j
    using mode I(4,5) [of j] i assms(2) by auto
  moreover have "slots_ok c (sw_pc m') (sw_k m')" using slots assms(2) by simp
  ultimately show ?thesis unfolding sw_inv_def by blast
qed

lemma sw_inv_scan:
  assumes "sw_inv same c m" and "sw_pc m i = Wk2"
  shows "sw_inv same c (goto i Wk3 (m\<lparr>sw_k := wakeup1 c (sw_k m)\<rparr>))"
proof -
  note I = sw_invD [OF assms(1)]
  have no: "sw_pc m k \<noteq> Sl3" for k
    using I(3) [of i] I(3) [of k] assms(2) by (auto simp: has_pt_def)
  note S = slots_wakeup1 [OF slots_move [OF I(1), of Wk3 i]]
  let ?m = "goto i Wk3 (m\<lparr>sw_k := wakeup1 c (sw_k m)\<rparr>)"
  have p: "sw_pc ?m = (sw_pc m)(i := Wk3)" by (simp add: goto_def)
  have "has_lk same (sw_pc ?m j) \<longleftrightarrow> sw_lk ?m = Some j" "has_pt same (sw_pc ?m j) \<longleftrightarrow> sw_pt ?m = Some j" for j
    using I(2,3) [of j] assms(2) by (auto simp: has_lk_def has_pt_def)
  moreover have "slots_ok c (sw_pc ?m) (sw_k ?m)" "sleepers c (sw_k ?m) = {}" using S assms(2) by (simp_all add: p)
  ultimately show ?thesis unfolding sw_inv_def using I(4-6) no assms(2) by (simp split: if_split) blast
qed

lemma sw_inv_kill:
  assumes "sw_inv same c m"
  shows "sw_inv same c (m\<lparr>sw_k := snd (kill pid (sw_k m))\<rparr>)"
proof -
  note I = sw_invD [OF assms]
  let ?k = "snd (kill pid (sw_k m))"
  have S: "slots_ok c (sw_pc m) ?k" "sleepers c ?k \<subseteq> sleepers c (sw_k m)" using slots_kill [OF I(1), of pid] by auto
  show ?thesis
  proof (rule sw_invI)
    show "sleepers c (sw_k (m\<lparr>sw_k := ?k\<rparr>)) = {}" if "same" "sw_pc (m\<lparr>sw_k := ?k\<rparr>) j = Wk3" for j
      using I(7) [OF that(1), of j] that(2) S(2) by auto
    show "\<not> same \<and> (\<exists>j. sw_pc (m\<lparr>sw_k := ?k\<rparr>) j = Wk1 \<or> sw_pc (m\<lparr>sw_k := ?k\<rparr>) j = Wk2)"
      if "sw_cond (m\<lparr>sw_k := ?k\<rparr>)" "sw_pc (m\<lparr>sw_k := ?k\<rparr>) j = Sl3 \<or> j \<in> sleepers c (sw_k (m\<lparr>sw_k := ?k\<rparr>))" for j
      using I(8) [of j] that S(2) by auto
  qed (use S(1) I(2-6) in simp_all)
qed

text \<open>A step that leaves the process table alone.\<close>

lemma sw_inv_local:
  assumes "sw_inv same c m" and "sw_pc m' = (sw_pc m)(i := pc)" and "i < NPROC" and "sw_k m' = sw_k m"
    and "pc \<notin> {Sl4, Sl5}" and "sw_pc m i \<notin> {Sl4, Sl5}"
    and "sw_lk m' = sw_lk m \<and> has_lk same pc = has_lk same (sw_pc m i) \<or>
      sw_lk m = None \<and> sw_lk m' = Some i \<and> has_lk same pc \<or>
      has_lk same (sw_pc m i) \<and> sw_lk m' = None \<and> \<not> has_lk same pc"
    and "sw_pt m' = sw_pt m \<and> has_pt same pc = has_pt same (sw_pc m i) \<or>
      sw_pt m = None \<and> sw_pt m' = Some i \<and> has_pt same pc \<or>
      has_pt same (sw_pc m i) \<and> sw_pt m' = None \<and> \<not> has_pt same pc"
    and "same \<Longrightarrow> pc \<notin> {Sl1, Sl2, WSet, Wk1, Wk3}"
    and "sw_cond m' \<Longrightarrow> sw_cond m \<or> \<not> same \<and> pc = Wk1 \<and> has_lk same (sw_pc m i) \<or> same \<and> sw_pc m i = Wk3 \<and> pc = Wk4"
    and "pc = Sl1 \<or> pc = Sl2 \<or> pc = Sl3 \<Longrightarrow> \<not> sw_cond m'"
    and "sw_pc m i = Wk1 \<or> sw_pc m i = Wk2 \<Longrightarrow> pc = Wk1 \<or> pc = Wk2"
  shows "sw_inv same c m'"
proof (rule sw_inv_move [OF assms(1,2,3) _ assms(7-12)])
  show "slots_ok c ((sw_pc m)(i := pc)) (sw_k m')"
    using slots_move [OF sw_invD(1) [OF assms(1)] assms(5,6)] assms(4) by simp
  show "sleepers c (sw_k m') \<subseteq> (if sw_pc m i = Sl3 then insert i (sleepers c (sw_k m)) else sleepers c (sw_k m))"
    using assms(4) by auto
qed

lemma sw_step_inv:
  assumes "sw_step same c m m'" and "sw_inv same c m"
  shows "sw_inv same c m'"
proof -
  note I = sw_invD [OF assms(2)]
  have n: "i < NPROC" if "sw_pc m i \<noteq> Away" for i using I(4) that .
  have ns: "\<not> same" if "sw_pc m i = Sl1 \<or> sw_pc m i = Sl2 \<or> sw_pc m i = WSet \<or> sw_pc m i = Wk1" for i
    using I(5) [of i] that by auto
  from assms(1) show ?thesis
  proof cases
    case (kill_other pid)
    then show ?thesis using sw_inv_kill [OF assms(2)] by simp
  next
    case (wakeup_scan i)
    then show ?thesis using sw_inv_scan [OF assms(2)] by simp
  next
    case (sleep_mark i k)
    then show ?thesis using slots_enter [OF I(1) n sleep_mark(3)] n [of i]
      by (intro sw_inv_move [OF assms(2), of _ i Sl4]) (auto simp: goto_def has_lk_def has_pt_def)
  next
    case (scheduled i)
    then show ?thesis using slots_run [OF I(1) scheduled(2)] n [of i]
      by (intro sw_inv_move [OF assms(2), of _ i Sl5]) (auto simp: goto_def has_lk_def has_pt_def)
  next
    case (sleep_return i)
    then show ?thesis using slots_leave [OF I(1), of Want i] n [of i]
      by (intro sw_inv_move [OF assms(2), of _ i Want]) (auto simp: goto_def has_lk_def has_pt_def)
  next
    case (sleep_return_same i)
    then show ?thesis using slots_leave [OF I(1), of Chk i] n [of i]
      by (intro sw_inv_move [OF assms(2), of _ i Chk]) (auto simp: goto_def has_lk_def has_pt_def)
  next
    case (sleep_acquire i)
    then show ?thesis using ns [of i] I(6) [of i] n [of i]
      by (intro sw_inv_local [OF assms(2), of _ i Sl2]) (simp_all add: goto_def has_lk_def has_pt_def)
  next
    case (sleep_release i)
    then show ?thesis using ns [of i] I(6) [of i] n [of i]
      by (intro sw_inv_local [OF assms(2), of _ i Sl3]) (simp_all add: goto_def has_lk_def has_pt_def)
  next
    case (make_true i)
    then show ?thesis using ns [of i] n [of i]
      by (intro sw_inv_local [OF assms(2), of _ i Wk1]) (simp_all add: goto_def has_lk_def has_pt_def)
  next
    case (wakeup_acquire i)
    then show ?thesis using ns [of i] n [of i]
      by (intro sw_inv_local [OF assms(2), of _ i Wk2]) (simp_all add: goto_def has_lk_def has_pt_def)
  next
    case (test_false i)
    then show ?thesis using n [of i]
      by (intro sw_inv_local [OF assms(2), of _ i "if same then Sl3 else Sl1"]) (simp_all add: goto_def has_lk_def has_pt_def)
  next
    case (want i)
    then show ?thesis using n [of i]
      by (intro sw_inv_local [OF assms(2), of _ i Want]) (simp_all add: goto_def has_lk_def has_pt_def)
  next
    case (lk_acquire i)
    then show ?thesis using n [of i]
      by (intro sw_inv_local [OF assms(2), of _ i Chk]) (simp_all add: goto_def has_lk_def has_pt_def)
  next
    case (pt_acquire i)
    then show ?thesis using n [of i]
      by (intro sw_inv_local [OF assms(2), of _ i Chk]) (simp_all add: goto_def has_lk_def has_pt_def)
  next
    case (test_true i)
    then show ?thesis using n [of i]
      by (intro sw_inv_local [OF assms(2), of _ i Got]) (simp_all add: goto_def has_lk_def has_pt_def)
  next
    case (lk_release i)
    then show ?thesis using n [of i]
      by (intro sw_inv_local [OF assms(2), of _ i Away]) (simp_all add: goto_def has_lk_def has_pt_def)
  next
    case (pt_release i)
    then show ?thesis using n [of i]
      by (intro sw_inv_local [OF assms(2), of _ i Away]) (simp_all add: goto_def has_lk_def has_pt_def)
  next
    case (wwant i)
    then show ?thesis using n [of i]
      by (intro sw_inv_local [OF assms(2), of _ i WWant]) (simp_all add: goto_def has_lk_def has_pt_def)
  next
    case (wlk_acquire i)
    then show ?thesis using n [of i]
      by (intro sw_inv_local [OF assms(2), of _ i WSet]) (simp_all add: goto_def has_lk_def has_pt_def)
  next
    case (wpt_acquire i)
    then show ?thesis using n [of i]
      by (intro sw_inv_local [OF assms(2), of _ i Wk2]) (simp_all add: goto_def has_lk_def has_pt_def)
  next
    case (wakeup_release i)
    then show ?thesis using n [of i]
      by (intro sw_inv_local [OF assms(2), of _ i Wk4]) (simp_all add: goto_def has_lk_def has_pt_def)
  next
    case (make_true_same i)
    then show ?thesis using n [of i]
      by (intro sw_inv_local [OF assms(2), of _ i Wk4]) (simp_all add: goto_def has_lk_def has_pt_def)
  next
    case (wlk_release i)
    then show ?thesis using n [of i]
      by (intro sw_inv_local [OF assms(2), of _ i Away]) (simp_all add: goto_def has_lk_def has_pt_def)
  next
    case (wpt_release i)
    then show ?thesis using n [of i]
      by (intro sw_inv_local [OF assms(2), of _ i Away]) (simp_all add: goto_def has_lk_def has_pt_def)
  qed
qed

lemma sw_reachable_inv: "sw_reachable same c m \<Longrightarrow> sw_inv same c m"
proof (induction rule: sw_reachable.induct)
  case (sw_start k b)
  then have "p_chan (ptable k ! i) \<noteq> Some c" if "i < NPROC" for i using that by simp
  then have "sleepers c k = {}" "slots_ok c (\<lambda>_. Away) k"
    using sw_start by (auto simp: sleepers_def asleep_on_def slots_ok_def slot_ok_def)
  with sw_start show ?case by (simp add: sw_inv_def has_lk_def has_pt_def)
next
  case (sw_next m m')
  then show ?case by (blast intro: sw_step_inv)
qed

text \<open>C9. No wakeup is lost, in either branch of \<open>sleep\<close> and however sleepers, wakers, the scheduler and \<open>kill\<close>
  interleave. A process that has called \<open>sleep\<close> and switched away is asleep on the channel until it is made runnable,
  and no other process has the channel in its table entry. While the condition holds and such a process is still asleep,
  some process is inside \<open>wakeup\<close> and has yet to scan the process table (with \<open>ptable.lock\<close> as the lock of the condition
  there is no such state), and its scan makes every process inside \<open>sleep\<close> runnable. The two locks are each held by one
  process at most.\<close>

theorem no_lost_wakeup:
  assumes "sw_reachable same c m" and "i < NPROC"
  shows "(sw_pc m i = Sl4 \<longrightarrow> asleep_on c (ptable (sw_k m) ! i) \<or>
        p_state (ptable (sw_k m) ! i) = RUNNABLE \<and> p_chan (ptable (sw_k m) ! i) = Some c) \<and>
    (p_chan (ptable (sw_k m) ! i) = Some c \<longrightarrow> sw_pc m i = Sl4 \<or> sw_pc m i = Sl5) \<and>
    (sw_cond m \<and> asleep_on c (ptable (sw_k m) ! i) \<longrightarrow> \<not> same \<and> (\<exists>j < NPROC. sw_pc m j = Wk1 \<or> sw_pc m j = Wk2)) \<and>
    (sw_pc m i = Sl4 \<longrightarrow> p_state (ptable (wakeup1 c (sw_k m)) ! i) = RUNNABLE) \<and>
    (has_lk same (sw_pc m i) \<and> has_lk same (sw_pc m j) \<longrightarrow> i = j) \<and>
    (has_pt same (sw_pc m i) \<and> has_pt same (sw_pc m j) \<longrightarrow> i = j)"
proof -
  note I = sw_invD [OF sw_reachable_inv [OF assms(1)]]
  have s: "slot_ok c (sw_pc m i) (ptable (sw_k m) ! i)" "length (ptable (sw_k m)) = NPROC"
    using I(1) assms(2) by (simp_all add: slots_ok_def)
  have "sw_pc m i = Sl4 \<longrightarrow> p_state (ptable (wakeup1 c (sw_k m)) ! i) = RUNNABLE"
    using s assms(2) by (auto simp: slot_ok_def ptable_wakeup1_nth Let_def)
  moreover have "\<not> same \<and> (\<exists>j < NPROC. sw_pc m j = Wk1 \<or> sw_pc m j = Wk2)"
    if c: "sw_cond m" "asleep_on c (ptable (sw_k m) ! i)"
  proof -
    have "i \<in> sleepers c (sw_k m)" using c(2) assms(2) by (simp add: sleepers_def)
    then obtain j where "\<not> same" "sw_pc m j = Wk1 \<or> sw_pc m j = Wk2" using I(8) [OF c(1)] by blast
    then show ?thesis using I(4) [of j] by auto
  qed
  moreover have "has_lk same (sw_pc m i) \<and> has_lk same (sw_pc m j) \<longrightarrow> i = j"
    "has_pt same (sw_pc m i) \<and> has_pt same (sw_pc m j) \<longrightarrow> i = j" using I(2,3) by auto
  ultimately show ?thesis using s(1) by (auto simp: slot_ok_def asleep_on_def)
qed

text \<open>A run in which process 3 falls asleep and process 5 then makes the condition true.\<close>

theorem no_lost_wakeup_witness:
  "\<exists>m. sw_reachable False ChanTicks m \<and> sw_cond m \<and> sw_pc m 3 = Sl4 \<and> asleep_on ChanTicks (ptable (sw_k m) ! 3) \<and>
    (\<exists>j < NPROC. sw_pc m j = Wk1 \<or> sw_pc m j = Wk2) \<and> p_state (ptable (wakeup1 ChanTicks (sw_k m)) ! 3) = RUNNABLE"
proof -
  let ?R = "sw_reachable False ChanTicks"
  define m0 where "m0 = \<lparr>sw_k = bss_kstate, sw_cond = False, sw_lk = None, sw_pt = None, sw_pc = (\<lambda>_. Away)\<rparr>"
  define m1 where "m1 = goto 3 Want m0"
  define m2 where "m2 = goto 3 Chk (m1\<lparr>sw_lk := Some 3\<rparr>)"
  define m3 where "m3 = goto 3 Sl1 m2"
  define m4 where "m4 = goto 3 Sl2 (m3\<lparr>sw_pt := Some 3\<rparr>)"
  define m5 where "m5 = goto 3 Sl3 (m4\<lparr>sw_lk := None\<rparr>)"
  define k where "k = upd_proc 3 (\<lambda>q. q\<lparr>p_chan := Some ChanTicks, p_state := SLEEPING\<rparr>) (sw_k m5)"
  define m6 where "m6 = goto 3 Sl4 (m5\<lparr>sw_k := k, sw_pt := None\<rparr>)"
  define m7 where "m7 = goto 5 WWant m6"
  define m8 where "m8 = goto 5 WSet (m7\<lparr>sw_lk := Some 5\<rparr>)"
  define m9 where "m9 = goto 5 Wk1 (m8\<lparr>sw_cond := True\<rparr>)"
  note D = m0_def m1_def m2_def m3_def m4_def m5_def m6_def m7_def m8_def m9_def
  have n: "(3 :: nat) < NPROC" "(5 :: nat) < NPROC" by (simp_all add: NPROC_def)
  have "?R m0" unfolding m0_def
    by (rule sw_reachable.sw_start) (auto simp: bss_kstate_def mach.defs kstate.defs zero_proc_def)
  then have "?R m1" unfolding m1_def by (rule sw_next) (rule sw_step.want, use n in \<open>simp_all add: D\<close>)
  then have "?R m2" unfolding m2_def by (rule sw_next) (rule sw_step.lk_acquire, simp_all add: D)
  then have "?R m3" unfolding m3_def
    by (rule sw_next) (use sw_step.test_false [of m2 3 False ChanTicks] in \<open>simp add: D\<close>)
  then have "?R m4" unfolding m4_def by (rule sw_next) (rule sw_step.sleep_acquire, simp_all add: D)
  then have "?R m5" unfolding m5_def by (rule sw_next) (rule sw_step.sleep_release, simp_all add: D)
  then have "?R m6" unfolding m6_def
    by (rule sw_next) (rule sw_step.sleep_mark, simp_all add: D k_def sleep_enter_def)
  then have "?R m7" unfolding m7_def by (rule sw_next) (rule sw_step.wwant, use n in \<open>simp_all add: D\<close>)
  then have "?R m8" unfolding m8_def by (rule sw_next) (rule sw_step.wlk_acquire, simp_all add: D)
  then have r: "?R m9" unfolding m9_def by (rule sw_next) (rule sw_step.make_true, simp_all add: D)
  have l: "length (ptable (sw_k m5)) = NPROC" by (simp add: D bss_kstate_def mach.defs kstate.defs)
  have "sw_k m9 = k" "sw_cond m9" "sw_pc m9 3 = Sl4" by (simp_all add: D)
  moreover have "asleep_on ChanTicks (ptable k ! 3)"
    using l n by (simp add: k_def ptable_upd_proc_nth asleep_on_def)
  ultimately show ?thesis using no_lost_wakeup [OF r n(1)] r by (intro exI [of _ m9]) auto
qed

end
