(* ===== verification/Scheduler.thy ===== *)
theory Scheduler
  imports Proc
begin

text \<open>
  Properties of the process table operations of theory \<open>Proc\<close>: the order in which the scheduler
  of \<open>proc.c\<close> picks processes, \<open>kill\<close>, and the ticket interface (\<open>sys_settickets\<close>,
  \<open>gettickets\<close>, \<open>fillpstat\<close>).
\<close>

section \<open>Round robin\<close>

text \<open>How many slots the scan passes between position \<open>k\<close> and slot \<open>j\<close>.\<close>

definition rr_dist :: "nat \<Rightarrow> nat \<Rightarrow> nat" where
  "rr_dist k j = (if k \<le> j then j - k else NPROC - k + j)"

definition runnable :: "'a kstate_scheme \<Rightarrow> nat \<Rightarrow> bool" where
  "runnable s j \<longleftrightarrow> j < NPROC \<and> p_state (ptable s ! j) = RUNNABLE"

text \<open>The scheduler of CPU \<open>i\<close> between two processes: every process that may run has a kernel
  stack and a page table.\<close>

definition sched_ready :: "nat \<Rightarrow> 'a kstate_scheme \<Rightarrow> bool" where
  "sched_ready i s \<longleftrightarrow> i < length (cpus s) \<and> c_proc (cpus s ! i) = None \<and> c_scan (cpus s ! i) \<le> NPROC \<and>
     length (ptable s) = NPROC \<and>
     (\<forall>j. runnable s j \<longrightarrow> p_kstack (ptable s ! j) \<noteq> 0 \<and> p_pgdir (ptable s ! j) \<noteq> 0)"

text \<open>What the scheduler leaves when it has switched to the process in slot \<open>t\<close>.\<close>

definition picked :: "nat \<Rightarrow> 'a kstate_scheme \<Rightarrow> nat \<Rightarrow> 'a kstate_scheme \<Rightarrow> bool" where
  "picked i s t s' \<longleftrightarrow> runnable s t \<and> length (cpus s') = length (cpus s) \<and>
     c_proc (cpus s' ! i) = Some t \<and> c_scan (cpus s' ! i) = t \<and>
     c_cr3 (cpus s' ! i) = p_pgdir (ptable s ! t) - word_of_nat KERNBASE \<and>
     c_esp0 (cpus s' ! i) = p_kstack (ptable s ! t) + word_of_nat KSTACKSIZE \<and>
     ptable s' = (ptable s)[t := (ptable s ! t)\<lparr>p_state := RUNNING\<rparr>]"

lemma upd_cpu_simps [simp]:
  "ptable (upd_cpu i f s) = ptable s"
  "cpus (upd_cpu i f s) = (cpus s)[i := f (cpus s ! i)]"
  by (simp_all add: upd_cpu_def)

lemma cpus_upd_proc [simp]: "cpus (upd_proc i f s) = cpus s"
  by (simp add: upd_proc_def)

lemma scheduler_step_pick:
  assumes "sched_ready i s" and "runnable s (c_scan (cpus s ! i))"
  shows "\<exists>s'. scheduler_step i s = Ret s' \<and> picked i s (c_scan (cpus s ! i)) s'"
  using assms
  by (auto simp: scheduler_step_def sched_ready_def runnable_def picked_def switchuvm_def Let_def
      upd_proc_def)

lemma scheduler_step_skip:
  assumes "sched_ready i s" and "\<not> runnable s (c_scan (cpus s ! i))"
  defines "k \<equiv> c_scan (cpus s ! i)"
  shows "scheduler_step i s = Ret (upd_cpu i (\<lambda>c. c\<lparr>c_scan := if k < NPROC then Suc k else 0\<rparr>) s)"
  using assms by (auto simp: scheduler_step_def sched_ready_def runnable_def Let_def)

lemma rr_dist_step:
  "j \<noteq> k \<Longrightarrow> j < NPROC \<Longrightarrow> k \<le> NPROC \<Longrightarrow>
    rr_dist k j = rr_dist (if k < NPROC then Suc k else 0) j + (if k < NPROC then 1 else 0)"
  by (auto simp: rr_dist_def)

lemma scheduler_run_pick:
  assumes "sched_ready i s" and "runnable s j" and "c_scan (cpus s ! i) = k"
    and "rr_dist k j + (if j < k then 1 else 0) < n"
  shows "\<exists>t s'. scheduler_run n i s = Ret s' \<and> picked i s t s' \<and>
    (\<forall>j. runnable s j \<longrightarrow> rr_dist k t \<le> rr_dist k j)"
  using assms
proof (induction n arbitrary: s k)
  case 0
  then show ?case by simp
next
  case (Suc n)
  show ?case
  proof (cases "runnable s k")
    case True
    then have "rr_dist k k \<le> rr_dist k j" for j by (simp add: rr_dist_def)
    moreover obtain s' where "scheduler_step i s = Ret s'" "picked i s k s'"
      using scheduler_step_pick [OF Suc.prems(1)] True Suc.prems(3) by auto
    ultimately show ?thesis by (auto simp: picked_def)
  next
    case False
    let ?k = "if k < NPROC then Suc k else 0"
    let ?s = "upd_cpu i (\<lambda>c. c\<lparr>c_scan := ?k\<rparr>) s"
    have i: "i < length (cpus s)" "k \<le> NPROC" "c_proc (cpus s ! i) = None"
      using Suc.prems(1,3) by (auto simp: sched_ready_def)
    have same: "runnable ?s = runnable s" by (auto simp: runnable_def fun_eq_iff)
    have "sched_ready i ?s" using Suc.prems(1,3) i by (auto simp: sched_ready_def same)
    moreover have "j \<noteq> k" using Suc.prems(2) False by auto
    then have "rr_dist ?k j + (if j < ?k then 1 else 0) < n"
      using Suc.prems(2,4) False i(2) by (auto simp: rr_dist_def runnable_def split: if_splits)
    ultimately obtain t s' where t: "scheduler_run n i ?s = Ret s'" "picked i ?s t s'"
        "\<forall>j. runnable s j \<longrightarrow> rr_dist ?k t \<le> rr_dist ?k j"
      using Suc.IH [of ?s ?k] Suc.prems(2) i(1) same by auto
    have "scheduler_run (Suc n) i s = Ret s'"
      using t(1) scheduler_step_skip [OF Suc.prems(1)] False Suc.prems(3) i by (cases "k < NPROC") auto
    moreover have "picked i s t s'" using t(2) same by (simp add: picked_def)
    moreover have "rr_dist k t \<le> rr_dist k j" if "runnable s j" for j
    proof -
      have "j \<noteq> k" "t \<noteq> k" "j < NPROC" "t < NPROC"
        using that False \<open>picked i s t s'\<close> by (auto simp: picked_def runnable_def)
      then show ?thesis using t(3) that rr_dist_step i(2) by simp
    qed
    ultimately show ?thesis by blast
  qed
qed

text \<open>C13. From any position of its scan, the scheduler runs a process whenever one is runnable: within
  \<open>NPROC + 1\<close> iterations of its loop it switches to the first runnable process in cyclic order
  from that position, makes it \<open>RUNNING\<close>, touches no other process, and installs its page table
  and kernel stack on the CPU.\<close>

theorem scheduler_picks_next:
  assumes "sched_ready i s" and "runnable s j"
  shows "\<exists>t s'. scheduler_run (NPROC + 1) i s = Ret s' \<and> picked i s t s' \<and>
    (\<forall>j. runnable s j \<longrightarrow> rr_dist (c_scan (cpus s ! i)) t \<le> rr_dist (c_scan (cpus s ! i)) j)"
proof (rule scheduler_run_pick [OF assms refl])
  show "rr_dist (c_scan (cpus s ! i)) j + (if j < c_scan (cpus s ! i) then 1 else 0) < NPROC + 1"
    using assms by (auto simp: rr_dist_def runnable_def sched_ready_def)
qed

text \<open>Two processes, in slots 3 and 7, are ready to run; CPU 0 has just run the one in slot 3.\<close>

definition two_runnable :: kstate where
  "two_runnable = bss_kstate\<lparr>
     cpus := [\<lparr>c_apicid = 4, c_ncli = 1, c_intena = True, c_proc = None, c_esp0 = 0, c_cr3 = 0, c_scan = 4\<rparr>],
     ptable := (replicate NPROC zero_proc)
       [3 := zero_proc\<lparr>p_state := RUNNABLE, p_kstack := 0x8dfff000, p_pgdir := 0x8dffe000\<rparr>,
        7 := zero_proc\<lparr>p_state := RUNNABLE, p_kstack := 0x8dffd000, p_pgdir := 0x8dffc000\<rparr>]\<rparr>"

lemma two_runnable_ready: "sched_ready 0 two_runnable" and two_runnable_3: "runnable two_runnable 3"
  and two_runnable_7: "runnable two_runnable 7"
  by (auto simp: sched_ready_def two_runnable_def runnable_def nth_list_update zero_proc_def NPROC_def)

theorem scheduler_picks_next_witness:
  "\<exists>t s'. scheduler_run (NPROC + 1) 0 two_runnable = Ret s' \<and> picked 0 two_runnable t s' \<and>
    rr_dist 4 t \<le> rr_dist 4 7"
  using scheduler_picks_next [OF two_runnable_ready two_runnable_7] two_runnable_7
  by (auto simp: two_runnable_def)

text \<open>The turns of the scheduler of CPU \<open>i\<close> while the process in slot \<open>j\<close> stays runnable:
  in each turn it picks another process, which runs for a while (other CPUs run too) and switches
  back; \<open>n\<close> counts the turns.\<close>

inductive bypassed :: "nat \<Rightarrow> nat \<Rightarrow> nat \<Rightarrow> kstate \<Rightarrow> kstate \<Rightarrow> bool" for i j where
  bypass_0: "bypassed i j 0 s s"
| bypass_Suc: "bypassed i j n s t \<Longrightarrow> scheduler_run (NPROC + 1) i t = Ret u \<Longrightarrow>
    c_proc (cpus u ! i) \<noteq> Some j \<Longrightarrow> cpus v ! i = cpus u ! i \<Longrightarrow> length (cpus v) = length (cpus u) \<Longrightarrow>
    sched_ready i (scheduler_resume i kpgdir v) \<Longrightarrow> runnable v j \<Longrightarrow>
    bypassed i j (Suc n) s (scheduler_resume i kpgdir v)"

lemma bypassed_dist:
  assumes "bypassed i j n s t" and "sched_ready i s" and "runnable s j"
  shows "sched_ready i t \<and> runnable t j \<and>
    rr_dist (c_scan (cpus t ! i)) j + n \<le> rr_dist (c_scan (cpus s ! i)) j"
  using assms
proof (induction rule: bypassed.induct)
  case (bypass_0 s)
  then show ?case by simp
next
  case (bypass_Suc n s t u v kpgdir)
  then have t: "sched_ready i t" "runnable t j"
      "rr_dist (c_scan (cpus t ! i)) j + n \<le> rr_dist (c_scan (cpus s ! i)) j" by auto
  obtain k where k: "picked i t k u"
      "rr_dist (c_scan (cpus t ! i)) k \<le> rr_dist (c_scan (cpus t ! i)) j"
  proof -
    have "rr_dist (c_scan (cpus t ! i)) j + (if j < c_scan (cpus t ! i) then 1 else 0) < NPROC + 1"
      using t(1,2) by (auto simp: rr_dist_def runnable_def sched_ready_def)
    from scheduler_run_pick [OF t(1,2) refl this] bypass_Suc.hyps(2) t(2) that show ?thesis by auto
  qed
  let ?w = "scheduler_resume i kpgdir v"
  have w: "c_scan (cpus ?w ! i) = Suc k" "ptable ?w = ptable v"
    using bypass_Suc.hyps(4,5) k(1) t(1)
    by (auto simp: scheduler_resume_def switchkvm_def picked_def sched_ready_def)
  have "k \<noteq> j" "k < NPROC" using bypass_Suc.hyps(3) k(1) by (auto simp: picked_def runnable_def)
  then have "rr_dist (Suc k) j + Suc n \<le> rr_dist (c_scan (cpus s ! i)) j"
    using k(2) t unfolding rr_dist_def runnable_def sched_ready_def by (auto split: if_splits)
  then show ?case using bypass_Suc.hyps(6,7) w by (simp add: runnable_def)
qed

text \<open>C12. The scheduler starves no process: a process that stays runnable is passed over in favour of
  others fewer than \<open>NPROC\<close> times before it is switched to, whatever the processes that run in between
  do.\<close>

theorem scheduler_bounded_bypass:
  assumes "bypassed i j n s t" and "sched_ready i s" and "runnable s j"
  shows "n < NPROC"
proof -
  have "rr_dist (c_scan (cpus s ! i)) j < NPROC"
    using assms(2,3) by (auto simp: rr_dist_def runnable_def sched_ready_def)
  with bypassed_dist [OF assms] show ?thesis by linarith
qed

lemma two_runnable_iff: "runnable two_runnable j \<longleftrightarrow> j = 3 \<or> j = 7"
  by (auto simp: two_runnable_def runnable_def nth_list_update zero_proc_def NPROC_def)

lemma two_runnable_bypass: "\<exists>t. bypassed 0 3 1 two_runnable t"
proof -
  obtain u t where u: "scheduler_run (NPROC + 1) 0 two_runnable = Ret u" "picked 0 two_runnable t u"
      "rr_dist 4 t \<le> rr_dist 4 7"
    using scheduler_run_pick [OF two_runnable_ready two_runnable_7, of 4 "NPROC + 1"]
      two_runnable_7 by (fastforce simp: two_runnable_def rr_dist_def NPROC_def)
  then have t: "t = 7" by (auto simp: picked_def two_runnable_iff rr_dist_def NPROC_def)
  define v where "v = yield_enter 7 u"
  have c: "length (cpus u) = 1" "c_proc (cpus u ! 0) = Some 7" "c_scan (cpus u ! 0) = 7"
    using u(2) t by (auto simp: picked_def two_runnable_def)
  have len: "length (ptable two_runnable) = NPROC" by (simp add: two_runnable_def)
  have v: "ptable v = ptable two_runnable" "cpus v = cpus u"
    using u(2) t two_runnable_7 len
    by (auto simp: v_def yield_enter_def upd_proc_def picked_def runnable_def)
      (metis proc.surjective proc.update_convs(4) list_update_id)
  then have rv: "runnable v = runnable two_runnable" by (simp add: runnable_def fun_eq_iff)
  have "ptable (scheduler_resume 0 0 v) = ptable v"
    by (simp add: scheduler_resume_def switchkvm_def)
  then have "sched_ready 0 (scheduler_resume 0 0 v)"
    using two_runnable_ready c v rv
    by (auto simp: sched_ready_def scheduler_resume_def switchkvm_def NPROC_def runnable_def)
  then have "bypassed 0 3 (Suc 0) two_runnable (scheduler_resume 0 0 v)"
    using bypassed.bypass_0 u(1) c v rv two_runnable_3
    by (intro bypassed.bypass_Suc [of 0 3 0 two_runnable two_runnable u v]) auto
  then show ?thesis by auto
qed

theorem scheduler_bounded_bypass_witness:
  "\<exists>t. bypassed 0 3 1 two_runnable t \<and> runnable two_runnable 3 \<and> 1 < NPROC"
proof -
  obtain t where t: "bypassed 0 3 1 two_runnable t" using two_runnable_bypass by blast
  from scheduler_bounded_bypass [OF t two_runnable_ready two_runnable_3] t two_runnable_3
  show ?thesis by blast
qed

section \<open>Kill\<close>

text \<open>C19. \<open>kill\<close> marks exactly the first process with the given pid, waking it if it sleeps so that it
  notices, and touches no other; it fails and changes nothing when no slot carries the pid. A pid is matched
  even in an unused slot.\<close>

theorem kill_correct:
  "case kill pid s of (r, s') \<Rightarrow>
     (r = 0 \<or> r = - 1) \<and>
     (r = - 1 \<longleftrightarrow> pid \<notin> p_pid ` set (ptable s)) \<and> (r = - 1 \<longrightarrow> s' = s) \<and>
     (r = 0 \<longrightarrow> (\<exists>i < length (ptable s). p_pid (ptable s ! i) = pid \<and>
        (\<forall>j < i. p_pid (ptable s ! j) \<noteq> pid) \<and>
        ptable s' = (ptable s)[i := (ptable s ! i)\<lparr>p_killed := True,
          p_state := (if p_state (ptable s ! i) = SLEEPING then RUNNABLE else p_state (ptable s ! i))\<rparr>]))"
proof (cases "find_idx (\<lambda>p. p_pid p = pid) (ptable s)")
  case None
  then show ?thesis by (simp add: kill_def) (auto simp: find_idx_None_iff)
next
  case (Some i)
  note f = find_idx_SomeD [OF Some]
  then have "pid \<in> p_pid ` set (ptable s)" using nth_mem by blast
  moreover have "ptable (snd (kill pid s)) = (ptable s)[i := (ptable s ! i)\<lparr>p_killed := True,
      p_state := (if p_state (ptable s ! i) = SLEEPING then RUNNABLE else p_state (ptable s ! i))\<rparr>]"
    using Some by (simp add: kill_def upd_proc_def Let_def)
  ultimately show ?thesis using Some f by (auto simp: kill_def)
qed

theorem kill_correct_witness:
  "\<exists>s'. kill 0 bss_kstate = (0, s') \<and> (\<exists>i < NPROC. p_killed (ptable s' ! i) \<and> p_pid (ptable s' ! i) = 0)"
proof -
  have pid: "p_pid zero_proc = 0" by (simp add: zero_proc_def)
  have all: "ptable bss_kstate = replicate NPROC zero_proc"
    by (simp add: bss_kstate_def mach.defs kstate.defs)
  have mem: "0 \<in> p_pid ` set (ptable bss_kstate)" by (simp add: all pid NPROC_def)
  obtain r s' where r: "kill 0 bss_kstate = (r, s')" by fastforce
  from kill_correct [of 0 bss_kstate] r mem have "r = 0"
    and "\<exists>i < NPROC. ptable s' = (ptable bss_kstate)[i := (ptable bss_kstate ! i)\<lparr>p_killed := True,
          p_state := (if p_state (ptable bss_kstate ! i) = SLEEPING then RUNNABLE
            else p_state (ptable bss_kstate ! i))\<rparr>]"
    unfolding all by auto
  then obtain i where i: "i < NPROC" "ptable s' ! i = zero_proc\<lparr>p_killed := True,
      p_state := (if p_state zero_proc = SLEEPING then RUNNABLE else p_state zero_proc)\<rparr>"
    unfolding all by force
  then have "p_killed (ptable s' ! i) \<and> p_pid (ptable s' ! i) = 0" using pid by simp
  with r \<open>r = 0\<close> i(1) show ?thesis by blast
qed

section \<open>Tickets\<close>

text \<open>C20. \<open>settickets\<close> refuses fewer than ten tickets and changes nothing then; otherwise, for a process with
  a pid of its own, what it sets is what \<open>gettickets\<close> and the process listing report, and the
  listing of every other process is as before.\<close>

theorem settickets_correct:
  assumes "cur s = Some i" and "i < length (ptable s)" and "p_state (ptable s ! i) \<noteq> UNUSED"
    and "\<forall>j < length (ptable s). p_pid (ptable s ! j) = p_pid (ptable s ! i) \<longrightarrow> j = i"
  shows "case settickets n s of (r, s') \<Rightarrow>
    if n < 10 then r = - 1 \<and> s' = s
    else r = 0 \<and> gettickets (p_pid (ptable s ! i)) s' = n \<and>
      fillpstat s' = (fillpstat s)[i := (fillpstat s ! i)\<lparr>ps_tickets := n\<rparr>]"
proof -
  let ?s = "upd_proc i (\<lambda>p. p\<lparr>p_tickets := n\<rparr>) s"
  have "find_idx (\<lambda>p. p_pid p = p_pid (ptable s ! i) \<and> p_state p \<noteq> UNUSED) (ptable ?s) = Some i"
    using assms(2-4) by (auto simp: find_idx_Some_iff ptable_upd_proc_nth dest: less_trans)
  then have "gettickets (p_pid (ptable s ! i)) ?s = n"
    using assms(2) by (simp add: gettickets_def ptable_upd_proc_nth)
  moreover have "fillpstat ?s = (fillpstat s)[i := (fillpstat s ! i)\<lparr>ps_tickets := n\<rparr>]"
    using assms(2) by (simp add: fillpstat_def upd_proc_def map_update fillpstat_entry_def)
  ultimately show ?thesis using assms(1) by (simp add: settickets_def)
qed

theorem settickets_correct_witness:
  "case settickets 25 (two_runnable\<lparr>cpus := [(cpus two_runnable ! 0)\<lparr>c_proc := Some 3\<rparr>],
       ptable := (ptable two_runnable)[3 := (ptable two_runnable ! 3)\<lparr>p_pid := 2\<rparr>]\<rparr>) of
     (r, s') \<Rightarrow> r = 0 \<and> gettickets 2 s' = 25"
proof -
  define s where "s = two_runnable\<lparr>cpus := [(cpus two_runnable ! 0)\<lparr>c_proc := Some 3\<rparr>],
       ptable := (ptable two_runnable)[3 := (ptable two_runnable ! 3)\<lparr>p_pid := 2\<rparr>]\<rparr>"
  have cur: "cur s = Some 3"
    by (simp add: s_def cur_def two_runnable_def bss_kstate_def mach.defs kstate.defs up_mach_def)
  have i: "3 < length (ptable s)" "p_state (ptable s ! 3) \<noteq> UNUSED" and pid: "p_pid (ptable s ! 3) = 2"
    and u: "\<forall>j < length (ptable s). p_pid (ptable s ! j) = p_pid (ptable s ! 3) \<longrightarrow> j = 3"
    by (auto simp: s_def two_runnable_def nth_list_update zero_proc_def NPROC_def)
  show ?thesis
    using settickets_correct [OF cur i u, of 25] unfolding pid s_def [symmetric]
    by (simp split: prod.splits)
qed

end
