(* ===== verification/Kalloc.thy ===== *)
theory Kalloc
  imports Proc
begin

text \<open>
  The physical page allocator \<open>kalloc.c\<close>. \<open>kmem_state\<close> adds the kernel's memory
  (by kernel virtual address), the head of the free list and the linker symbol \<open>end\<close>.
  The free list is threaded through the free pages themselves: the first word of a
  free page is the address of the next one (\<open>struct run\<close>).
\<close>

section \<open>State and operations\<close>

record kmem_state = kstate +
  kmem_mem :: mem
  freelist :: uint
  use_lock :: bool
  kernel_end :: uint

definition kfree :: "uint \<Rightarrow> 'a kmem_state_scheme \<Rightarrow> 'a kmem_state_scheme res" where
  "kfree v s =
     (if unat v mod PGSIZE \<noteq> 0 \<or> v < kernel_end s \<or> PHYSTOP \<le> unat (v - word_of_nat KERNBASE)
      then Panic ''kfree''
      else (let m = memset (kmem_mem s) v 1 (word_of_nat PGSIZE)
            in Ret (s\<lparr>kmem_mem := store32 m v (freelist s), freelist := v\<rparr>)))"

definition kalloc :: "'a kmem_state_scheme \<Rightarrow> uint \<times> 'a kmem_state_scheme" where
  "kalloc s =
     (let r = freelist s
      in (r, if r \<noteq> 0 then s\<lparr>freelist := load32 (kmem_mem s) r\<rparr> else s))"

text \<open>The loop of \<open>freerange\<close>. Stepping a pointer past the end of the address space is
  undefined.\<close>

function freerange_loop :: "uint \<Rightarrow> uint \<Rightarrow> 'a kmem_state_scheme \<Rightarrow> 'a kmem_state_scheme res" where
  "freerange_loop p vend s =
     (if \<not> unat p + PGSIZE < 2 ^ 32 then Undef
      else if p + word_of_nat PGSIZE \<le> vend
      then bnd (kfree p s) (freerange_loop (p + word_of_nat PGSIZE) vend)
      else Ret s)"
  by pat_completeness auto
termination
  by (relation "measure (\<lambda>(p, _). 2 ^ 32 - unat p)") (auto simp: PGSIZE_def unat_add_small)

definition freerange :: "uint \<Rightarrow> uint \<Rightarrow> 'a kmem_state_scheme \<Rightarrow> 'a kmem_state_scheme res" where
  "freerange vstart vend s = freerange_loop (PGROUNDUP vstart) vend s"

definition kinit1 :: "uint \<Rightarrow> uint \<Rightarrow> 'a kmem_state_scheme \<Rightarrow> 'a kmem_state_scheme res" where
  "kinit1 vstart vend s = freerange vstart vend (s\<lparr>use_lock := False\<rparr>)"

definition kinit2 :: "uint \<Rightarrow> uint \<Rightarrow> 'a kmem_state_scheme \<Rightarrow> 'a kmem_state_scheme res" where
  "kinit2 vstart vend s = bnd (freerange vstart vend s) (\<lambda>s. Ret (s\<lparr>use_lock := True\<rparr>))"

section \<open>The interface\<close>

text \<open>What the rest of the kernel relies on: an allocator owns a finite set of free pages;
  \<open>alloc\<close> takes one out of it or fails when it is empty, \<open>free\<close> puts a usable page back.\<close>

locale page_allocator =
  fixes alloc :: "'s \<Rightarrow> uint \<times> 's"
    and free :: "uint \<Rightarrow> 's \<Rightarrow> 's res"
    and inv :: "'s \<Rightarrow> bool"
    and free_pages :: "'s \<Rightarrow> uint set"
    and usable :: "'s \<Rightarrow> uint \<Rightarrow> bool"
  assumes alloc_inv: "inv s \<Longrightarrow> inv (snd (alloc s))"
    and alloc_empty: "inv s \<Longrightarrow> fst (alloc s) = 0 \<longleftrightarrow> free_pages s = {}"
    and alloc_page: "inv s \<Longrightarrow> fst (alloc s) \<noteq> 0 \<Longrightarrow>
      fst (alloc s) \<in> free_pages s \<and> free_pages (snd (alloc s)) = free_pages s - {fst (alloc s)}"
    and alloc_usable: "usable (snd (alloc s)) v \<longleftrightarrow> usable s v"
    and free_page: "inv s \<Longrightarrow> usable s v \<Longrightarrow> v \<notin> free_pages s \<Longrightarrow>
      \<exists>s'. free v s = Ret s' \<and> inv s' \<and> free_pages s' = insert v (free_pages s)"
    and free_reject: "\<not> usable s v \<Longrightarrow> \<exists>e. free v s = Panic e"
    and free_usable: "inv s \<Longrightarrow> v \<in> free_pages s \<Longrightarrow> usable s v \<and> v \<noteq> 0"
begin

primrec alloc_many :: "nat \<Rightarrow> 's \<Rightarrow> uint list \<times> 's" where
  "alloc_many 0 s = ([], s)"
| "alloc_many (Suc n) s =
     (let (r, s1) = alloc s; (rs, s2) = alloc_many n s1 in (r # rs, s2))"

lemma alloc_many_pages:
  assumes "inv s" and "finite (free_pages s)" and "n \<le> card (free_pages s)"
  shows "distinct (fst (alloc_many n s)) \<and> set (fst (alloc_many n s)) \<subseteq> free_pages s \<and>
    free_pages (snd (alloc_many n s)) = free_pages s - set (fst (alloc_many n s)) \<and>
    inv (snd (alloc_many n s)) \<and> 0 \<notin> set (fst (alloc_many n s))"
  using assms
proof (induction n arbitrary: s)
  case 0
  then show ?case by simp
next
  case (Suc n)
  obtain r s1 where r: "alloc s = (r, s1)" by fastforce
  have "free_pages s \<noteq> {}" using Suc.prems by auto
  then have r0: "r \<noteq> 0" using alloc_empty [OF Suc.prems(1)] r by simp
  then have pages: "r \<in> free_pages s" "free_pages s1 = free_pages s - {r}"
    using alloc_page [OF Suc.prems(1)] r by simp_all
  have "inv s1" using alloc_inv [OF Suc.prems(1)] r by simp
  moreover have "finite (free_pages s1)" "n \<le> card (free_pages s1)"
    using Suc.prems pages by simp_all
  ultimately have IH: "distinct (fst (alloc_many n s1)) \<and> set (fst (alloc_many n s1)) \<subseteq> free_pages s1 \<and>
      free_pages (snd (alloc_many n s1)) = free_pages s1 - set (fst (alloc_many n s1)) \<and>
      inv (snd (alloc_many n s1)) \<and> 0 \<notin> set (fst (alloc_many n s1))"
    by (rule Suc.IH)
  obtain rs s2 where rs: "alloc_many n s1 = (rs, s2)" by fastforce
  show ?case using IH pages r0 by (auto simp: r rs)
qed

lemma free_after_alloc:
  assumes "inv s" and "fst (alloc s) \<noteq> 0"
  shows "\<exists>s'. free (fst (alloc s)) (snd (alloc s)) = Ret s' \<and> inv s' \<and> free_pages s' = free_pages s"
proof -
  have "usable (snd (alloc s)) (fst (alloc s))"
    using alloc_usable free_usable [OF assms(1)] alloc_page [OF assms] by simp
  then show ?thesis
    using free_page [OF alloc_inv [OF assms(1)], of "fst (alloc s)"] alloc_page [OF assms]
    by auto
qed

end

section \<open>The free list\<close>

primrec run_list :: "mem \<Rightarrow> uint \<Rightarrow> uint list \<Rightarrow> bool" where
  "run_list m r [] \<longleftrightarrow> r = 0"
| "run_list m r (x # xs) \<longleftrightarrow> r = x \<and> x \<noteq> 0 \<and> run_list m (load32 m x) xs"

definition usable_page :: "'a kmem_state_scheme \<Rightarrow> uint \<Rightarrow> bool" where
  "usable_page s v \<longleftrightarrow> unat v mod PGSIZE = 0 \<and> kernel_end s \<le> v \<and>
     unat (v - word_of_nat KERNBASE) < PHYSTOP"

definition kmem_inv :: "'a kmem_state_scheme \<Rightarrow> bool" where
  "kmem_inv s \<longleftrightarrow> kernel_end s \<noteq> 0 \<and> (\<exists>xs. run_list (kmem_mem s) (freelist s) xs \<and> distinct xs \<and>
     (\<forall>x \<in> set xs. usable_page s x))"

definition free_pages :: "'a kmem_state_scheme \<Rightarrow> uint set" where
  "free_pages s = {v. \<exists>xs. run_list (kmem_mem s) (freelist s) xs \<and> v \<in> set xs}"

lemma run_list_unique: "run_list m r xs \<Longrightarrow> run_list m r ys \<Longrightarrow> xs = ys"
proof (induction xs arbitrary: r ys)
  case Nil
  then show ?case by (cases ys) auto
next
  case (Cons x xs)
  then show ?case by (cases ys) auto
qed

lemma free_pages_eq: "run_list (kmem_mem s) (freelist s) xs \<Longrightarrow> free_pages s = set xs"
  using run_list_unique unfolding free_pages_def by blast

lemma run_list_cong:
  assumes "\<And>x. x \<in> set xs \<Longrightarrow> load32 m x = load32 m' x"
  shows "run_list m r xs = run_list m' r xs"
  using assms by (induction xs arbitrary: r) auto

lemma usable_page_aligned: "usable_page s v \<Longrightarrow> aligned 4096 v"
  by (simp add: usable_page_def aligned_def PGSIZE_def)

lemma usable_page_nonzero: "kernel_end s \<noteq> 0 \<Longrightarrow> usable_page s v \<Longrightarrow> v \<noteq> 0"
  by (auto simp: usable_page_def)

lemma kfree_pages:
  assumes "kmem_inv s" and "usable_page s v" and "v \<notin> free_pages s"
  shows "\<exists>s'. kfree v s = Ret s' \<and> kmem_inv s' \<and> free_pages s' = insert v (free_pages s)"
proof -
  obtain xs where xs: "run_list (kmem_mem s) (freelist s) xs" "distinct xs"
      "\<forall>x \<in> set xs. usable_page s x" and e: "kernel_end s \<noteq> 0"
    using assms(1) by (auto simp: kmem_inv_def)
  have v: "v \<notin> set xs" using assms(3) free_pages_eq [OF xs(1)] by simp
  let ?m = "store32 (memset (kmem_mem s) v 1 4096) v (freelist s)"
  have "load32 (kmem_mem s) x = load32 ?m x" if "x \<in> set xs" for x
  proof -
    have "aligned 4096 v" "aligned 4096 x" "v \<noteq> x"
      using assms(2) xs(3) that v by (auto intro: usable_page_aligned)
    then show ?thesis
      by (auto simp: load32_store32_page memset_page_other intro!: load32_cong)
  qed
  then have l: "run_list ?m v (v # xs)"
    using xs(1) run_list_cong [of xs "kmem_mem s" ?m] usable_page_nonzero [OF e assms(2)] by simp
  let ?s = "s\<lparr>kmem_mem := ?m, freelist := v\<rparr>"
  have "kfree v s = Ret ?s"
    using assms(2) by (auto simp: kfree_def usable_page_def PGSIZE_def Let_def)
  moreover have "kmem_inv ?s"
    using l e v xs(2,3) assms(2) unfolding kmem_inv_def
    by (intro conjI exI [of _ "v # xs"]) (auto simp: usable_page_def)
  moreover have "free_pages ?s = insert v (free_pages s)"
    using free_pages_eq [of ?s "v # xs"] l free_pages_eq [OF xs(1)] by simp
  ultimately show ?thesis by blast
qed

lemma kalloc_cases:
  assumes "kmem_inv s"
  obtains (empty) "kalloc s = (0, s)" "free_pages s = {}"
  | (page) s' where "kalloc s = (freelist s, s')" "freelist s \<noteq> 0" "kmem_inv s'"
      "freelist s \<in> free_pages s" "free_pages s' = free_pages s - {freelist s}"
proof -
  obtain xs where xs: "run_list (kmem_mem s) (freelist s) xs" "distinct xs"
      "\<forall>x \<in> set xs. usable_page s x" and e: "kernel_end s \<noteq> 0"
    using assms by (auto simp: kmem_inv_def)
  show ?thesis
  proof (cases xs)
    case Nil
    with xs(1) free_pages_eq [OF xs(1)] show ?thesis by (intro empty) (simp_all add: kalloc_def)
  next
    case (Cons x ys)
    let ?s = "s\<lparr>freelist := load32 (kmem_mem s) x\<rparr>"
    have r: "run_list (kmem_mem ?s) (freelist ?s) ys" using xs(1) Cons by simp
    have "kmem_inv ?s"
      using r xs(2,3) e Cons unfolding kmem_inv_def
      by (intro conjI exI [of _ ys]) (auto simp: usable_page_def)
    then show ?thesis
      using xs(1,2) Cons free_pages_eq [OF r] free_pages_eq [OF xs(1)]
      by (intro page [of ?s]) (auto simp: kalloc_def Let_def)
  qed
qed

interpretation kmem: page_allocator kalloc kfree kmem_inv free_pages usable_page
proof unfold_locales
  fix s :: "'a kmem_state_scheme" and v
  show "usable_page (snd (kalloc s)) v \<longleftrightarrow> usable_page s v"
    by (simp add: usable_page_def kalloc_def Let_def)
  show "\<exists>e. kfree v s = Panic e" if "\<not> usable_page s v"
    using that by (auto simp: kfree_def usable_page_def not_less not_le)
  assume inv: "kmem_inv s"
  show "kmem_inv (snd (kalloc s))"
    by (rule kalloc_cases [OF inv]) (use inv in auto)
  show "(fst (kalloc s) = 0) = (free_pages s = {})"
    by (rule kalloc_cases [OF inv]) auto
  show "fst (kalloc s) \<in> free_pages s \<and> free_pages (snd (kalloc s)) = free_pages s - {fst (kalloc s)}"
    if "fst (kalloc s) \<noteq> 0"
    by (rule kalloc_cases [OF inv]) (use that in auto)
  show "\<exists>s'. kfree v s = Ret s' \<and> kmem_inv s' \<and> free_pages s' = insert v (free_pages s)"
    if "usable_page s v" and "v \<notin> free_pages s"
    using kfree_pages [OF inv that] .
  show "usable_page s v \<and> v \<noteq> 0" if "v \<in> free_pages s"
    using inv that usable_page_nonzero free_pages_eq unfolding kmem_inv_def by blast
qed

section \<open>Boot\<close>

declare freerange_loop.simps [simp del]

text \<open>The pages that start at or after \<open>p\<close> and end by \<open>vend\<close>.\<close>

definition pages_in :: "uint \<Rightarrow> uint \<Rightarrow> uint set" where
  "pages_in p vend = {v. unat v mod PGSIZE = 0 \<and> unat p \<le> unat v \<and> unat v + PGSIZE \<le> unat vend}"

lemma pages_in_step:
  assumes "unat p mod PGSIZE = 0" and "unat p + PGSIZE \<le> unat vend"
    and "unat p' = unat p + PGSIZE"
  shows "pages_in p vend = insert p (pages_in p' vend)"
proof -
  have "unat v = unat p \<or> unat p + PGSIZE \<le> unat v" if al: "unat v mod PGSIZE = 0" and ge: "unat p \<le> unat v" for v :: uint
  proof -
    obtain a b where "unat p = PGSIZE * a" "unat v = PGSIZE * b"
      using assms(1) al mod_0_exists by blast
    moreover have "0 < PGSIZE" by (simp add: PGSIZE_def)
    ultimately have "a \<le> b" using ge by simp
    then have "a = b \<or> Suc a \<le> b" by linarith
    then show ?thesis
    proof
      assume "Suc a \<le> b"
      then have "PGSIZE * Suc a \<le> PGSIZE * b" by (rule mult_le_mono2)
      with \<open>unat p = PGSIZE * a\<close> \<open>unat v = PGSIZE * b\<close> show ?thesis by simp
    qed (use \<open>unat p = PGSIZE * a\<close> \<open>unat v = PGSIZE * b\<close> in simp)
  qed
  note step = this [unfolded mod_eq_0_iff_dvd]
  show ?thesis
    using assms by (auto simp: pages_in_def word_unat_eq_iff mod_eq_0_iff_dvd) (use step in blast)
qed

lemma freerange_loop_pages:
  assumes "kmem_inv s" and "unat p mod PGSIZE = 0" and "unat p + PGSIZE < 2 ^ 32"
    and "unat vend + PGSIZE < 2 ^ 32"
    and "\<forall>v \<in> pages_in p vend. usable_page s v \<and> v \<notin> free_pages s"
  shows "\<exists>s'. freerange_loop p vend s = Ret s' \<and> kmem_inv s' \<and>
    free_pages s' = free_pages s \<union> pages_in p vend"
  using assms
proof (induction p vend s rule: freerange_loop.induct)
  case (1 p vend s)
  have pos: "0 < PGSIZE" by (simp add: PGSIZE_def)
  have next_p: "unat (p + word_of_nat PGSIZE) = unat p + PGSIZE"
    using "1.prems"(3) by (simp add: unat_add_of_nat)
  show ?case
  proof (cases "p + word_of_nat PGSIZE \<le> vend")
    case True
    then have le: "unat p + PGSIZE \<le> unat vend" using next_p by (simp add: word_le_nat_alt)
    note pages = pages_in_step [OF "1.prems"(2) le next_p]
    have "usable_page s p" "p \<notin> free_pages s" using "1.prems"(5) pages by auto
    then obtain s1 where s1: "kfree p s = Ret s1" "kmem_inv s1" "free_pages s1 = insert p (free_pages s)"
      using kfree_pages [OF "1.prems"(1)] by blast
    have "usable_page s1 v = usable_page s v" for v
      using s1(1) by (auto simp: kfree_def usable_page_def Let_def split: if_splits)
    moreover have "p \<notin> pages_in (p + word_of_nat PGSIZE) vend"
      using next_p pos by (simp add: pages_in_def)
    ultimately have "\<forall>v \<in> pages_in (p + word_of_nat PGSIZE) vend. usable_page s1 v \<and> v \<notin> free_pages s1"
      using "1.prems"(5) pages s1(3) by auto
    moreover have "unat (p + word_of_nat PGSIZE) mod PGSIZE = 0"
      "unat (p + word_of_nat PGSIZE) + PGSIZE < 2 ^ 32"
      using "1.prems"(2,4) next_p le by simp_all
    ultimately obtain s' where "freerange_loop (p + word_of_nat PGSIZE) vend s1 = Ret s'" "kmem_inv s'"
        "free_pages s' = free_pages s1 \<union> pages_in (p + word_of_nat PGSIZE) vend"
      using "1.IH" [of s1] True s1(1,2) "1.prems"(3,4) by auto
    then show ?thesis
      using True s1 pages "1.prems"(3) by (subst freerange_loop.simps) auto
  next
    case False
    then have "pages_in p vend = {}" using next_p by (auto simp: pages_in_def word_le_nat_alt)
    with False "1.prems"(1,3) show ?thesis by (subst freerange_loop.simps) auto
  qed
qed

lemma pages_in_usable:
  assumes "kernel_end s \<le> vstart" and "KERNBASE \<le> unat vstart" and "unat vend \<le> KERNBASE + PHYSTOP"
    and "v \<in> pages_in vstart vend"
  shows "usable_page s v"
proof -
  have v: "unat v mod PGSIZE = 0" "unat vstart \<le> unat v" "unat v + PGSIZE \<le> unat vend"
    using assms(4) by (auto simp: pages_in_def)
  have "unat (word_of_nat KERNBASE :: uint) = KERNBASE" by (simp add: KERNBASE_def)
  then have "unat (v - word_of_nat KERNBASE) = unat v - KERNBASE"
    using assms(2) v(2) by (simp add: unat_sub word_le_nat_alt)
  then show ?thesis
    using assms(1,2,3) v by (auto simp: usable_page_def word_le_nat_alt PGSIZE_def)
qed

lemma freerange_pages:
  assumes "kmem_inv s" and "kernel_end s \<le> vstart" and "KERNBASE \<le> unat vstart"
    and "unat vstart \<le> KERNBASE + PHYSTOP" and "unat vend \<le> KERNBASE + PHYSTOP"
    and "free_pages s \<inter> pages_in vstart vend = {}"
  shows "\<exists>s'. freerange vstart vend s = Ret s' \<and> kmem_inv s' \<and>
    free_pages s' = free_pages s \<union> pages_in vstart vend"
proof -
  have up: "unat (PGROUNDUP vstart) = 4096 * ((unat vstart + 4095) div 4096)"
    using assms(4) by (intro unat_PGROUNDUP) (simp add: PHYSTOP_def KERNBASE_def)
  have "4096 * ((x + 4095) div 4096) \<le> y \<longleftrightarrow> x \<le> y" if al: "y mod 4096 = 0" for x y :: nat
  proof -
    obtain k where "y = 4096 * k" using al mod_0_exists by blast
    then show ?thesis using div_le_mono [of "x + 4095" "4096 * k + 4095" 4096] by auto
  qed
  then have pages: "pages_in (PGROUNDUP vstart) vend = pages_in vstart vend"
    unfolding pages_in_def up by (auto simp: PGSIZE_def)
  have "unat (PGROUNDUP vstart) mod PGSIZE = 0" using up by (simp add: PGSIZE_def)
  moreover have "unat (PGROUNDUP vstart) + PGSIZE < 2 ^ 32" "unat vend + PGSIZE < 2 ^ 32"
    using up assms(4,5) by (simp_all add: PGSIZE_def PHYSTOP_def KERNBASE_def)
  ultimately show ?thesis
    using freerange_loop_pages [OF assms(1), of "PGROUNDUP vstart" vend] pages assms(6)
      pages_in_usable [OF assms(2,3,5)] by (auto simp: freerange_def)
qed

text \<open>C10. At boot, \<open>kinit1\<close> and \<open>kinit2\<close> put on the free list exactly the whole pages between
  their two arguments, for any range between the end of the kernel and the top of physical memory none of
  whose pages is free already; they never panic there.\<close>

theorem kinit_pages:
  assumes "kmem_inv s" and "kernel_end s \<le> vstart" and "KERNBASE \<le> unat vstart"
    and "unat vstart \<le> KERNBASE + PHYSTOP" and "unat vend \<le> KERNBASE + PHYSTOP"
    and "free_pages s \<inter> pages_in vstart vend = {}"
  shows "(\<exists>s'. kinit1 vstart vend s = Ret s' \<and> kmem_inv s' \<and>
      free_pages s' = free_pages s \<union> pages_in vstart vend) \<and>
    (\<exists>s'. kinit2 vstart vend s = Ret s' \<and> kmem_inv s' \<and>
      free_pages s' = free_pages s \<union> pages_in vstart vend)"
proof -
  have "\<exists>s'. freerange vstart vend (s\<lparr>use_lock := b\<rparr>) = Ret s' \<and> kmem_inv s' \<and>
      free_pages s' = free_pages s \<union> pages_in vstart vend" for b
    using freerange_pages [of "s\<lparr>use_lock := b\<rparr>" vstart vend] assms
    by (simp add: kmem_inv_def free_pages_def usable_page_def)
  from this [of False] this [of "use_lock s"] show ?thesis
    by (auto simp: kinit1_def kinit2_def kmem_inv_def free_pages_def usable_page_def)
qed

text \<open>Memory as the boot loader leaves it, for a kernel that ends at \<open>0x80115000\<close>.\<close>

definition boot_kmem :: kmem_state where
  "boot_kmem = kstate.extend bss_kstate (kmem_state.fields (\<lambda>_. 0) 0 False 0x80115000)"

lemma boot_kmem_fields [simp]:
  "kmem_mem boot_kmem = (\<lambda>_. 0)" "freelist boot_kmem = 0" "kernel_end boot_kmem = 0x80115000"
  by (simp_all add: boot_kmem_def kstate.defs kmem_state.defs)

lemma boot_kmem_inv: "kmem_inv boot_kmem" and boot_kmem_free: "free_pages boot_kmem = {}"
proof -
  have r: "run_list (kmem_mem boot_kmem) (freelist boot_kmem) []" by simp
  then show "kmem_inv boot_kmem"
    unfolding kmem_inv_def by (intro conjI exI [of _ "[]"]) simp_all
  show "free_pages boot_kmem = {}" using free_pages_eq [OF r] by simp
qed

lemma page_0x80200000: "0x80200000 \<in> pages_in 0x80116000 0x80400000"
  by (simp add: pages_in_def PGSIZE_def)

theorem kinit_pages_witness:
  "\<exists>s'. kinit1 0x80116000 0x80400000 boot_kmem = Ret s' \<and> 0x80200000 \<in> free_pages s'"
proof -
  have "kernel_end boot_kmem \<le> 0x80116000" by simp
  from kinit_pages [OF boot_kmem_inv this, of "0x80400000"] page_0x80200000
  show ?thesis by (fastforce simp: boot_kmem_free KERNBASE_def PHYSTOP_def)
qed

section \<open>Allocation\<close>

text \<open>C11. The allocator hands out a page exactly when one is free, the page is usable and no longer
  free, and giving it back with \<open>kfree\<close> succeeds and restores the set of free pages.\<close>

theorem kalloc_kfree:
  assumes "kmem_inv s" and "kalloc s = (r, s1)"
  shows "(r = 0 \<longleftrightarrow> free_pages s = {}) \<and>
    (r \<noteq> 0 \<longrightarrow> usable_page s r \<and> r \<in> free_pages s \<and> free_pages s1 = free_pages s - {r} \<and>
      (\<exists>s2. kfree r s1 = Ret s2 \<and> kmem_inv s2 \<and> free_pages s2 = free_pages s))"
  using kmem.alloc_empty [OF assms(1)] kmem.alloc_page [OF assms(1)] kmem.free_usable [OF assms(1)]
    kmem.free_after_alloc [OF assms(1)] assms(2)
  by simp

text \<open>The state after \<open>kinit1\<close> has freed the page at \<open>0x80200000\<close>.\<close>

lemma boot_kmem_page: "\<exists>s. kfree 0x80200000 boot_kmem = Ret s \<and> kmem_inv s \<and> free_pages s = {0x80200000}"
proof -
  have "usable_page boot_kmem 0x80200000"
    using pages_in_usable [OF _ _ _ page_0x80200000, of boot_kmem] by (simp add: KERNBASE_def PHYSTOP_def)
  from kfree_pages [OF boot_kmem_inv this] show ?thesis by (simp add: boot_kmem_free)
qed

theorem kalloc_kfree_witness:
  "\<exists>s r s1. kfree 0x80200000 boot_kmem = Ret s \<and> kalloc s = (r, s1) \<and> r = 0x80200000 \<and> free_pages s1 = {}"
proof -
  obtain s where s: "kfree 0x80200000 boot_kmem = Ret s" "kmem_inv s" "free_pages s = {0x80200000}"
    using boot_kmem_page by blast
  obtain r s1 where r: "kalloc s = (r, s1)" by fastforce
  from kalloc_kfree [OF s(2) r] s r show ?thesis by auto
qed

end
