(* ===== verification/Consout.thy ===== *)
theory Consout
  imports Kalloc
begin

text \<open>
  Console output: \<open>printint\<close>, \<open>cprintf\<close>, \<open>cgaputc\<close> and \<open>consputc\<close> of \<open>console.c\<close> and \<open>uartputc\<close> of
  \<open>uart.c\<close>. \<open>con_state\<close> adds the CGA text memory (one 16-bit cell per position), the cursor position
  in the CRT controller, the bytes sent to the serial port (oldest first), whether there is one, and
  the flag \<open>panicked\<close>. The delay loop of \<open>uartputc\<close> has no effect on this state.
\<close>

section \<open>Formatting integers\<close>

text \<open>The digits \<open>printint\<close> puts into its buffer, least significant first. The C loop is a
  \<open>do ... while\<close>; \<open>base\<close> is 10 or 16 in every call.\<close>

function digits_rev :: "nat \<Rightarrow> nat \<Rightarrow> nat list" where
  "digits_rev base x = (if base < 2 then [] else x mod base # (if x div base \<noteq> 0 then digits_rev base (x div base) else []))"
  by pat_completeness auto
termination
  by (relation "measure snd") (auto intro!: div_less_dividend intro: gr0I)

declare digits_rev.simps [simp del]

text \<open>The characters \<open>printint(xx, base, sign)\<close> prints, for a table of digits. \<open>-xx\<close> overflows for the
  smallest \<open>int\<close>; writing past the 16 bytes of \<open>buf\<close> is undefined too.\<close>

definition printint_text :: "string \<Rightarrow> int \<Rightarrow> nat \<Rightarrow> bool \<Rightarrow> string res" where
  "printint_text digits xx base sign =
     (if base < 2 \<or> base > length digits \<or> sign \<and> xx = - (2 ^ 31) then Undef
      else (let neg = (sign \<and> xx < 0);
                x = nat (if neg then - xx else xx mod 2 ^ 32);
                buf = map ((!) digits) (digits_rev base x) @ (if neg then ''-'' else [])
            in if length buf > 16 then Undef else Ret (rev buf)))"

definition kdigits :: string where "kdigits = ''0123456789abcdef''"

section \<open>Formats\<close>

text \<open>A variable argument: a word or a string pointer, \<open>None\<close> if it is null.\<close>

datatype fmt_arg = AInt int | AStr "string option"

text \<open>The characters \<open>cprintf\<close> prints. A missing argument, or a word used as a string, is undefined.\<close>

fun cprintf_text :: "string \<Rightarrow> fmt_arg list \<Rightarrow> string res" where
  "cprintf_text [] args = Ret []"
| "cprintf_text (c # fmt) args =
     (if c \<noteq> CHR ''%'' then bnd (cprintf_text fmt args) (\<lambda>r. Ret (c # r))
      else (case fmt of
        [] \<Rightarrow> Ret []
      | d # fmt \<Rightarrow>
          if d = CHR ''d''
          then (case args of AInt x # args \<Rightarrow> bnd (printint_text kdigits x 10 True) (\<lambda>t.
                  bnd (cprintf_text fmt args) (\<lambda>r. Ret (t @ r))) | _ \<Rightarrow> Undef)
          else if d = CHR ''x'' \<or> d = CHR ''p''
          then (case args of AInt x # args \<Rightarrow> bnd (printint_text kdigits x 16 False) (\<lambda>t.
                  bnd (cprintf_text fmt args) (\<lambda>r. Ret (t @ r))) | _ \<Rightarrow> Undef)
          else if d = CHR ''s''
          then (case args of AStr s # args \<Rightarrow>
                  bnd (cprintf_text fmt args) (\<lambda>r. Ret ((case s of None \<Rightarrow> ''(null)'' | Some s \<Rightarrow> s) @ r))
                | _ \<Rightarrow> Undef)
          else if d = CHR ''%'' then bnd (cprintf_text fmt args) (\<lambda>r. Ret (CHR ''%'' # r))
          else bnd (cprintf_text fmt args) (\<lambda>r. Ret (CHR ''%'' # d # r))))"

section \<open>The devices\<close>

record con_state = kmem_state +
  crt :: "nat \<Rightarrow> ushort"
  crt_pos :: nat
  uart :: bool
  uart_out :: "uchar list"
  panicked :: bool

definition BACKSPACE :: int where "BACKSPACE = 0x100"

definition uartputc :: "int \<Rightarrow> 'a con_state_scheme \<Rightarrow> 'a con_state_scheme" where
  "uartputc c s = (if uart s then s\<lparr>uart_out := uart_out s @ [word_of_int c]\<rparr> else s)"

definition cgaputc :: "int \<Rightarrow> 'a con_state_scheme \<Rightarrow> 'a con_state_scheme res" where
  "cgaputc c s =
     (let pos = crt_pos s;
          (pos, m) =
            (if c = 10 then (pos + (80 - pos mod 80), crt s)
             else if c = BACKSPACE then (pos - 1, crt s)
             else (pos + 1, (crt s)(pos := word_of_int (c mod 256) OR 0x0700)))
      in if pos > 25 * 80 then Panic ''pos under/overflow''
         else (let (pos, m) =
                 (if pos div 80 \<ge> 24
                  then (let m = (\<lambda>i. if i < 23 * 80 then m (i + 80) else m i);
                            pos = pos - 80
                        in (pos, \<lambda>i. if pos \<le> i \<and> i < 24 * 80 then 0 else m i))
                  else (pos, m))
               in Ret (s\<lparr>crt := m(pos := 0x0720), crt_pos := pos\<rparr>)))"

definition consputc :: "int \<Rightarrow> 'a con_state_scheme \<Rightarrow> 'a con_state_scheme res" where
  "consputc c s =
     (if panicked s then Spin
      else cgaputc c (if c = BACKSPACE then uartputc 8 (uartputc 32 (uartputc 8 s)) else uartputc c s))"

primrec consputs :: "int list \<Rightarrow> 'a con_state_scheme \<Rightarrow> 'a con_state_scheme res" where
  "consputs [] s = Ret s"
| "consputs (c # cs) s = bnd (consputc c s) (consputs cs)"

definition cprintf :: "string \<Rightarrow> fmt_arg list \<Rightarrow> 'a con_state_scheme \<Rightarrow> 'a con_state_scheme res" where
  "cprintf fmt args s = bnd (cprintf_text fmt args) (\<lambda>t. consputs (map of_char t) s)"

section \<open>Laws\<close>

text \<open>Reading a numeral back, least significant digit first.\<close>

primrec num_of :: "nat \<Rightarrow> nat list \<Rightarrow> nat" where
  "num_of base [] = 0"
| "num_of base (d # ds) = d + base * num_of base ds"

lemma num_of_digits_rev: "2 \<le> base \<Longrightarrow> num_of base (digits_rev base x) = x"
proof (induction base x rule: digits_rev.induct)
  case (1 base x)
  then show ?case
    using mult_div_mod_eq [of base x] by (subst digits_rev.simps) (auto simp: add.commute div_eq_0_iff)
qed

lemma digits_rev_less: "d \<in> set (digits_rev base x) \<Longrightarrow> d < base"
proof (induction base x rule: digits_rev.induct)
  case (1 base x)
  then show ?case by (subst (asm) (2) digits_rev.simps) (auto split: if_splits)
qed

lemma length_digits_rev: "2 \<le> base \<Longrightarrow> x < base ^ Suc n \<Longrightarrow> length (digits_rev base x) \<le> Suc n"
proof (induction n arbitrary: x)
  case 0
  then show ?case by (subst digits_rev.simps) simp
next
  case (Suc n)
  then have "x div base < base ^ Suc n" by (simp add: less_mult_imp_div_less mult.commute)
  with Suc show ?case by (subst digits_rev.simps) auto
qed

lemma digits_rev_last: "2 \<le> base \<Longrightarrow> x \<noteq> 0 \<Longrightarrow> last (digits_rev base x) \<noteq> 0"
proof (induction base x rule: digits_rev.induct)
  case (1 base x)
  have "digits_rev base y \<noteq> []" if "2 \<le> base" for y using that by (subst digits_rev.simps) simp
  with 1 show ?case by (subst digits_rev.simps) (auto simp: div_eq_0_iff)
qed

text \<open>The 24 lines of text, cell by cell. The specification of a character: where the cursor goes, and the cells
  before the screen scrolls.\<close>

definition screen :: "'a con_state_scheme \<Rightarrow> ushort list" where
  "screen s = map (crt s) [0..<24 * 80]"

definition next_pos :: "int \<Rightarrow> nat \<Rightarrow> nat" where
  "next_pos c pos = (if c = 10 then 80 * Suc (pos div 80) else if c = BACKSPACE then pos - 1 else Suc pos)"

definition put_glyph :: "int \<Rightarrow> nat \<Rightarrow> ushort list \<Rightarrow> ushort list" where
  "put_glyph c pos t = (if c = 10 \<or> c = BACKSPACE then t else t[pos := word_of_int (c mod 256) OR 0x0700])"

lemma newline_pos: "(pos :: nat) + (80 - pos mod 80) = 80 * Suc (pos div 80)"
  by presburger

lemma next_pos_less: "pos < 24 * 80 \<Longrightarrow> next_pos c pos \<le> 24 * 80" "pos < 25 * 80 \<Longrightarrow> next_pos c pos \<le> 25 * 80"
proof -
  have "80 * Suc (pos div 80) \<le> 80 * n" if "pos < n * 80" for n
    using less_mult_imp_div_less [OF that] by simp
  from this [of 24] this [of 25] show "pos < 24 * 80 \<Longrightarrow> next_pos c pos \<le> 24 * 80" "pos < 25 * 80 \<Longrightarrow> next_pos c pos \<le> 25 * 80"
    by (auto simp: next_pos_def)
qed

text \<open>\<open>cgaputc\<close> in terms of these, with the memory after the glyph is written.\<close>

lemma cgaputc_alt:
  fixes s :: "'a con_state_scheme"
  assumes "crt_pos s < 25 * 80"
  obtains m where "\<And>i. m i = (if i = crt_pos s \<and> c \<noteq> 10 \<and> c \<noteq> BACKSPACE then word_of_int (c mod 256) OR 0x0700 else crt s i)"
    and "cgaputc c s = Ret (if next_pos c (crt_pos s) < 24 * 80
        then s\<lparr>crt := m(next_pos c (crt_pos s) := 0x0720), crt_pos := next_pos c (crt_pos s)\<rparr>
        else (let q = next_pos c (crt_pos s) - 80
              in s\<lparr>crt := (\<lambda>i. if i = q then 0x0720 else if q \<le> i \<and> i < 24 * 80 then 0
                               else if i < 23 * 80 then m (i + 80) else m i), crt_pos := q\<rparr>))"
proof -
  define m where "m = (if c = 10 \<or> c = BACKSPACE then crt s else (crt s)(crt_pos s := word_of_int (c mod 256) OR 0x0700))"
  define q where "q = next_pos c (crt_pos s)"
  have q: "q \<le> 25 * 80" "24 \<le> q div 80 \<longleftrightarrow> \<not> q < 24 * 80"
    using next_pos_less(2) [OF assms, of c] by (auto simp: q_def)
  have mv: "(if c = 10 then (crt_pos s + (80 - crt_pos s mod 80), crt s)
             else if c = BACKSPACE then (crt_pos s - 1, crt s)
             else (crt_pos s + 1, (crt s)(crt_pos s := word_of_int (c mod 256) OR 0x0700))) = (q, m)"
    by (simp add: q_def m_def next_pos_def newline_pos)
  show thesis
  proof
    show "m i = (if i = crt_pos s \<and> c \<noteq> 10 \<and> c \<noteq> BACKSPACE then word_of_int (c mod 256) OR 0x0700 else crt s i)" for i
      by (simp add: m_def)
    show "cgaputc c s = Ret (if next_pos c (crt_pos s) < 24 * 80
        then s\<lparr>crt := m(next_pos c (crt_pos s) := 0x0720), crt_pos := next_pos c (crt_pos s)\<rparr>
        else (let q = next_pos c (crt_pos s) - 80
              in s\<lparr>crt := (\<lambda>i. if i = q then 0x0720 else if q \<le> i \<and> i < 24 * 80 then 0
                               else if i < 23 * 80 then m (i + 80) else m i), crt_pos := q\<rparr>))"
      unfolding cgaputc_def Let_def mv q_def [symmetric] using q by (simp add: fun_upd_def cong: if_cong)
  qed
qed

text \<open>C24. What a character does to the screen, cell by cell. From any cursor position on its 25 lines \<open>cgaputc\<close> never
  reaches the overflow panic and leaves the cursor on the screen. From a position on the first 24 lines it writes
  the glyph of a printing character at the cursor and nothing else; a newline takes the cursor to the start of the
  next line and a backspace one cell back, stopping at the first; a blank goes under the new cursor. If the cursor
  would leave line 23, every line moves up by one, the last is cleared and the cursor goes to its start. The cells
  of the 25th line and beyond, and the rest of the state, are not touched.\<close>

theorem cgaputc_cursor:
  assumes "crt_pos s < 25 * 80"
  shows "\<exists>s'. cgaputc c s = Ret s' \<and> crt_pos s' < 25 * 80 \<and> s' = s\<lparr>crt := crt s', crt_pos := crt_pos s'\<rparr> \<and>
    (crt_pos s < 24 * 80 \<longrightarrow>
      (let t = put_glyph c (crt_pos s) (screen s); q = next_pos c (crt_pos s)
       in (if q < 24 * 80 then crt_pos s' = q \<and> screen s' = t[q := 0x0720]
           else crt_pos s' = 23 * 80 \<and> screen s' = (drop 80 t @ replicate 80 0)[23 * 80 := 0x0720]) \<and>
          (\<forall>i \<ge> 24 * 80. crt s' i = crt s i)))"
proof -
  define q where "q = next_pos c (crt_pos s)"
  obtain m where m: "\<And>i. m i = (if i = crt_pos s \<and> c \<noteq> 10 \<and> c \<noteq> BACKSPACE then word_of_int (c mod 256) OR 0x0700 else crt s i)"
    and c: "cgaputc c s = Ret (if q < 24 * 80 then s\<lparr>crt := m(q := 0x0720), crt_pos := q\<rparr>
        else (let q = q - 80
              in s\<lparr>crt := (\<lambda>i. if i = q then 0x0720 else if q \<le> i \<and> i < 24 * 80 then 0
                               else if i < 23 * 80 then m (i + 80) else m i), crt_pos := q\<rparr>))"
    unfolding q_def by (rule cgaputc_alt [OF assms]) blast
  have t: "put_glyph c (crt_pos s) (screen s) = map m [0..<24 * 80]" if "crt_pos s < 24 * 80"
    by (rule nth_equalityI) (use that in \<open>auto simp: put_glyph_def screen_def m nth_list_update\<close>)
  have scr: "screen (s\<lparr>crt := f, crt_pos := p\<rparr>) = map f [0..<24 * 80]" for f p by (simp add: screen_def)
  have q: "q \<le> 25 * 80" "crt_pos s < 24 * 80 \<Longrightarrow> q \<le> 24 * 80" using next_pos_less assms by (auto simp: q_def)
  show ?thesis
  proof (cases "q < 24 * 80")
    case True
    have "map (m(q := 0x0720)) [0..<24 * 80] = (map m [0..<24 * 80])[q := 0x0720]"
      by (rule nth_equalityI) (auto simp: nth_list_update)
    then show ?thesis using True unfolding c Let_def q_def [symmetric]
      by (intro exI [of _ "s\<lparr>crt := m(q := 0x0720), crt_pos := q\<rparr>"]) (auto simp: t scr m simp del: upt_rec_numeral)
  next
    case False
    let ?f = "\<lambda>i. if i = q - 80 then 0x0720 else if q - 80 \<le> i \<and> i < 24 * 80 then 0 else if i < 23 * 80 then m (i + 80) else m i"
    have "map ?f [0..<24 * 80] = (drop 80 (map m [0..<24 * 80]) @ replicate 80 0)[23 * 80 := 0x0720]" if "q = 24 * 80"
      by (rule nth_equalityI) (use that in \<open>auto simp: nth_list_update nth_append add.commute\<close>)
    moreover have "q = 24 * 80" if "crt_pos s < 24 * 80" using False q(2) that by simp
    ultimately show ?thesis using False q(1) unfolding c Let_def q_def [symmetric]
      by (intro exI [of _ "s\<lparr>crt := ?f, crt_pos := q - 80\<rparr>"]) (auto simp: t scr m simp del: upt_rec_numeral)
  qed
qed

text \<open>A character in the last cell of a screen whose cell 100 holds \<open>Z\<close>.\<close>

definition some_con :: con_state where
  "some_con = kmem_state.extend boot_kmem (con_state.fields ((\<lambda>_. 0)(100 := 0x075a)) 1919 True [] False)"

theorem cgaputc_cursor_witness:
  "crt_pos some_con = 1919 \<and> (\<exists>s'. cgaputc 65 some_con = Ret s' \<and> crt_pos s' = 1840 \<and>
     screen s' ! 20 = 0x075a \<and> screen s' ! 1839 = 0x0741 \<and> screen s' ! 1840 = 0x0720 \<and> screen s' ! 1841 = 0)"
proof -
  have pos: "crt_pos some_con = 1919" "crt some_con = (\<lambda>_. 0)(100 := 0x075a)"
    by (simp_all add: some_con_def kmem_state.defs con_state.defs)
  obtain s' where s: "cgaputc 65 some_con = Ret s'" "crt_pos s' = 1840"
    "screen s' = (drop 80 ((screen some_con)[1919 := word_of_int 65 OR 0x0700]) @ replicate 80 0)[1840 := 0x0720]"
    using cgaputc_cursor [of some_con 65] by (auto simp: pos BACKSPACE_def next_pos_def put_glyph_def Let_def)
  have "length (screen some_con) = 1920" by (simp add: screen_def)
  moreover have "screen some_con ! 100 = 0x075a" by (simp add: screen_def pos)
  ultimately have "screen s' ! 20 = 0x075a" "screen s' ! 1839 = 0x0741" "screen s' ! 1840 = 0x0720" "screen s' ! 1841 = 0"
    unfolding s(3) by (simp_all add: nth_append nth_list_update)
  with s(1,2) pos show ?thesis by auto
qed

text \<open>C23. \<open>printint\<close> prints a number in the given base exactly: the digits of what it prints are below the
  base, have no leading zero except for 0 itself, and read back as the absolute value (the value modulo \<open>2 ^ 32\<close>
  for an unsigned print), after a minus sign for a negative number. For the bases used, 10 and 16, it
  never overflows its buffer of 16 bytes. The only number it cannot print is the smallest \<open>int\<close>.\<close>

theorem printint_correct:
  assumes "base = 10 \<or> base = 16" and "length digits = 16" and "- (2 ^ 31) < xx" and "xx < 2 ^ 32"
    and "sign \<longrightarrow> xx < 2 ^ 31"
  shows "\<exists>ds. printint_text digits xx base sign =
      Ret ((if sign \<and> xx < 0 then ''-'' else []) @ map ((!) digits) (rev ds)) \<and>
    ds \<noteq> [] \<and> (\<forall>d \<in> set ds. d < base) \<and> (last ds = 0 \<longrightarrow> xx = 0) \<and>
    int (num_of base ds) = (if sign then \<bar>xx\<bar> else xx mod 2 ^ 32)"
proof -
  define x where "x = nat (if sign \<and> xx < 0 then - xx else xx mod 2 ^ 32)"
  have "x < 2 ^ 32" using assms(3,5) by (auto simp: x_def nat_less_iff)
  have x: "int x = (if sign then \<bar>xx\<bar> else xx mod 2 ^ 32)"
    using assms(3,5) by (auto simp: x_def)
  have b: "2 \<le> base" using assms(1) by auto
  have "x < base ^ Suc 9" using assms(1) \<open>x < 2 ^ 32\<close> by auto
  from length_digits_rev [OF b this] have "length (digits_rev base x) \<le> 10" by simp
  then have "printint_text digits xx base sign =
      Ret ((if sign \<and> xx < 0 then ''-'' else []) @ map ((!) digits) (rev (digits_rev base x)))"
    using assms(1-3) by (auto simp: printint_text_def Let_def x_def rev_map)
  moreover have "digits_rev base x \<noteq> []" using b by (subst digits_rev.simps) simp
  moreover have "xx = 0" if "last (digits_rev base x) = 0"
  proof -
    have "int x = 0" using digits_rev_last [OF b, of x] that by auto
    then have "\<bar>xx\<bar> = 0 \<or> 2 ^ 32 dvd xx" using x by (auto simp: mod_eq_0_iff_dvd split: if_splits)
    then show ?thesis using assms(3,4) by (auto elim!: dvdE)
  qed
  ultimately show ?thesis
    using num_of_digits_rev [OF b, of x] digits_rev_less [of _ base x] x
    by (intro exI [of _ "digits_rev base x"]) auto
qed

theorem printint_correct_witness:
  "printint_text kdigits (- 305) 10 True = Ret ''-305'' \<and>
   (\<exists>ds. Ret ''-305'' = Ret (''-'' @ map ((!) kdigits) (rev ds)) \<and> num_of 10 ds = 305)"
proof -
  have t: "printint_text kdigits (- 305) 10 True = Ret ''-305''"
    by (simp add: printint_text_def kdigits_def digits_rev.simps Let_def)
  have "length kdigits = 16" by (simp add: kdigits_def)
  with printint_correct [of 10 kdigits "- 305" True] obtain ds where
    "printint_text kdigits (- 305) 10 True = Ret (''-'' @ map ((!) kdigits) (rev ds))"
    "int (num_of 10 ds) = 305" by auto
  moreover from this(2) have "num_of 10 ds = 305" by linarith
  ultimately show ?thesis unfolding t by blast
qed

end
