(* ===== verification/Vm.thy ===== *)
theory Vm
  imports Consout
begin

text \<open>
  Page tables, \<open>vm.c\<close>. A page directory is the kernel virtual address of a page of 1024 words in
  \<open>kmem_mem\<close>; the kernel reads and writes page tables through its direct map of physical memory, so
  \<open>P2V\<close> and \<open>V2P\<close> translate between the physical addresses in the entries and the addresses of
  \<open>kmem_mem\<close>. A pointer to an entry is the address of the entry, 0 is the null pointer.

  \<open>vm_state\<close> adds the kernel's page directory and the linker symbol \<open>data\<close>.
\<close>

section \<open>Address arithmetic\<close>

definition EXTMEM :: uint where "EXTMEM = 0x100000"
definition DEVSPACE :: uint where "DEVSPACE = 0xFE000000"
definition KERNLINK :: uint where "KERNLINK = word_of_nat KERNBASE + EXTMEM"

definition V2P :: "uint \<Rightarrow> uint" where "V2P a = a - word_of_nat KERNBASE"
definition P2V :: "uint \<Rightarrow> uint" where "P2V a = a + word_of_nat KERNBASE"

definition PTE_P :: uint where "PTE_P = 0x001"
definition PTE_W :: uint where "PTE_W = 0x002"
definition PTE_U :: uint where "PTE_U = 0x004"

definition PTE_ADDR :: "uint \<Rightarrow> uint" where "PTE_ADDR pte = pte AND NOT 0xFFF"
definition PTE_FLAGS :: "uint \<Rightarrow> uint" where "PTE_FLAGS pte = pte AND 0xFFF"

definition PDX :: "uint \<Rightarrow> uint" where "PDX va = drop_bit 22 va AND 0x3FF"
definition PTX :: "uint \<Rightarrow> uint" where "PTX va = drop_bit 12 va AND 0x3FF"
definition PGADDR :: "uint \<Rightarrow> uint \<Rightarrow> uint \<Rightarrow> uint" where
  "PGADDR d t off = push_bit 22 d OR push_bit 12 t OR off"

definition NPDENTRIES :: nat where "NPDENTRIES = 1024"

section \<open>State and operations\<close>

record vm_state = con_state +
  kpgdir :: uint
  kernel_data :: uint

definition walkpgdir ::
    "uint \<Rightarrow> uint \<Rightarrow> bool \<Rightarrow> 'a kmem_state_scheme \<Rightarrow> uint \<times> 'a kmem_state_scheme" where
  "walkpgdir pgdir va alloc s =
     (let pde = pgdir + 4 * PDX va;
          e = load32 (kmem_mem s) pde
      in if e AND PTE_P \<noteq> 0 then (P2V (PTE_ADDR e) + 4 * PTX va, s)
         else if \<not> alloc then (0, s)
         else (let (pgtab, s) = kalloc s
               in if pgtab = 0 then (0, s)
                  else (let m = memset (kmem_mem s) pgtab 0 (word_of_nat PGSIZE);
                            m = store32 m pde (V2P pgtab OR PTE_P OR PTE_W OR PTE_U)
                        in (pgtab + 4 * PTX va, s\<lparr>kmem_mem := m\<rparr>))))"

text \<open>The loop of \<open>mappages\<close>: \<open>a\<close> is equal to \<open>last\<close> when \<open>n\<close>, the number of pages still to go, is 0.
  The value is the return value of \<open>mappages\<close>.\<close>

primrec mappages_loop ::
    "nat \<Rightarrow> uint \<Rightarrow> uint \<Rightarrow> uint \<Rightarrow> uint \<Rightarrow> 'a kmem_state_scheme \<Rightarrow> (int \<times> 'a kmem_state_scheme) res" where
  "mappages_loop 0 pgdir a pa perm s =
     (let (pte, s) = walkpgdir pgdir a True s
      in if pte = 0 then Ret (- 1, s)
         else if load32 (kmem_mem s) pte AND PTE_P \<noteq> 0 then Panic ''remap''
         else Ret (0, s\<lparr>kmem_mem := store32 (kmem_mem s) pte (pa OR perm OR PTE_P)\<rparr>))"
| "mappages_loop (Suc n) pgdir a pa perm s =
     (let (pte, s) = walkpgdir pgdir a True s
      in if pte = 0 then Ret (- 1, s)
         else if load32 (kmem_mem s) pte AND PTE_P \<noteq> 0 then Panic ''remap''
         else mappages_loop n pgdir (a + word_of_nat PGSIZE) (pa + word_of_nat PGSIZE) perm
           (s\<lparr>kmem_mem := store32 (kmem_mem s) pte (pa OR perm OR PTE_P)\<rparr>))"

definition mappages ::
    "uint \<Rightarrow> uint \<Rightarrow> uint \<Rightarrow> uint \<Rightarrow> uint \<Rightarrow> 'a kmem_state_scheme \<Rightarrow> (int \<times> 'a kmem_state_scheme) res" where
  "mappages pgdir va sz pa perm s =
     (let a = PGROUNDDOWN va; last = PGROUNDDOWN (va + sz - 1)
      in mappages_loop (unat (last - a) div PGSIZE) pgdir a pa perm s)"

lemma uint_distance_less: "a < b \<Longrightarrow> 4294967296 - unat b < 4294967296 - unat a" for a b :: uint
  using unat_uint_less [of b] by (simp add: word_less_nat_alt)

text \<open>The loop of \<open>deallocuvm\<close>. Every caller has \<open>oldsz \<le> KERNBASE\<close>; for an \<open>oldsz\<close> in the last 4 MB of
  the address space \<open>a\<close> would wrap around to 0 and the loop might not end, the outcome \<open>Spin\<close>.\<close>

function deallocuvm_loop ::
    "uint \<Rightarrow> uint \<Rightarrow> uint \<Rightarrow> 'a kmem_state_scheme \<Rightarrow> 'a kmem_state_scheme res" where
  "deallocuvm_loop pgdir a oldsz s =
     (if \<not> a < oldsz then Ret s
      else (let pte = fst (walkpgdir pgdir a False s);
                a' = (if pte = 0 then PGADDR (PDX a + 1) 0 0 else a + word_of_nat PGSIZE)
            in if \<not> a < a' then Spin
               else if pte = 0 \<or> load32 (kmem_mem s) pte AND PTE_P = 0 then deallocuvm_loop pgdir a' oldsz s
               else (let pa = PTE_ADDR (load32 (kmem_mem s) pte)
                     in if pa = 0 then Panic ''kfree''
                        else bnd (kfree (P2V pa) s) (\<lambda>s.
                          deallocuvm_loop pgdir a' oldsz (s\<lparr>kmem_mem := store32 (kmem_mem s) pte 0\<rparr>)))))"
  by pat_completeness auto
termination
  by (relation "measure (\<lambda>(_, a, _). 2 ^ 32 - unat a)")
    (auto intro!: uint_distance_less)

definition deallocuvm ::
    "uint \<Rightarrow> uint \<Rightarrow> uint \<Rightarrow> 'a kmem_state_scheme \<Rightarrow> (uint \<times> 'a kmem_state_scheme) res" where
  "deallocuvm pgdir oldsz newsz s =
     (if newsz \<ge> oldsz then Ret (oldsz, s)
      else bnd (deallocuvm_loop pgdir (PGROUNDUP newsz) oldsz s) (\<lambda>s. Ret (newsz, s)))"

primrec freevm_loop :: "nat \<Rightarrow> uint \<Rightarrow> 'a kmem_state_scheme \<Rightarrow> 'a kmem_state_scheme res" where
  "freevm_loop 0 pgdir s = Ret s"
| "freevm_loop (Suc k) pgdir s =
     (let e = load32 (kmem_mem s) (pgdir + 4 * word_of_nat (NPDENTRIES - Suc k))
      in bnd (if e AND PTE_P \<noteq> 0 then kfree (P2V (PTE_ADDR e)) s else Ret s) (freevm_loop k pgdir))"

definition freevm :: "uint \<Rightarrow> 'a kmem_state_scheme \<Rightarrow> 'a kmem_state_scheme res" where
  "freevm pgdir s =
     (if pgdir = 0 then Panic ''freevm: no pgdir''
      else bnd (deallocuvm pgdir (word_of_nat KERNBASE) 0 s) (\<lambda>(_, s).
           bnd (freevm_loop NPDENTRIES pgdir s) (kfree pgdir)))"

text \<open>The table \<open>kmap\<close>: virtual address, first and last physical address, permissions.\<close>

definition kmap :: "'a vm_state_scheme \<Rightarrow> (uint \<times> uint \<times> uint \<times> uint) list" where
  "kmap s =
     [(word_of_nat KERNBASE, 0, EXTMEM, PTE_W),
      (KERNLINK, V2P KERNLINK, V2P (kernel_data s), 0),
      (kernel_data s, V2P (kernel_data s), word_of_nat PHYSTOP, PTE_W),
      (DEVSPACE, DEVSPACE, 0, PTE_W)]"

primrec setupkvm_loop ::
    "(uint \<times> uint \<times> uint \<times> uint) list \<Rightarrow> uint \<Rightarrow> 'a vm_state_scheme \<Rightarrow> (uint \<times> 'a vm_state_scheme) res" where
  "setupkvm_loop [] pgdir s = Ret (pgdir, s)"
| "setupkvm_loop (k # ks) pgdir s =
     (case k of (virt, phys_start, phys_end, perm) \<Rightarrow>
      bnd (mappages pgdir virt (phys_end - phys_start) phys_start perm s) (\<lambda>(r, s).
      if r < 0 then bnd (freevm pgdir s) (\<lambda>s. Ret (0, s))
      else setupkvm_loop ks pgdir s))"

definition setupkvm :: "'a vm_state_scheme \<Rightarrow> (uint \<times> 'a vm_state_scheme) res" where
  "setupkvm s =
     (let (pgdir, s) = kalloc s
      in if pgdir = 0 then Ret (0, s)
         else if P2V (word_of_nat PHYSTOP) > DEVSPACE then Panic ''PHYSTOP too high''
         else setupkvm_loop (kmap s) pgdir
           (s\<lparr>kmem_mem := memset (kmem_mem s) pgdir 0 (word_of_nat PGSIZE)\<rparr>))"

definition kvmalloc :: "nat \<Rightarrow> 'a vm_state_scheme \<Rightarrow> 'a vm_state_scheme res" where
  "kvmalloc i s =
     bnd (setupkvm s) (\<lambda>(pgdir, s).
     let s = s\<lparr>kpgdir := pgdir\<rparr> in Ret (switchkvm i (kpgdir s) s))"

text \<open>\<open>inituvm\<close> does not check that \<open>kalloc\<close> succeeded; writing through the null pointer is undefined.\<close>

primrec poke :: "uchar list \<Rightarrow> uint \<Rightarrow> mem \<Rightarrow> mem" where
  "poke [] a m = m"
| "poke (b # bs) a m = poke bs (a + 1) (m(a := b))"

definition inituvm :: "uint \<Rightarrow> uchar list \<Rightarrow> 'a vm_state_scheme \<Rightarrow> 'a vm_state_scheme res" where
  "inituvm pgdir init s =
     (if length init \<ge> PGSIZE then Panic ''inituvm: more than a page''
      else (let (mem, s) = kalloc s
            in if mem = 0 then Undef
               else bnd (mappages pgdir 0 (word_of_nat PGSIZE) (V2P mem) (PTE_W OR PTE_U)
                   (s\<lparr>kmem_mem := memset (kmem_mem s) mem 0 (word_of_nat PGSIZE)\<rparr>)) (\<lambda>(_, s).
                 Ret (s\<lparr>kmem_mem := poke init mem (kmem_mem s)\<rparr>))))"

text \<open>The loop of \<open>allocuvm\<close>, which is only entered with \<open>newsz < KERNBASE\<close>; \<open>a\<close> cannot wrap around.\<close>

function allocuvm_loop ::
    "uint \<Rightarrow> uint \<Rightarrow> uint \<Rightarrow> uint \<Rightarrow> 'a vm_state_scheme \<Rightarrow> (uint \<times> 'a vm_state_scheme) res" where
  "allocuvm_loop pgdir a oldsz newsz s =
     (if \<not> a < newsz then Ret (newsz, s)
      else if \<not> newsz < word_of_nat KERNBASE then Spin
      else (let (mem, s) = kalloc s
            in if mem = 0
               then bnd (cprintf (''allocuvm out of memory'' @ [CHR 0x0A]) [] s) (\<lambda>s.
                    bnd (deallocuvm pgdir newsz oldsz s) (\<lambda>(_, s). Ret (0, s)))
               else bnd (mappages pgdir a (word_of_nat PGSIZE) (V2P mem) (PTE_W OR PTE_U)
                   (s\<lparr>kmem_mem := memset (kmem_mem s) mem 0 (word_of_nat PGSIZE)\<rparr>)) (\<lambda>(r, s).
                 if r < 0
                 then bnd (cprintf (''allocuvm out of memory (2)'' @ [CHR 0x0A]) [] s) (\<lambda>s.
                      bnd (deallocuvm pgdir newsz oldsz s) (\<lambda>(_, s).
                      bnd (kfree mem s) (\<lambda>s. Ret (0, s))))
                 else allocuvm_loop pgdir (a + word_of_nat PGSIZE) oldsz newsz s)))"
  by pat_completeness auto
termination
  by (relation "measure (\<lambda>(_, a, _, newsz, _). 2 ^ 32 - unat a)")
    (auto simp: word_less_nat_alt PGSIZE_def KERNBASE_def unat_add_small
       intro!: uint_distance_less)

definition allocuvm ::
    "uint \<Rightarrow> uint \<Rightarrow> uint \<Rightarrow> 'a vm_state_scheme \<Rightarrow> (uint \<times> 'a vm_state_scheme) res" where
  "allocuvm pgdir oldsz newsz s =
     (if newsz \<ge> word_of_nat KERNBASE then Ret (0, s)
      else if newsz < oldsz then Ret (oldsz, s)
      else allocuvm_loop pgdir (PGROUNDUP oldsz) oldsz newsz s)"

definition clearpteu :: "uint \<Rightarrow> uint \<Rightarrow> 'a vm_state_scheme \<Rightarrow> 'a vm_state_scheme res" where
  "clearpteu pgdir uva s =
     (let pte = fst (walkpgdir pgdir uva False s)
      in if pte = 0 then Panic ''clearpteu''
         else Ret (s\<lparr>kmem_mem := store32 (kmem_mem s) pte (load32 (kmem_mem s) pte AND NOT PTE_U)\<rparr>))"

text \<open>The loop of \<open>copyuvm\<close>, \<open>n\<close> pages before \<open>sz\<close> is reached; it returns \<open>False\<close> where the code
  jumps to \<open>bad\<close>.\<close>

primrec copyuvm_loop ::
    "nat \<Rightarrow> uint \<Rightarrow> uint \<Rightarrow> uint \<Rightarrow> 'a vm_state_scheme \<Rightarrow> (bool \<times> 'a vm_state_scheme) res" where
  "copyuvm_loop 0 pgdir d i s = Ret (True, s)"
| "copyuvm_loop (Suc n) pgdir d i s =
     (let pte = fst (walkpgdir pgdir i False s);
          e = load32 (kmem_mem s) pte
      in if pte = 0 then Panic ''copyuvm: pte should exist''
         else if e AND PTE_P = 0 then Panic ''copyuvm: page not present''
         else (let (mem, s) = kalloc s
               in if mem = 0 then Ret (False, s)
                  else bnd (mappages d i (word_of_nat PGSIZE) (V2P mem) (PTE_FLAGS e)
                      (s\<lparr>kmem_mem := memmove (kmem_mem s) mem (P2V (PTE_ADDR e)) (word_of_nat PGSIZE)\<rparr>))
                    (\<lambda>(r, s).
                      if r < 0 then bnd (kfree mem s) (\<lambda>s. Ret (False, s))
                      else copyuvm_loop n pgdir d (i + word_of_nat PGSIZE) s)))"

definition copyuvm :: "uint \<Rightarrow> uint \<Rightarrow> 'a vm_state_scheme \<Rightarrow> (uint \<times> 'a vm_state_scheme) res" where
  "copyuvm pgdir sz s =
     bnd (setupkvm s) (\<lambda>(d, s).
     if d = 0 then Ret (0, s)
     else bnd (copyuvm_loop ((unat sz + PGSIZE - 1) div PGSIZE) pgdir d 0 s) (\<lambda>(ok, s).
       if ok then Ret (d, s)
       else bnd (freevm d s) (\<lambda>s. Ret (0, s))))"

text \<open>\<open>uva2ka\<close> does not test the pointer \<open>walkpgdir\<close> returns.\<close>

definition uva2ka :: "uint \<Rightarrow> uint \<Rightarrow> 'a kmem_state_scheme \<Rightarrow> uint res" where
  "uva2ka pgdir uva s =
     (let pte = fst (walkpgdir pgdir uva False s); e = load32 (kmem_mem s) pte
      in if pte = 0 then Undef
         else if e AND PTE_P = 0 then Ret 0
         else if e AND PTE_U = 0 then Ret 0
         else Ret (P2V (PTE_ADDR e)))"

text \<open>\<open>copyout\<close>; the bytes at \<open>p\<close> are given as a list, of length \<open>len\<close>.\<close>

lemma unat_page_offset: "unat (va - PGROUNDDOWN va) = unat va mod 4096"
proof -
  have "unat (PGROUNDDOWN va) \<le> unat va" by (simp add: unat_PGROUNDDOWN)
  then have "unat (va - PGROUNDDOWN va) = unat va - unat (PGROUNDDOWN va)"
    by (simp add: unat_sub word_le_nat_alt)
  then show ?thesis by (simp add: unat_PGROUNDDOWN minus_mult_div_eq_mod)
qed

function copyout ::
    "uint \<Rightarrow> uint \<Rightarrow> uchar list \<Rightarrow> 'a vm_state_scheme \<Rightarrow> (int \<times> 'a vm_state_scheme) res" where
  "copyout pgdir va buf s =
     (if buf = [] then Ret (0, s)
      else (let va0 = PGROUNDDOWN va
            in bnd (uva2ka pgdir va0 s) (\<lambda>pa0.
               if pa0 = 0 then Ret (- 1, s)
               else (let n = min (PGSIZE - unat (va - va0)) (length buf)
                     in copyout pgdir (va0 + word_of_nat PGSIZE) (drop n buf)
                        (s\<lparr>kmem_mem := poke (take n buf) (pa0 + (va - va0)) (kmem_mem s)\<rparr>)))))"
  by pat_completeness auto
termination
  by (relation "measure (\<lambda>(_, _, buf, _). length buf)") (auto simp: PGSIZE_def unat_page_offset)

end
