(* ===== verification/Bio.thy ===== *)
theory Bio
  imports Vm
begin

text \<open>
  Sleep locks (\<open>sleeplock.c\<close>), the buffer cache (\<open>bio.c\<close>) and the in-memory disk driver
  (\<open>memide.c\<close>), which serves a request before \<open>iderw\<close> returns. The default kernel links the driver for a real disk,
  \<open>ide.c\<close>, in its place.

  \<open>bio_state\<close> adds the array of buffers, the list of their indices in the order of the links
  \<open>bcache.head.next\<close>, most recently used first, and the disk as a function from block numbers to
  blocks of \<open>BSIZE\<close> bytes. The history variable \<open>dwrites\<close> lists the blocks written to the disk, oldest
  first; no code reads it. A \<open>struct buf *\<close> is an index into the array. The flags \<open>B_VALID\<close> and
  \<open>B_DIRTY\<close> are two fields.

  A routine that has to wait for a sleep lock returns \<open>Sleep\<close> with the channel; the state in which it
  sleeps is not recorded.
\<close>

section \<open>Sleep locks\<close>

record sleeplock =
  sk_locked :: bool
  sk_name :: string
  sk_pid :: int

definition initsleeplock :: "string \<Rightarrow> sleeplock" where
  "initsleeplock name = \<lparr>sk_locked = False, sk_name = name, sk_pid = 0\<rparr>"

text \<open>\<open>myproc()->pid\<close>; undefined when no process is running on the CPU.\<close>

definition mypid :: "'a kstate_scheme \<Rightarrow> int res" where
  "mypid s = (case cur s of None \<Rightarrow> Undef | Some i \<Rightarrow> Ret (p_pid (ptable s ! i)))"

definition acquiresleep :: "chan \<Rightarrow> sleeplock \<Rightarrow> 'a kstate_scheme \<Rightarrow> sleeplock res" where
  "acquiresleep c lk s =
     (if sk_locked lk then Sleep c
      else bnd (mypid s) (\<lambda>pid. Ret (lk\<lparr>sk_locked := True, sk_pid := pid\<rparr>)))"

definition releasesleep ::
    "chan \<Rightarrow> sleeplock \<Rightarrow> 'a kstate_scheme \<Rightarrow> sleeplock \<times> 'a kstate_scheme" where
  "releasesleep c lk s = (lk\<lparr>sk_locked := False, sk_pid := 0\<rparr>, wakeup c s)"

definition holdingsleep :: "sleeplock \<Rightarrow> 'a kstate_scheme \<Rightarrow> bool res" where
  "holdingsleep lk s =
     (if sk_locked lk then bnd (mypid s) (\<lambda>pid. Ret (sk_pid lk = pid)) else Ret False)"

section \<open>Buffers\<close>

definition BSIZE :: nat where "BSIZE = 512"

record buf =
  b_valid :: bool
  b_dirty :: bool
  b_dev :: nat
  b_blockno :: nat
  b_lock :: sleeplock
  b_refcnt :: nat
  b_data :: "uchar list"

record bio_state = vm_state +
  bufs :: "buf list"
  lru :: "nat list"
  disk :: "nat \<Rightarrow> uchar list"
  disksize :: nat
  dwrites :: "(nat \<times> uchar list) list"

definition upd_buf :: "nat \<Rightarrow> (buf \<Rightarrow> buf) \<Rightarrow> 'a bio_state_scheme \<Rightarrow> 'a bio_state_scheme" where
  "upd_buf i f s = s\<lparr>bufs := (bufs s)[i := f (bufs s ! i)]\<rparr>"

text \<open>\<open>ideinit\<close> of \<open>memide.c\<close>, given the file system image the kernel is linked with.\<close>

definition memide_ideinit :: "uchar list \<Rightarrow> 'a bio_state_scheme \<Rightarrow> 'a bio_state_scheme" where
  "memide_ideinit img s = s\<lparr>disk := (\<lambda>b. slice_at (b * BSIZE) BSIZE img), disksize := length img div BSIZE\<rparr>"

text \<open>\<open>iderw\<close> of \<open>memide.c\<close>.\<close>

definition iderw :: "nat \<Rightarrow> 'a bio_state_scheme \<Rightarrow> 'a bio_state_scheme res" where
  "iderw i s =
     (let b = bufs s ! i
      in bnd (holdingsleep (b_lock b) s) (\<lambda>h.
         if \<not> h then Panic ''iderw: buf not locked''
         else if b_valid b \<and> \<not> b_dirty b then Panic ''iderw: nothing to do''
         else if b_dev b \<noteq> 1 then Panic ''iderw: request not for disk 1''
         else if b_blockno b \<ge> disksize s then Panic ''iderw: block out of range''
         else if b_dirty b
         then Ret (upd_buf i (\<lambda>b. b\<lparr>b_dirty := False, b_valid := True\<rparr>)
                (s\<lparr>disk := (disk s)(b_blockno b := b_data b), dwrites := dwrites s @ [(b_blockno b, b_data b)]\<rparr>))
         else Ret (upd_buf i (\<lambda>b. b\<lparr>b_data := disk s (b_blockno b), b_valid := True\<rparr>) s)))"

text \<open>\<open>binit\<close> inserts each buffer at the head of the list.\<close>

definition binit :: "'a bio_state_scheme \<Rightarrow> 'a bio_state_scheme" where
  "binit s = fold (\<lambda>i s. (upd_buf i (\<lambda>b. b\<lparr>b_lock := initsleeplock ''buffer''\<rparr>) s)\<lparr>lru := i # lru s\<rparr>)
     [0..<NBUF] (s\<lparr>lru := []\<rparr>)"

text \<open>The first index in a list of buffer indices whose buffer has a property.\<close>

primrec find_buf :: "(buf \<Rightarrow> bool) \<Rightarrow> nat list \<Rightarrow> buf list \<Rightarrow> nat option" where
  "find_buf P [] bs = None"
| "find_buf P (i # is) bs = (if P (bs ! i) then Some i else find_buf P is bs)"

definition lock_buf :: "nat \<Rightarrow> 'a bio_state_scheme \<Rightarrow> (nat \<times> 'a bio_state_scheme) res" where
  "lock_buf i s =
     bnd (acquiresleep (ChanBuf i) (b_lock (bufs s ! i)) s) (\<lambda>lk.
     Ret (i, upd_buf i (\<lambda>b. b\<lparr>b_lock := lk\<rparr>) s))"

definition bget :: "nat \<Rightarrow> nat \<Rightarrow> 'a bio_state_scheme \<Rightarrow> (nat \<times> 'a bio_state_scheme) res" where
  "bget dev blockno s =
     (case find_buf (\<lambda>b. b_dev b = dev \<and> b_blockno b = blockno) (lru s) (bufs s) of
        Some i \<Rightarrow> lock_buf i (upd_buf i (\<lambda>b. b\<lparr>b_refcnt := b_refcnt b + 1\<rparr>) s)
      | None \<Rightarrow>
          (case find_buf (\<lambda>b. b_refcnt b = 0 \<and> \<not> b_dirty b) (rev (lru s)) (bufs s) of
             Some i \<Rightarrow> lock_buf i (upd_buf i (\<lambda>b. b\<lparr>b_dev := dev, b_blockno := blockno,
                         b_valid := False, b_dirty := False, b_refcnt := 1\<rparr>) s)
           | None \<Rightarrow> Panic ''bget: no buffers''))"

definition bread :: "nat \<Rightarrow> nat \<Rightarrow> 'a bio_state_scheme \<Rightarrow> (nat \<times> 'a bio_state_scheme) res" where
  "bread dev blockno s =
     bnd (bget dev blockno s) (\<lambda>(i, s).
     if \<not> b_valid (bufs s ! i) then bnd (iderw i s) (\<lambda>s. Ret (i, s)) else Ret (i, s))"

definition bwrite :: "nat \<Rightarrow> 'a bio_state_scheme \<Rightarrow> 'a bio_state_scheme res" where
  "bwrite i s =
     bnd (holdingsleep (b_lock (bufs s ! i)) s) (\<lambda>h.
     if \<not> h then Panic ''bwrite'' else iderw i (upd_buf i (\<lambda>b. b\<lparr>b_dirty := True\<rparr>) s))"

definition brelse :: "nat \<Rightarrow> 'a bio_state_scheme \<Rightarrow> 'a bio_state_scheme res" where
  "brelse i s =
     bnd (holdingsleep (b_lock (bufs s ! i)) s) (\<lambda>h.
     if \<not> h then Panic ''brelse''
     else (let (lk, s) = releasesleep (ChanBuf i) (b_lock (bufs s ! i)) s;
               s = upd_buf i (\<lambda>b. b\<lparr>b_lock := lk, b_refcnt := b_refcnt b - 1\<rparr>) s
           in Ret (if b_refcnt (bufs s ! i) = 0 then s\<lparr>lru := i # remove1 i (lru s)\<rparr> else s)))"

end
