(* ===== verification/Bcache.thy ===== *)
theory Bcache
  imports Bio
begin

text \<open>
  The buffer cache is transparent. \<open>bio_inv\<close> is its invariant while one process is at work on it,
  holding the locks of the buffers it has got from \<open>bread\<close>; \<open>view\<close> is what the cache presents: the
  contents of each block, the cached copy if there is one. The lemmas \<open>bread_spec\<close>, \<open>bwrite_spec\<close>,
  \<open>brelse_spec\<close> and \<open>setdata_spec\<close> describe the operations on that level, and are what the log and the file
  system rest on.
\<close>

declare One_nat_def [simp del]

section \<open>The invariant\<close>

abbreviation b_locked :: "buf \<Rightarrow> bool" where
  "b_locked b \<equiv> sk_locked (b_lock b)"

definition buf_ok :: "int \<Rightarrow> nat \<Rightarrow> (nat \<Rightarrow> uchar list) \<Rightarrow> buf \<Rightarrow> bool" where
  "buf_ok pid n d b \<longleftrightarrow>
     length (b_data b) = BSIZE \<and> b_refcnt b = (if b_locked b then 1 else 0) \<and>
     (b_locked b \<longrightarrow> sk_pid (b_lock b) = pid) \<and>
     (if b_dev b = 1
      then b_valid b \<and> b_blockno b < n \<and> (\<not> b_dirty b \<and> \<not> b_locked b \<longrightarrow> b_data b = d (b_blockno b))
      else \<not> b_locked b \<and> \<not> b_dirty b)"

text \<open>Buffer \<open>i\<close> caches block \<open>b\<close> of the disk.\<close>

definition caches :: "'a bio_state_scheme \<Rightarrow> nat \<Rightarrow> nat \<Rightarrow> bool" where
  "caches s i b \<longleftrightarrow> i < NBUF \<and> b_dev (bufs s ! i) = 1 \<and> b_blockno (bufs s ! i) = b"

text \<open>A process runs on the CPU; its pid.\<close>

definition running :: "'a kstate_scheme \<Rightarrow> bool" where
  "running s \<longleftrightarrow> (case cur s of None \<Rightarrow> False | Some p \<Rightarrow> p < length (ptable s))"

definition me :: "'a kstate_scheme \<Rightarrow> int" where
  "me s = (case cur s of None \<Rightarrow> 0 | Some p \<Rightarrow> p_pid (ptable s ! p))"

definition bio_inv :: "'a bio_state_scheme \<Rightarrow> bool" where
  "bio_inv s \<longleftrightarrow> running s \<and>
     (\<forall>i < NBUF. buf_ok (me s) (disksize s) (disk s) (bufs s ! i)) \<and>
     length (bufs s) = NBUF \<and> distinct (lru s) \<and> set (lru s) = {..<NBUF} \<and>
     (\<forall>b < disksize s. length (disk s b) = BSIZE) \<and>
     (\<forall>i j b. caches s i b \<and> caches s j b \<longrightarrow> i = j)"

definition view :: "'a bio_state_scheme \<Rightarrow> nat \<Rightarrow> uchar list" where
  "view s b = (case find_buf (\<lambda>x. b_dev x = 1 \<and> b_blockno x = b) (lru s) (bufs s) of
     Some i \<Rightarrow> b_data (bufs s ! i) | None \<Rightarrow> disk s b)"

text \<open>The blocks whose buffers are locked, and those whose buffers are dirty.\<close>

definition held :: "'a bio_state_scheme \<Rightarrow> nat set" where
  "held s = {b. \<exists>i. caches s i b \<and> b_locked (bufs s ! i)}"

definition dirty :: "'a bio_state_scheme \<Rightarrow> nat set" where
  "dirty s = {b. \<exists>i. caches s i b \<and> b_dirty (bufs s ! i)}"

text \<open>Buffer \<open>i\<close> is locked and caches block \<open>b\<close>.\<close>

definition holds :: "'a bio_state_scheme \<Rightarrow> nat \<Rightarrow> nat \<Rightarrow> bool" where
  "holds s i b \<longleftrightarrow> caches s i b \<and> b_locked (bufs s ! i)"

text \<open>What no operation of the cache changes: all but the buffers, their order, the disk and the
  states of processes waiting for a buffer.\<close>

definition bcore :: "'a bio_state_scheme \<Rightarrow> 'a bio_state_scheme" where
  "bcore s = s\<lparr>bufs := [], lru := [], disk := (\<lambda>_. []), dwrites := [], ptable := []\<rparr>"

definition bframe :: "'a bio_state_scheme \<Rightarrow> 'a bio_state_scheme \<Rightarrow> bool" where
  "bframe s s' \<longleftrightarrow> bcore s' = bcore s \<and> map p_pid (ptable s') = map p_pid (ptable s)"

lemma bframe_refl [simp]: "bframe s s"
  by (simp add: bframe_def)

lemma bframe_trans [trans]: "bframe s t \<Longrightarrow> bframe t u \<Longrightarrow> bframe s u"
  by (simp add: bframe_def)

lemma bcore_simps:
  "disksize (bcore s) = disksize s" "cpus (bcore s) = cpus s" "ncpu (bcore s) = ncpu s" "lapic_id (bcore s) = lapic_id s"
  by (simp_all add: bcore_def)

lemma bframe_simps:
  assumes "bframe s s'"
  shows "disksize s' = disksize s" and "cpus s' = cpus s" and "ncpu s' = ncpu s" and "lapic_id s' = lapic_id s"
  using assms unfolding bframe_def by (metis bcore_simps)+

lemma mypid_running: "running s \<Longrightarrow> mypid s = Ret (me s)"
  by (auto simp: running_def me_def mypid_def split: option.splits)

lemma cur_cong: "cpus s' = cpus s \<Longrightarrow> ncpu s' = ncpu s \<Longrightarrow> lapic_id s' = lapic_id s \<Longrightarrow> cur s' = cur s"
  by (simp add: cur_def cong: option.case_cong)

lemma bframe_me:
  assumes "bframe s s'" and "running s"
  shows "running s'" and "me s' = me s"
proof -
  note f = bframe_simps [OF assms(1)]
  have m: "map p_pid (ptable s') = map p_pid (ptable s)" using assms(1) by (simp add: bframe_def)
  then have l: "length (ptable s') = length (ptable s)" by (rule map_eq_imp_length_eq)
  have c: "cur s' = cur s" by (rule cur_cong) (use f in auto)
  show "running s'" using assms(2) c l by (auto simp: running_def split: option.splits)
  show "me s' = me s"
    using assms(2) c l m nth_map [of _ "ptable s'" p_pid] nth_map [of _ "ptable s" p_pid]
    by (auto simp: running_def me_def split: option.splits)
qed

lemma find_buf_None_iff: "find_buf P is bs = None \<longleftrightarrow> (\<forall>i \<in> set is. \<not> P (bs ! i))"
  by (induction "is") auto

lemma find_buf_SomeD: "find_buf P is bs = Some i \<Longrightarrow> i \<in> set is \<and> P (bs ! i)"
  by (induction "is") (auto split: if_splits)

lemma bio_invD:
  assumes "bio_inv s"
  shows "running s" and "\<And>i. i < NBUF \<Longrightarrow> buf_ok (me s) (disksize s) (disk s) (bufs s ! i)"
    and "length (bufs s) = NBUF" and "distinct (lru s)" and "set (lru s) = {..<NBUF}"
    and "\<And>b. b < disksize s \<Longrightarrow> length (disk s b) = BSIZE"
    and "\<And>i j b. caches s i b \<Longrightarrow> caches s j b \<Longrightarrow> i = j"
  using assms unfolding bio_inv_def by blast+

lemma find_cached:
  assumes "bio_inv s"
  shows "find_buf (\<lambda>x. b_dev x = 1 \<and> b_blockno x = b) (lru s) (bufs s) =
    (if \<exists>i. caches s i b then Some (SOME i. caches s i b) else None)"
proof (cases "find_buf (\<lambda>x. b_dev x = 1 \<and> b_blockno x = b) (lru s) (bufs s)")
  case None
  then have "\<not> caches s i b" for i
    using bio_invD(5) [OF assms] by (auto simp: find_buf_None_iff caches_def)
  with None show ?thesis by simp
next
  case (Some j)
  from find_buf_SomeD [OF Some] have j: "caches s j b"
    using bio_invD(5) [OF assms] by (simp add: caches_def)
  then have "(SOME i. caches s i b) = j"
    using bio_invD(7) [OF assms] by (metis someI_ex)
  with Some j show ?thesis by auto
qed

lemma view_cached:
  assumes "bio_inv s" and "caches s i b"
  shows "view s b = b_data (bufs s ! i)"
proof -
  have "(SOME i. caches s i b) = i"
    using bio_invD(7) [OF assms(1)] assms(2) by (metis someI_ex)
  with assms show ?thesis by (auto simp: view_def find_cached)
qed

lemma view_uncached:
  assumes "bio_inv s" and "\<nexists>i. caches s i b"
  shows "view s b = disk s b"
  using assms by (simp add: view_def find_cached)

text \<open>Replacing one buffer by another for the same block, or for one that is not cached.\<close>

lemma caches_upd:
  assumes "bufs s' = (bufs s)[i := x]" and "length (bufs s) = NBUF"
  shows "caches s' j b \<longleftrightarrow> (if j = i then i < NBUF \<and> b_dev x = 1 \<and> b_blockno x = b else caches s j b)"
  using assms by (auto simp: caches_def nth_list_update)

lemma bio_inv_upd:
  assumes inv: "bio_inv s" and i: "i < NBUF" and x: "buf_ok (me s) (disksize s) (disk s') x"
    and e: "bufs s' = (bufs s)[i := x]" and uniq: "\<And>j. j \<noteq> i \<Longrightarrow> \<not> caches s j (b_blockno x)"
    and l: "distinct (lru s')" "set (lru s') = {..<NBUF}"
    and d: "\<And>b. b \<noteq> b_blockno x \<Longrightarrow> disk s' b = disk s b" "length (disk s' (b_blockno x)) = BSIZE"
    and f: "bframe s s'" and dev: "b_dev x = 1"
  shows "bio_inv s'"
proof -
  note I = bio_invD [OF inv]
  note fs = bframe_simps [OF f] bframe_me [OF f I(1)]
  have c: "caches s' j b \<longleftrightarrow> (if j = i then b_blockno x = b else caches s j b)" for j b
    using caches_upd [OF e I(3)] i dev by simp
  have "buf_ok (me s') (disksize s') (disk s') (bufs s' ! j)" if "j < NBUF" for j
  proof (cases "j = i")
    case True
    with x fs e i I(3) show ?thesis by simp
  next
    case False
    with I(2) [OF that] have o: "buf_ok (me s) (disksize s) (disk s) (bufs s ! j)" by simp
    have "b_dev (bufs s ! j) = 1 \<Longrightarrow> b_blockno (bufs s ! j) \<noteq> b_blockno x"
      using uniq [OF False] that by (auto simp: caches_def)
    with o d have "buf_ok (me s) (disksize s) (disk s') (bufs s ! j)" by (auto simp: buf_ok_def)
    with fs e False show ?thesis by simp
  qed
  moreover have "p = q" if "caches s' p b" "caches s' q b" for p q b
    using that I(7) uniq by (auto simp: c split: if_splits)
  moreover have "length (disk s' b) = BSIZE" if "b < disksize s'" for b
    using that d I(6) fs by (cases "b = b_blockno x") auto
  ultimately show ?thesis
    using fs l e I(3) unfolding bio_inv_def by (intro conjI allI impI) auto
qed

section \<open>Reading a block\<close>

text \<open>A buffer can be recycled as long as fewer than \<open>NBUF\<close> blocks are held or dirty.\<close>

lemma busy_blocks:
  assumes inv: "bio_inv s" and all: "\<And>i. i < NBUF \<Longrightarrow> b_refcnt (bufs s ! i) \<noteq> 0 \<or> b_dirty (bufs s ! i)"
    and fin: "finite (held s \<union> dirty s)"
  shows "NBUF \<le> card (held s \<union> dirty s)"
proof -
  note I = bio_invD [OF inv]
  let ?f = "\<lambda>i. b_blockno (bufs s ! i)"
  have c: "caches s i (?f i) \<and> (b_locked (bufs s ! i) \<or> b_dirty (bufs s ! i))" if "i < NBUF" for i
    using I(2) [OF that] all [OF that] that by (auto simp: buf_ok_def caches_def split: if_splits)
  have "inj_on ?f {..<NBUF}"
    using c I(7) by (intro inj_onI) (metis lessThan_iff)
  moreover have "?f ` {..<NBUF} \<subseteq> held s \<union> dirty s"
    using c by (auto simp: held_def dirty_def)
  ultimately show ?thesis
    using fin by (metis card_inj_on_le card_lessThan)
qed

lemma finite_busy: "finite (held s \<union> dirty s)"
proof -
  have "held s \<union> dirty s \<subseteq> (\<lambda>i. b_blockno (bufs s ! i)) ` {..<NBUF}"
    by (auto simp: held_def dirty_def caches_def)
  then show ?thesis by (rule finite_subset) simp
qed

lemma victim_exists:
  assumes inv: "bio_inv s" and room: "card (held s \<union> dirty s) < NBUF"
  obtains i where "find_buf (\<lambda>b. b_refcnt b = 0 \<and> \<not> b_dirty b) (rev (lru s)) (bufs s) = Some i"
    and "i < NBUF" and "b_refcnt (bufs s ! i) = 0" and "\<not> b_dirty (bufs s ! i)" and "\<not> b_locked (bufs s ! i)"
proof (cases "find_buf (\<lambda>b. b_refcnt b = 0 \<and> \<not> b_dirty b) (rev (lru s)) (bufs s)")
  case None
  then have "NBUF \<le> card (held s \<union> dirty s)"
    using bio_invD(5) [OF inv] by (intro busy_blocks [OF inv] finite_busy) (auto simp: find_buf_None_iff)
  with room show ?thesis by simp
next
  case (Some i)
  with find_buf_SomeD [OF Some] bio_invD(2,5) [OF inv] show ?thesis
    by (intro that [OF Some]) (auto simp: buf_ok_def split: if_splits)
qed

lemma holds_upd_other:
  assumes "bufs s' = (bufs s)[i := x]" and "j \<noteq> i"
  shows "holds s' j b \<longleftrightarrow> holds s j b"
  using assms by (simp add: holds_def caches_def)

text \<open>The state after one buffer has been replaced, as the layers above see it.\<close>

lemma view_upd:
  assumes inv: "bio_inv s" "bio_inv s'" and i: "i < NBUF" and dev: "b_dev x = 1" and e: "bufs s' = (bufs s)[i := x]"
    and old: "caches s i b' \<Longrightarrow> b' \<noteq> b_blockno x \<Longrightarrow> b_data (bufs s ! i) = disk s b'"
    and d: "\<And>b. b \<noteq> b_blockno x \<Longrightarrow> disk s' b = disk s b"
  shows "view s' b' = (if b' = b_blockno x then b_data x else view s b')"
proof -
  have c: "caches s' j b \<longleftrightarrow> (if j = i then b_blockno x = b else caches s j b)" for j b
    using caches_upd [OF e bio_invD(3) [OF inv(1)]] i dev by simp
  have xi: "bufs s' ! i = x" using e i bio_invD(3) [OF inv(1)] by simp
  show ?thesis
  proof (cases "b' = b_blockno x")
    case True
    then show ?thesis using view_cached [OF inv(2), of i b'] c xi by simp
  next
    case False
    show ?thesis
    proof (cases "\<exists>j. caches s' j b'")
      case True
      then obtain j where j: "caches s' j b'" by blast
      with False c have "j \<noteq> i" "caches s j b'" by (auto split: if_splits)
      with view_cached [OF inv(2) j] view_cached [OF inv(1)] e False show ?thesis by simp
    next
      case no: False
      have "view s b' = disk s b'"
      proof (cases "caches s i b'")
        case True
        with view_cached [OF inv(1)] old False show ?thesis by simp
      next
        case False
        with no c have "\<nexists>j. caches s j b'" by metis
        with view_uncached [OF inv(1)] show ?thesis by blast
      qed
      with view_uncached [OF inv(2) no] d False show ?thesis by simp
    qed
  qed
qed

lemma held_upd:
  assumes inv: "bio_inv s" and i: "i < NBUF" and dev: "b_dev x = 1" and e: "bufs s' = (bufs s)[i := x]"
  shows "held s' = {b \<in> held s. \<not> caches s i b} \<union> (if b_locked x then {b_blockno x} else {})"
    and "dirty s' = {b \<in> dirty s. \<not> caches s i b} \<union> (if b_dirty x then {b_blockno x} else {})"
proof -
  have c: "caches s' j b \<longleftrightarrow> (if j = i then b_blockno x = b else caches s j b)" for j b
    using caches_upd [OF e bio_invD(3) [OF inv]] i dev by simp
  have n: "bufs s' ! j = (if j = i then x else bufs s ! j)" for j
    using e i bio_invD(3) [OF inv] by (simp add: nth_list_update)
  show "held s' = {b \<in> held s. \<not> caches s i b} \<union> (if b_locked x then {b_blockno x} else {})"
    "dirty s' = {b \<in> dirty s. \<not> caches s i b} \<union> (if b_dirty x then {b_blockno x} else {})"
    using bio_invD(7) [OF inv] by (auto simp: held_def dirty_def c n split: if_splits; metis)+
qed

lemma cached_held:
  assumes "bio_inv s" and "caches s i b"
  shows "b \<in> held s \<longleftrightarrow> b_locked (bufs s ! i)" and "b \<in> dirty s \<longleftrightarrow> b_dirty (bufs s ! i)"
  using assms bio_invD(7) [OF assms(1)] unfolding held_def dirty_def by blast+

lemma caches_fun: "caches s i b \<Longrightarrow> caches s i c \<Longrightarrow> b = c"
  by (simp add: caches_def)

lemma bcore_upd_simps [simp]:
  "bcore (s\<lparr>bufs := B\<rparr>) = bcore s" "bcore (s\<lparr>lru := L\<rparr>) = bcore s"
  "bcore (s\<lparr>disk := D\<rparr>) = bcore s" "bcore (s\<lparr>dwrites := W\<rparr>) = bcore s" "bcore (s\<lparr>ptable := P\<rparr>) = bcore s"
  by (simp_all add: bcore_def)

lemma cur_upd_simps [simp]:
  "cur (s\<lparr>bufs := B\<rparr>) = cur s" "cur (s\<lparr>lru := L\<rparr>) = cur s" "cur (s\<lparr>disk := D\<rparr>) = cur s"
  "cur (s\<lparr>dwrites := W\<rparr>) = cur s" "cur (s\<lparr>ptable := P\<rparr>) = cur s"
  by (simp_all add: cur_def cong: option.case_cong)

lemma mypid_upd_simps [simp]:
  "mypid (s\<lparr>bufs := B\<rparr>) = mypid s" "mypid (s\<lparr>lru := L\<rparr>) = mypid s" "mypid (s\<lparr>disk := D\<rparr>) = mypid s"
  "mypid (s\<lparr>dwrites := W\<rparr>) = mypid s"
  by (simp_all add: mypid_def cong: option.case_cong)

definition taken :: "'a bio_state_scheme \<Rightarrow> buf \<Rightarrow> buf" where
  "taken s x = x\<lparr>b_refcnt := 1, b_lock := (b_lock x)\<lparr>sk_locked := True, sk_pid := me s\<rparr>\<rparr>"

lemma bread_cached:
  assumes inv: "bio_inv s" and c: "caches s i b" and h: "b \<notin> held s"
  shows "bread 1 b s = Ret (i, s\<lparr>bufs := (bufs s)[i := taken s (bufs s ! i)]\<rparr>)"
proof -
  note I = bio_invD [OF inv]
  have i: "i < NBUF" "b_dev (bufs s ! i) = 1" using c by (simp_all add: caches_def)
  have nl: "\<not> b_locked (bufs s ! i)" using c h by (auto simp: held_def)
  have o: "b_valid (bufs s ! i)" "b_refcnt (bufs s ! i) = 0" using I(2) [OF i(1)] i(2) nl by (auto simp: buf_ok_def)
  have "(SOME j. caches s j b) = i" using I(7) c by (metis someI_ex)
  with c have f: "find_buf (\<lambda>x. b_dev x = 1 \<and> b_blockno x = b) (lru s) (bufs s) = Some i"
    by (auto simp: find_cached [OF inv])
  have "bget 1 b s = Ret (i, s\<lparr>bufs := (bufs s)[i := taken s (bufs s ! i)]\<rparr>)"
    using i I(3) o nl mypid_running [OF I(1)]
    by (simp add: bget_def f lock_buf_def acquiresleep_def upd_buf_def taken_def)
  then show ?thesis using i I(3) o by (simp add: bread_def taken_def)
qed

definition recycled :: "'a bio_state_scheme \<Rightarrow> nat \<Rightarrow> buf \<Rightarrow> buf" where
  "recycled s b x = (taken s x)\<lparr>b_dev := 1, b_blockno := b, b_valid := True, b_dirty := False, b_data := disk s b\<rparr>"

lemma bread_uncached:
  assumes inv: "bio_inv s" and nc: "\<nexists>i. caches s i b" and b: "b < disksize s"
    and f2: "find_buf (\<lambda>b. b_refcnt b = 0 \<and> \<not> b_dirty b) (rev (lru s)) (bufs s) = Some i" and i: "i < NBUF"
    and nl: "\<not> b_locked (bufs s ! i)"
  shows "bread 1 b s = Ret (i, s\<lparr>bufs := (bufs s)[i := recycled s b (bufs s ! i)]\<rparr>)"
proof -
  note I = bio_invD [OF inv]
  have f: "find_buf (\<lambda>x. b_dev x = 1 \<and> b_blockno x = b) (lru s) (bufs s) = None"
    using nc by (auto simp: find_cached [OF inv])
  let ?x = "(taken s (bufs s ! i))\<lparr>b_dev := 1, b_blockno := b, b_valid := False, b_dirty := False\<rparr>"
  have "bget 1 b s = Ret (i, s\<lparr>bufs := (bufs s)[i := ?x]\<rparr>)"
    using i I(3) nl mypid_running [OF I(1)]
    by (simp add: bget_def f f2 lock_buf_def acquiresleep_def upd_buf_def taken_def)
      (rule arg_cong [where f = "\<lambda>x. s\<lparr>bufs := (bufs s)[i := x]\<rparr>"], rule buf.equality, simp_all)
  then show ?thesis using i I(3) b mypid_running [OF I(1)]
    by (simp add: bread_def taken_def recycled_def iderw_def holdingsleep_def upd_buf_def)
      (rule arg_cong [where f = "\<lambda>x. s\<lparr>bufs := (bufs s)[i := x]\<rparr>"], rule buf.equality, simp_all)
qed

lemma bread_spec:
  assumes inv: "bio_inv s" and b: "b < disksize s" and h: "b \<notin> held s"
    and room: "(\<exists>i. caches s i b) \<or> card (held s \<union> dirty s) < NBUF"
  obtains i s' where "bread 1 b s = Ret (i, s')" and "bio_inv s'" and "holds s' i b" and "view s' = view s"
    and "held s' = insert b (held s)" and "dirty s' = dirty s" and "disk s' = disk s" and "dwrites s' = dwrites s"
    and "bframe s s'" and "\<And>j c. holds s j c \<Longrightarrow> holds s' j c \<and> j \<noteq> i"
proof -
  note I = bio_invD [OF inv]
  obtain i x where r: "bread 1 b s = Ret (i, s\<lparr>bufs := (bufs s)[i := x]\<rparr>)" and i: "i < NBUF"
    and xb: "b_dev x = 1" "b_blockno x = b" "b_locked x" "b_data x = view s b"
    and x: "buf_ok (me s) (disksize s) (disk s) x" and u: "\<And>j. j \<noteq> i \<Longrightarrow> \<not> caches s j b"
    and old: "\<And>c. caches s i c \<Longrightarrow> c \<noteq> b \<Longrightarrow> b_data (bufs s ! i) = disk s c" and nl: "\<not> b_locked (bufs s ! i)"
    and dt: "b_dirty x \<longleftrightarrow> caches s i b \<and> b_dirty (bufs s ! i)" "b_dirty (bufs s ! i) \<Longrightarrow> caches s i b"
  proof (cases "\<exists>i. caches s i b")
    case True
    then obtain i where c: "caches s i b" by blast
    then have i: "i < NBUF" by (simp add: caches_def)
    have nl: "\<not> b_locked (bufs s ! i)" using c h by (auto simp: held_def)
    have u: "\<And>j. j \<noteq> i \<Longrightarrow> \<not> caches s j b" using I(7) c by blast
    have o: "buf_ok (me s) (disksize s) (disk s) (taken s (bufs s ! i))"
      using I(2) [OF i] nl c by (auto simp: taken_def buf_ok_def caches_def)
    show ?thesis
      by (rule that [OF bread_cached [OF inv c h] i _ _ _ _ o u _ nl])
        (use c view_cached [OF inv c] in \<open>simp_all add: taken_def caches_def\<close>)
  next
    case nc: False
    with room have rm: "card (held s \<union> dirty s) < NBUF" by blast
    obtain i where v: "find_buf (\<lambda>b. b_refcnt b = 0 \<and> \<not> b_dirty b) (rev (lru s)) (bufs s) = Some i"
      "i < NBUF" "\<not> b_dirty (bufs s ! i)" "\<not> b_locked (bufs s ! i)"
      by (rule victim_exists [OF inv rm]) blast
    have o: "buf_ok (me s) (disksize s) (disk s) (recycled s b (bufs s ! i))"
      using I(2) [OF v(2)] I(6) [OF b] b by (auto simp: recycled_def taken_def buf_ok_def)
    have old: "b_data (bufs s ! i) = disk s c" if "caches s i c" for c
      using that I(2) [OF v(2)] v by (auto simp: caches_def buf_ok_def)
    show ?thesis
      by (rule that [OF bread_uncached [OF inv nc b v(1,2,4)] v(2) _ _ _ _ o _ old v(4)])
        (use nc v view_uncached [OF inv nc] in \<open>simp_all add: recycled_def taken_def\<close>)
  qed
  let ?s = "s\<lparr>bufs := (bufs s)[i := x]\<rparr>"
  have e: "bufs ?s = (bufs s)[i := x]" by simp
  have fr: "bframe s ?s" by (simp add: bframe_def)
  have inv': "bio_inv ?s"
    by (rule bio_inv_upd [OF inv i _ e]) (use x xb u I(4-6) b fr in simp_all)
  have vw: "view ?s = view s"
  proof
    fix c
    show "view ?s c = view s c"
      using view_upd [OF inv inv' i xb(1) e, of c] old xb by auto
  qed
  have hd: "held ?s = insert b (held s)" "dirty ?s = dirty s"
    using held_upd [OF inv i xb(1) e] nl xb dt cached_held [OF inv, of i] caches_fun [of s i]
    by (auto dest: caches_fun)
  have "holds ?s j c \<and> j \<noteq> i" if "holds s j c" for j c
  proof -
    have ne: "j \<noteq> i" using that nl by (auto simp: holds_def)
    with holds_upd_other [OF e ne] that show ?thesis by simp
  qed
  moreover have "holds ?s i b" using i xb I(3) by (simp add: holds_def caches_def)
  ultimately show ?thesis
    by (intro that [OF r inv']) (use vw hd fr in auto)
qed

section \<open>Writing and releasing a block\<close>

lemma holds_data:
  assumes "bio_inv s" and "holds s i b"
  shows "b_data (bufs s ! i) = view s b" and "b < disksize s" and "b \<in> held s" and "length (view s b) = BSIZE"
  using assms bio_invD(2) [OF assms(1), of i] view_cached [OF assms(1), of i b]
  by (auto simp: holds_def caches_def buf_ok_def held_def)

lemma holds_uniq:
  assumes "bio_inv s" and "holds s i b" and "caches s j b"
  shows "j = i"
  using assms bio_invD(7) [OF assms(1)] by (auto simp: holds_def)

lemma holdingsleep_holds:
  assumes "bio_inv s" and "holds s i b"
  shows "holdingsleep (b_lock (bufs s ! i)) s = Ret True"
  using assms bio_invD(2) [OF assms(1), of i] mypid_running [OF bio_invD(1) [OF assms(1)]]
  by (auto simp: holds_def caches_def buf_ok_def holdingsleep_def)

text \<open>Replacing the buffer that holds block \<open>b\<close> by one for the same block.\<close>

lemma replace_held:
  fixes s s' :: "'a bio_state_scheme"
  assumes inv: "bio_inv s" and h: "holds s i b" and x: "b_dev x = 1" "b_blockno x = b"
    and o: "buf_ok (me s) (disksize s) (disk s') x" and e: "bufs s' = (bufs s)[i := x]"
    and l: "distinct (lru s')" "set (lru s') = {..<NBUF}"
    and d: "\<And>c. c \<noteq> b \<Longrightarrow> disk s' c = disk s c" "length (disk s' b) = BSIZE" and f: "bframe s s'"
  shows "bio_inv s'" and "view s' = (view s)(b := b_data x)"
    and "held s' = held s - {b} \<union> (if b_locked x then {b} else {})"
    and "dirty s' = dirty s - {b} \<union> (if b_dirty x then {b} else {})"
    and "holds s' j c \<longleftrightarrow> (if j = i then b_locked x \<and> c = b else holds s j c)"
proof -
  note I = bio_invD [OF inv]
  have c: "caches s i b" "b_locked (bufs s ! i)" using h by (simp_all add: holds_def)
  have i: "i < NBUF" using c(1) by (simp add: caches_def)
  have u: "\<And>j. j \<noteq> i \<Longrightarrow> \<not> caches s j b" using holds_uniq [OF inv h] by blast
  show inv': "bio_inv s'"
    by (rule bio_inv_upd [OF inv i o e]) (use x u l d f in simp_all)
  show "view s' = (view s)(b := b_data x)"
  proof
    fix k
    show "view s' k = ((view s)(b := b_data x)) k"
      using view_upd [OF inv inv' i x(1) e, of k] x d(1) caches_fun [OF c(1)] by (simp split: if_splits)
  qed
  have "caches s i k \<longleftrightarrow> k = b" for k
    using c(1) by (auto simp: caches_def)
  then have "{k \<in> X. \<not> caches s i k} = X - {b}" for X
    by auto
  then show "held s' = held s - {b} \<union> (if b_locked x then {b} else {})"
    and "dirty s' = dirty s - {b} \<union> (if b_dirty x then {b} else {})"
    using held_upd [OF inv i x(1) e] x(2) by simp_all
  show "holds s' j c \<longleftrightarrow> (if j = i then b_locked x \<and> c = b else holds s j c)"
    using I(3) e i x by (auto simp: holds_def caches_def nth_list_update)
qed

text \<open>Changing the data of a held buffer.\<close>

lemma setdata_spec:
  fixes s :: "'a bio_state_scheme"
  assumes inv: "bio_inv s" and h: "holds s i b" and l: "length d = BSIZE"
    and s': "s' = upd_buf i (\<lambda>x. x\<lparr>b_data := d\<rparr>) s"
  shows "bio_inv s'" and "view s' = (view s)(b := d)" and "held s' = held s" and "dirty s' = dirty s"
    and "disk s' = disk s" and "dwrites s' = dwrites s" and "bframe s s'" and "holds s' j c \<longleftrightarrow> holds s j c"
proof -
  note I = bio_invD [OF inv]
  let ?x = "(bufs s ! i)\<lparr>b_data := d\<rparr>"
  have c: "caches s i b" "b_locked (bufs s ! i)" using h by (simp_all add: holds_def)
  have i: "i < NBUF" "b_dev ?x = 1" "b_blockno ?x = b" using c(1) by (simp_all add: caches_def)
  have e: "bufs s' = (bufs s)[i := ?x]" by (simp add: s' upd_buf_def)
  have r: "lru s' = lru s" by (simp add: s' upd_buf_def)
  show ds: "disk s' = disk s" "dwrites s' = dwrites s" by (simp_all add: s' upd_buf_def)
  show fr: "bframe s s'" by (simp add: bframe_def s' upd_buf_def)
  have o: "buf_ok (me s) (disksize s) (disk s') ?x"
    using I(2) [OF i(1)] i c l by (auto simp: buf_ok_def)
  have b: "length (disk s b) = BSIZE" using holds_data [OF inv h] I(6) by simp
  have l': "distinct (lru s')" "set (lru s') = {..<NBUF}" using I(4,5) r by simp_all
  have d': "\<And>c. c \<noteq> b \<Longrightarrow> disk s' c = disk s c" "length (disk s' b) = BSIZE" using ds b by simp_all
  note R = replace_held [OF inv h i(2,3) o e l' d' fr]
  show "bio_inv s'" by (rule R(1))
  show "view s' = (view s)(b := d)" using R(2) by simp
  show "held s' = held s" "dirty s' = dirty s"
    using R(3,4) c cached_held [OF inv c(1)] by auto
  show "holds s' j c \<longleftrightarrow> holds s j c"
    using R(5) [of j c] c h caches_fun [OF c(1), of c] by (auto simp: holds_def)
qed

text \<open>Marking a held buffer dirty.\<close>

lemma setdirty_spec:
  fixes s :: "'a bio_state_scheme"
  assumes inv: "bio_inv s" and h: "holds s i b" and s': "s' = upd_buf i (\<lambda>x. x\<lparr>b_dirty := True\<rparr>) s"
  shows "bio_inv s'" and "view s' = view s" and "held s' = held s" and "dirty s' = insert b (dirty s)"
    and "disk s' = disk s" and "dwrites s' = dwrites s" and "bframe s s'" and "holds s' j c \<longleftrightarrow> holds s j c"
proof -
  note I = bio_invD [OF inv]
  let ?x = "(bufs s ! i)\<lparr>b_dirty := True\<rparr>"
  have c: "caches s i b" "b_locked (bufs s ! i)" using h by (simp_all add: holds_def)
  have i: "i < NBUF" "b_dev ?x = 1" "b_blockno ?x = b" using c(1) by (simp_all add: caches_def)
  have e: "bufs s' = (bufs s)[i := ?x]" by (simp add: s' upd_buf_def)
  have r: "lru s' = lru s" by (simp add: s' upd_buf_def)
  show ds: "disk s' = disk s" "dwrites s' = dwrites s" by (simp_all add: s' upd_buf_def)
  show fr: "bframe s s'" by (simp add: bframe_def s' upd_buf_def)
  have o: "buf_ok (me s) (disksize s) (disk s') ?x"
    using I(2) [OF i(1)] i c by (auto simp: buf_ok_def)
  have b: "length (disk s b) = BSIZE" using holds_data [OF inv h] I(6) by simp
  have l': "distinct (lru s')" "set (lru s') = {..<NBUF}" using I(4,5) r by simp_all
  have d': "\<And>c. c \<noteq> b \<Longrightarrow> disk s' c = disk s c" "length (disk s' b) = BSIZE" using ds b by simp_all
  note R = replace_held [OF inv h i(2,3) o e l' d' fr]
  show "bio_inv s'" by (rule R(1))
  show "view s' = view s" using R(2) holds_data(1) [OF inv h] by simp
  show "held s' = held s" "dirty s' = insert b (dirty s)"
    using R(3,4) c cached_held [OF inv c(1)] by auto
  show "holds s' j c \<longleftrightarrow> holds s j c"
    using R(5) [of j c] c h caches_fun [OF c(1), of c] by (auto simp: holds_def)
qed

text \<open>\<open>bwrite\<close> writes the contents of a held buffer to the disk.\<close>

lemma bwrite_spec:
  fixes s :: "'a bio_state_scheme"
  assumes inv: "bio_inv s" and h: "holds s i b"
  obtains s' where "bwrite i s = Ret s'" and "bio_inv s'" and "view s' = view s" and "held s' = held s"
    and "dirty s' = dirty s - {b}" and "disk s' = (disk s)(b := view s b)"
    and "dwrites s' = dwrites s @ [(b, view s b)]" and "bframe s s'" and "\<And>j c. holds s' j c \<longleftrightarrow> holds s j c"
proof -
  note I = bio_invD [OF inv]
  let ?x = "(bufs s ! i)\<lparr>b_dirty := False, b_valid := True\<rparr>"
  let ?s = "s\<lparr>disk := (disk s)(b := view s b), dwrites := dwrites s @ [(b, view s b)], bufs := (bufs s)[i := ?x]\<rparr>"
  have c: "caches s i b" "b_locked (bufs s ! i)" using h by (simp_all add: holds_def)
  have i: "i < NBUF" "b_dev ?x = 1" "b_blockno ?x = b" using c(1) by (simp_all add: caches_def)
  note hd = holds_data [OF inv h]
  have r: "bwrite i s = Ret ?s"
    using I(2) [OF i(1)] c i I(3) hd mypid_running [OF I(1)]
    by (simp add: bwrite_def iderw_def upd_buf_def holdingsleep_def buf_ok_def Let_def)
  have e: "bufs ?s = (bufs s)[i := ?x]" by simp
  have fr: "bframe s ?s" by (simp add: bframe_def)
  have o: "buf_ok (me s) (disksize s) (disk ?s) ?x"
    using I(2) [OF i(1)] i c by (auto simp: buf_ok_def)
  have l': "distinct (lru ?s)" "set (lru ?s) = {..<NBUF}" using I(4,5) by simp_all
  have d': "\<And>c. c \<noteq> b \<Longrightarrow> disk ?s c = disk s c" "length (disk ?s b) = BSIZE" using hd by simp_all
  note R = replace_held [OF inv h i(2,3) o e l' d' fr]
  show ?thesis
  proof (rule that [OF r R(1)])
    show "view ?s = view s" using R(2) hd(1) by simp
    show "held ?s = held s" "dirty ?s = dirty s - {b}"
      using R(3,4) c cached_held [OF inv c(1)] by auto
    show "holds ?s j c \<longleftrightarrow> holds s j c" for j c
      using R(5) [of j c] c h caches_fun [OF c(1), of c] by (auto simp: holds_def)
  qed (use fr in simp_all)
qed

text \<open>\<open>brelse\<close> unlocks a buffer; its contents must be on the disk or be marked dirty.\<close>

lemma bcore_wakeup [simp]: "bcore (wakeup c s) = bcore s"
  by (simp add: wakeup_def wakeup1_def)

lemma wakeup_simps [simp]:
  "bufs (wakeup c s) = bufs s" "lru (wakeup c s) = lru s" "disk (wakeup c s) = disk s" "dwrites (wakeup c s) = dwrites s"
  "map p_pid (ptable (wakeup c s)) = map p_pid (ptable s)"
  by (simp_all add: wakeup_def wakeup1_def)

lemma brelse_spec:
  fixes s :: "'a bio_state_scheme"
  assumes inv: "bio_inv s" and h: "holds s i b" and cl: "b \<in> dirty s \<or> view s b = disk s b"
  obtains s' where "brelse i s = Ret s'" and "bio_inv s'" and "view s' = view s" and "held s' = held s - {b}"
    and "dirty s' = dirty s" and "disk s' = disk s" and "dwrites s' = dwrites s" and "bframe s s'"
    and "\<And>j c. holds s' j c \<longleftrightarrow> holds s j c \<and> j \<noteq> i"
proof -
  note I = bio_invD [OF inv]
  let ?x = "(bufs s ! i)\<lparr>b_lock := (b_lock (bufs s ! i))\<lparr>sk_locked := False, sk_pid := 0\<rparr>, b_refcnt := 0\<rparr>"
  let ?s = "(wakeup (ChanBuf i) s)\<lparr>bufs := (bufs s)[i := ?x], lru := i # remove1 i (lru s)\<rparr>"
  have c: "caches s i b" "b_locked (bufs s ! i)" using h by (simp_all add: holds_def)
  have i: "i < NBUF" "b_dev ?x = 1" "b_blockno ?x = b" using c(1) by (simp_all add: caches_def)
  note hd = holds_data [OF inv h]
  have rc: "b_refcnt (bufs s ! i) = 1" using I(2) [OF i(1)] c by (simp add: buf_ok_def)
  have r: "brelse i s = Ret ?s"
    using holdingsleep_holds [OF inv h] i(1) I(3) rc
    by (simp add: brelse_def releasesleep_def upd_buf_def)
  have e: "bufs ?s = (bufs s)[i := ?x]" by simp
  have fr: "bframe s ?s" by (simp add: bframe_def)
  have o: "buf_ok (me s) (disksize s) (disk ?s) ?x"
    using I(2) [OF i(1)] i c cl hd cached_held [OF inv c(1)] by (auto simp: buf_ok_def)
  have l': "distinct (lru ?s)" "set (lru ?s) = {..<NBUF}" using I(4,5) i(1) by auto
  have d': "\<And>c. c \<noteq> b \<Longrightarrow> disk ?s c = disk s c" "length (disk ?s b) = BSIZE" using hd I(6) by simp_all
  note R = replace_held [OF inv h i(2,3) o e l' d' fr]
  show ?thesis
  proof (rule that [OF r R(1)])
    show "view ?s = view s" using R(2) hd(1) by simp
    show "held ?s = held s - {b}" "dirty ?s = dirty s"
      using R(3,4) c cached_held [OF inv c(1)] by auto
    show "holds ?s j c \<longleftrightarrow> holds s j c \<and> j \<noteq> i" for j c
      using R(5) [of j c] by simp
  qed (use fr in simp_all)
qed

section \<open>The cache at rest\<close>

lemma card_insert_less: "finite A \<Longrightarrow> card A + 1 < n \<Longrightarrow> card (insert x A) < n"
  by (simp add: card_insert_if)

lemma finite_dirty [simp]: "finite (dirty s)" and finite_held [simp]: "finite (held s)"
  using finite_busy [of s] by auto

lemma dirty_cached: "b \<in> dirty s \<Longrightarrow> \<exists>i. caches s i b"
  by (auto simp: dirty_def)

text \<open>A cache at rest: the invariant holds and no buffer is locked.\<close>

definition at_rest :: "'a bio_state_scheme \<Rightarrow> bool" where
  "at_rest s \<longleftrightarrow> bio_inv s \<and> held s = {} \<and> card (dirty s) < NBUF"

lemma unheld_clean:
  assumes inv: "bio_inv s" and h: "b \<notin> held s" and d: "b \<notin> dirty s"
  shows "view s b = disk s b"
proof (cases "\<exists>i. caches s i b")
  case True
  then obtain i where c: "caches s i b" by blast
  have i: "i < NBUF" using c by (simp add: caches_def)
  from view_cached [OF inv c] bio_invD(2) [OF inv i] cached_held [OF inv c] h d c show ?thesis
    by (auto simp: buf_ok_def caches_def)
next
  case False
  with view_uncached [OF inv] show ?thesis by blast
qed

lemma at_rest_clean: "at_rest s \<Longrightarrow> b \<notin> dirty s \<Longrightarrow> view s b = disk s b"
  by (rule unheld_clean) (auto simp: at_rest_def)

lemma cache_cong:
  fixes s s' :: "'a bio_state_scheme"
  assumes "bufs s' = bufs s" and "lru s' = lru s" and "disk s' = disk s" and "disksize s' = disksize s"
    and "cpus s' = cpus s" and "ncpu s' = ncpu s" and "lapic_id s' = lapic_id s" and "ptable s' = ptable s"
  shows "bio_inv s' = bio_inv s" and "view s' = view s" and "held s' = held s" and "dirty s' = dirty s"
    and "holds s' = holds s" and "at_rest s' = at_rest s"
proof -
  have c: "cur s' = cur s" by (rule cur_cong) (use assms in auto)
  have k: "caches s' = caches s" by (simp add: caches_def assms fun_eq_iff)
  have m: "running s' = running s" "me s' = me s"
    by (simp_all add: running_def me_def c assms cong: option.case_cong)
  show i: "bio_inv s' = bio_inv s" unfolding bio_inv_def k m assms ..
  show "view s' = view s" unfolding view_def assms ..
  show h: "held s' = held s" "dirty s' = dirty s" unfolding held_def dirty_def k assms by simp_all
  show "holds s' = holds s" by (simp add: holds_def k assms fun_eq_iff)
  show "at_rest s' = at_rest s" unfolding at_rest_def i h ..
qed

text \<open>Waking processes does not concern the cache.\<close>

lemma cache_wakeup:
  fixes s :: "'a bio_state_scheme"
  shows "view (wakeup c s) = view s" and "held (wakeup c s) = held s" and "dirty (wakeup c s) = dirty s"
    and "bio_inv s \<Longrightarrow> bio_inv (wakeup c s)" and "at_rest s \<Longrightarrow> at_rest (wakeup c s)" and "bframe s (wakeup c s)"
proof -
  let ?s = "wakeup c s"
  show bf: "bframe s ?s" by (simp add: bframe_def)
  have k: "caches ?s = caches s" by (simp add: caches_def fun_eq_iff)
  show "view ?s = view s" by (simp add: view_def fun_eq_iff cong: option.case_cong)
  show h: "held ?s = held s" "dirty ?s = dirty s" by (simp_all add: held_def dirty_def k)
  show i: "bio_inv ?s" if "bio_inv s"
    unfolding bio_inv_def k bframe_simps(1) [OF bf] bframe_me(2) [OF bf bio_invD(1) [OF that]] wakeup_simps
    using bframe_me(1) [OF bf] that unfolding bio_inv_def by simp
  show "at_rest ?s" if "at_rest s" using that h i by (simp add: at_rest_def)
qed

text \<open>Reading one block at rest, and changing one block on the disk through the cache.\<close>

lemma read_block_spec:
  assumes r: "at_rest s" and b: "b < disksize s"
  obtains i s1 s2 where "bread 1 b s = Ret (i, s1)" and "b_data (bufs s1 ! i) = view s b" and "brelse i s1 = Ret s2"
    and "at_rest s2" and "view s2 = view s" and "dirty s2 = dirty s" and "disk s2 = disk s"
    and "dwrites s2 = dwrites s" and "bframe s s1" and "bframe s1 s2"
    and "bio_inv s1" and "holds s1 i b" and "view s1 = view s" and "held s1 = {b}" and "dirty s1 = dirty s"
    and "disk s1 = disk s" and "dwrites s1 = dwrites s"
proof -
  have inv: "bio_inv s" and hd: "held s = {}" and cd: "card (dirty s) < NBUF" using r by (auto simp: at_rest_def)
  obtain i s1 where 1: "bread 1 b s = Ret (i, s1)" "bio_inv s1" "holds s1 i b" "view s1 = view s"
    "held s1 = insert b (held s)" "dirty s1 = dirty s" "disk s1 = disk s" "dwrites s1 = dwrites s" "bframe s s1"
    by (rule bread_spec [OF inv b]) (use hd cd in auto)
  obtain s2 where 2: "brelse i s1 = Ret s2" "bio_inv s2" "view s2 = view s1" "held s2 = held s1 - {b}"
    "dirty s2 = dirty s1" "disk s2 = disk s1" "dwrites s2 = dwrites s1" "bframe s1 s2"
    by (rule brelse_spec [OF 1(2,3)]) (use 1 at_rest_clean [OF r, of b] in auto)
  show ?thesis
    by (rule that [OF 1(1) _ 2(1)]) (use 1 2 holds_data(1) [OF 1(2,3)] hd cd in \<open>auto simp: at_rest_def\<close>)
qed

lemma change_block_spec:
  assumes r: "at_rest s" and b: "b < disksize s" "b \<notin> dirty s" and l: "length (g (view s b)) = BSIZE"
  obtains i s1 s2 s3 where "bread 1 b s = Ret (i, s1)"
    and "bwrite i (upd_buf i (\<lambda>x. x\<lparr>b_data := g (b_data x)\<rparr>) s1) = Ret s2" and "brelse i s2 = Ret s3"
    and "at_rest s3" and "view s3 = (view s)(b := g (view s b))" and "dirty s3 = dirty s"
    and "disk s3 = (disk s)(b := g (view s b))" and "dwrites s3 = dwrites s @ [(b, g (view s b))]"
    and "bframe s s1" and "bframe s1 s3"
proof -
  have cd: "card (dirty s) < NBUF" using r by (auto simp: at_rest_def)
  obtain i s1 where 1: "bread 1 b s = Ret (i, s1)" "b_data (bufs s1 ! i) = view s b" "bframe s s1" "bio_inv s1"
    "holds s1 i b" "view s1 = view s" "held s1 = {b}" "dirty s1 = dirty s" "disk s1 = disk s" "dwrites s1 = dwrites s"
    by (rule read_block_spec [OF r b(1)]) blast
  let ?s = "upd_buf i (\<lambda>x. x\<lparr>b_data := g (b_data x)\<rparr>) s1"
  have e: "?s = upd_buf i (\<lambda>x. x\<lparr>b_data := g (view s b)\<rparr>) s1" by (simp add: upd_buf_def 1(2))
  note 2 = setdata_spec [OF 1(4,5) l e]
  obtain s2 where 3: "bwrite i ?s = Ret s2" "bio_inv s2" "view s2 = view ?s" "held s2 = held ?s"
    "dirty s2 = dirty ?s - {b}" "disk s2 = (disk ?s)(b := view ?s b)" "dwrites s2 = dwrites ?s @ [(b, view ?s b)]"
    "bframe ?s s2" "holds s2 i b"
    by (rule bwrite_spec [OF 2(1), of i b]) (use 2(8) [of i b] 1(5) in auto)
  obtain s3 where 4: "brelse i s2 = Ret s3" "bio_inv s3" "view s3 = view s2" "held s3 = held s2 - {b}"
    "dirty s3 = dirty s2" "disk s3 = disk s2" "dwrites s3 = dwrites s2" "bframe s2 s3"
    by (rule brelse_spec [OF 3(2,9)]) (use 3 in auto)
  show ?thesis
  proof (rule that [OF 1(1) 3(1) 4(1)])
    show "at_rest s3" using 4 3 2 1 cd b by (auto simp: at_rest_def)
    show "bframe s1 s3" using 2(7) 3(8) 4(8) by (blast intro: bframe_trans)
  qed (use 1 2 3 4 b in auto)
qed

section \<open>Initialisation\<close>

text \<open>Zeroed buffers, and a kernel state around them in which the first process runs on the only CPU.\<close>

definition zero_buf :: buf where
  "zero_buf = \<lparr>b_valid = False, b_dirty = False, b_dev = 0, b_blockno = 0,
     b_lock = \<lparr>sk_locked = False, sk_name = [], sk_pid = 0\<rparr>, b_refcnt = 0, b_data = replicate BSIZE 0\<rparr>"

definition bss_vm :: vm_state where
  "bss_vm = con_state.extend (kmem_state.extend (kstate.extend
     (bss_kstate\<lparr>cpus := map (\<lambda>c. c\<lparr>c_proc := Some 0\<rparr>) (cpus bss_kstate),
        ptable := (zero_proc\<lparr>p_pid := 1, p_state := RUNNING\<rparr>) # replicate (NPROC - 1) zero_proc\<rparr>)
     (kmem_state.fields (\<lambda>_. 0) 0 False 0)) (con_state.fields (\<lambda>_. 0) 0 False [] False)) (vm_state.fields 0 0)"

definition bss_bio :: "(nat \<Rightarrow> uchar list) \<Rightarrow> nat \<Rightarrow> bio_state" where
  "bss_bio d n = vm_state.extend bss_vm (bio_state.fields (replicate NBUF zero_buf) [] d n [])"

lemmas bss_simps = bss_bio_def bss_vm_def bss_kstate_def up_mach_def mach.defs kstate.defs kmem_state.defs
  con_state.defs vm_state.defs bio_state.defs

lemma running_bss: "running (bss_bio d n)" "me (bss_bio d n) = 1"
  by (simp_all add: running_def me_def cur_def bss_simps NPROC_def)

lemma binit_fold:
  assumes "k \<le> length (bufs s)"
  shows "fold (\<lambda>i s. (upd_buf i (\<lambda>b. b\<lparr>b_lock := lk\<rparr>) s)\<lparr>lru := i # lru s\<rparr>) [0..<k] s =
    s\<lparr>bufs := map (\<lambda>b. b\<lparr>b_lock := lk\<rparr>) (take k (bufs s)) @ drop k (bufs s), lru := rev [0..<k] @ lru s\<rparr>"
  using assms
proof (induction k)
  case (Suc k)
  have "(map (\<lambda>b. b\<lparr>b_lock := lk\<rparr>) (take k (bufs s)) @ drop k (bufs s))[k := (bufs s ! k)\<lparr>b_lock := lk\<rparr>] =
      map (\<lambda>b. b\<lparr>b_lock := lk\<rparr>) (take (Suc k) (bufs s)) @ drop (Suc k) (bufs s)"
    using Suc.prems Cons_nth_drop_Suc [of k "bufs s", symmetric]
    by (simp add: list_update_append take_Suc_conv_app_nth)
  then show ?case
    using Suc by (simp add: upd_buf_def nth_append)
qed simp

text \<open>\<open>binit\<close> establishes the invariant.\<close>

lemma binit_spec:
  fixes s :: "'a bio_state_scheme"
  assumes z: "bufs s = replicate NBUF zero_buf" and r: "running s"
    and d: "\<And>b. b < disksize s \<Longrightarrow> length (disk s b) = BSIZE"
  shows "bio_inv (binit s)" and "\<And>i. i < NBUF \<Longrightarrow> b_dev (bufs (binit s) ! i) = 0" and "bframe s (binit s)"
    and "disk (binit s) = disk s"
proof -
  let ?x = "zero_buf\<lparr>b_lock := initsleeplock ''buffer''\<rparr>"
  have e: "binit s = s\<lparr>lru := rev [0..<NBUF], bufs := replicate NBUF ?x\<rparr>"
    using binit_fold [of NBUF "s\<lparr>lru := []\<rparr>" "initsleeplock ''buffer''"] z by (simp add: binit_def)
  have n: "bufs (binit s) ! i = ?x" if "i < NBUF" for i using that by (simp add: e)
  show fr: "bframe s (binit s)" by (simp add: e bframe_def)
  show "i < NBUF \<Longrightarrow> b_dev (bufs (binit s) ! i) = 0" for i by (simp add: n zero_buf_def)
  show ds: "disk (binit s) = disk s" by (simp add: e)
  have nc: "\<not> caches (binit s) i b" for i b by (auto simp: caches_def n zero_buf_def)
  have ok: "buf_ok p q w ?x" for p q w by (simp add: buf_ok_def zero_buf_def initsleeplock_def)
  show "bio_inv (binit s)"
    unfolding bio_inv_def
    by (intro conjI allI impI) (use bframe_me(1) [OF fr r] n ok nc d ds bframe_simps(1) [OF fr] in \<open>auto simp: e\<close>)
qed

section \<open>A store of blocks\<close>

text \<open>What the layers above use a store of blocks for: \<open>rd\<close> gives the contents of a block, \<open>wr\<close> replaces
  them. \<open>ok n\<close> says that the store is in order and has room for \<open>n\<close> more writes.\<close>

locale block_store =
  fixes rd :: "nat \<Rightarrow> 's \<Rightarrow> (uchar list \<times> 's) res"
    and wr :: "nat \<Rightarrow> uchar list \<Rightarrow> 's \<Rightarrow> 's res"
    and abs :: "'s \<Rightarrow> nat \<Rightarrow> uchar list"
    and ok :: "nat \<Rightarrow> 's \<Rightarrow> bool"
    and usable :: "'s \<Rightarrow> nat \<Rightarrow> bool"
  assumes rd_law: "ok n s \<Longrightarrow> usable s b \<Longrightarrow>
      \<exists>s'. rd b s = Ret (abs s b, s') \<and> ok n s' \<and> abs s' = abs s \<and> usable s' = usable s"
    and wr_law: "ok (Suc n) s \<Longrightarrow> usable s b \<Longrightarrow> length d = BSIZE \<Longrightarrow>
      \<exists>s'. wr b d s = Ret s' \<and> ok n s' \<and> abs s' = (abs s)(b := d) \<and> usable s' = usable s"

datatype bop = Rd nat | Wr nat "uchar list"

text \<open>A sequence of reads and writes, with the contents read; on a store and on a plain function.\<close>

primrec run_bops ::
    "(nat \<Rightarrow> 's \<Rightarrow> (uchar list \<times> 's) res) \<Rightarrow> (nat \<Rightarrow> uchar list \<Rightarrow> 's \<Rightarrow> 's res) \<Rightarrow> bop list \<Rightarrow> 's \<Rightarrow>
     (uchar list list \<times> 's) res" where
  "run_bops rd wr [] s = Ret ([], s)"
| "run_bops rd wr (p # ps) s =
     (case p of
        Rd b \<Rightarrow> bnd (rd b s) (\<lambda>(d, s). bnd (run_bops rd wr ps s) (\<lambda>(ds, s). Ret (d # ds, s)))
      | Wr b d \<Rightarrow> bnd (wr b d s) (run_bops rd wr ps))"

primrec spec_bops :: "bop list \<Rightarrow> (nat \<Rightarrow> uchar list) \<Rightarrow> uchar list list \<times> (nat \<Rightarrow> uchar list)" where
  "spec_bops [] m = ([], m)"
| "spec_bops (p # ps) m =
     (case p of Rd b \<Rightarrow> (let (ds, m') = spec_bops ps m in (m b # ds, m')) | Wr b d \<Rightarrow> spec_bops ps (m(b := d)))"

primrec bop_ok :: "(nat \<Rightarrow> bool) \<Rightarrow> bop \<Rightarrow> bool" where
  "bop_ok P (Rd b) = P b"
| "bop_ok P (Wr b d) = (P b \<and> length d = BSIZE)"

primrec writes_in :: "bop list \<Rightarrow> nat" where
  "writes_in [] = 0"
| "writes_in (p # ps) = (case p of Rd _ \<Rightarrow> writes_in ps | Wr _ _ \<Rightarrow> Suc (writes_in ps))"

context block_store
begin

lemma run_refines:
  assumes "ok (n + writes_in ps) s" and "list_all (bop_ok (usable s)) ps"
  shows "\<exists>s'. run_bops rd wr ps s = Ret (fst (spec_bops ps (abs s)), s') \<and> ok n s' \<and>
    abs s' = snd (spec_bops ps (abs s)) \<and> usable s' = usable s"
  using assms
proof (induction ps arbitrary: s)
  case (Cons p ps)
  show ?case
  proof (cases p)
    case (Rd b)
    with Cons.prems obtain s1 where 1: "rd b s = Ret (abs s b, s1)" "ok (n + writes_in ps) s1" "abs s1 = abs s"
        "usable s1 = usable s"
      using rd_law [of "n + writes_in ps" s b] by auto
    with Cons.IH [of s1] Cons.prems Rd show ?thesis by (auto split: prod.splits)
  next
    case (Wr b d)
    with Cons.prems obtain s1 where 1: "wr b d s = Ret s1" "ok (n + writes_in ps) s1" "abs s1 = (abs s)(b := d)"
        "usable s1 = usable s"
      using wr_law [of "n + writes_in ps" s b d] by auto
    with Cons.IH [of s1] Cons.prems Wr show ?thesis by (auto simp: fun_upd_def)
  qed
qed simp

end

text \<open>The buffer cache with the write-through idiom of \<open>log.c\<close>: \<open>bread\<close>, change the data, \<open>bwrite\<close>,
  \<open>brelse\<close>.\<close>

definition get_block :: "nat \<Rightarrow> 'a bio_state_scheme \<Rightarrow> (uchar list \<times> 'a bio_state_scheme) res" where
  "get_block b s = bnd (bread 1 b s) (\<lambda>(i, s). let d = b_data (bufs s ! i) in bnd (brelse i s) (\<lambda>s. Ret (d, s)))"

definition put_block :: "nat \<Rightarrow> uchar list \<Rightarrow> 'a bio_state_scheme \<Rightarrow> 'a bio_state_scheme res" where
  "put_block b d s =
     bnd (bread 1 b s) (\<lambda>(i, s). bnd (bwrite i (upd_buf i (\<lambda>x. x\<lparr>b_data := d\<rparr>) s)) (brelse i))"

interpretation cache_store: block_store get_block put_block view
  "\<lambda>n s. at_rest s \<and> dirty s = {}" "\<lambda>s b. b < disksize s"
proof
  fix n and s :: "'a bio_state_scheme" and b
  assume a: "at_rest s \<and> dirty s = {}" and b: "b < disksize s"
  obtain i s1 s2 where 1: "bread 1 b s = Ret (i, s1)" "b_data (bufs s1 ! i) = view s b" "brelse i s1 = Ret s2"
    "at_rest s2" "view s2 = view s" "dirty s2 = dirty s" "bframe s s1" "bframe s1 s2"
    by (rule read_block_spec [of s b]) (use a b in auto)
  then show "\<exists>s'. get_block b s = Ret (view s b, s') \<and> (at_rest s' \<and> dirty s' = {}) \<and> view s' = view s \<and>
      (\<lambda>b. b < disksize s') = (\<lambda>b. b < disksize s)"
    using a bframe_simps(1) [OF 1(7)] bframe_simps(1) [OF 1(8)] by (simp add: get_block_def)
next
  fix n and s :: "'a bio_state_scheme" and b and d :: "uchar list"
  assume a: "at_rest s \<and> dirty s = {}" and b: "b < disksize s" and l: "length d = BSIZE"
  obtain i s1 s2 s3 where 1: "bread 1 b s = Ret (i, s1)" "bwrite i (upd_buf i (\<lambda>x. x\<lparr>b_data := d\<rparr>) s1) = Ret s2"
    "brelse i s2 = Ret s3" "at_rest s3" "view s3 = (view s)(b := d)" "dirty s3 = dirty s" "bframe s s1" "bframe s1 s3"
    by (rule change_block_spec [of s b "\<lambda>_. d"]) (use a b l in auto)
  then show "\<exists>s'. put_block b d s = Ret s' \<and> (at_rest s' \<and> dirty s' = {}) \<and> view s' = (view s)(b := d) \<and>
      (\<lambda>b. b < disksize s') = (\<lambda>b. b < disksize s)"
    using a bframe_simps(1) [OF 1(7)] bframe_simps(1) [OF 1(8)] by (simp add: put_block_def)
qed

section \<open>Properties\<close>

text \<open>C4. The buffer cache is transparent: whatever buffers are recycled on the way, any sequence of
  block reads and writes through \<open>bread\<close>, \<open>bwrite\<close> and \<open>brelse\<close> returns, leaves no buffer locked or dirty,
  reads what the same sequence reads from a plain array of blocks, and leaves the disk as that array.\<close>

theorem cache_transparent:
  fixes s :: "'a bio_state_scheme"
  assumes "at_rest s" and "dirty s = {}" and "list_all (bop_ok (\<lambda>b. b < disksize s)) ps"
  shows "\<exists>s'. run_bops get_block put_block ps s = Ret (fst (spec_bops ps (disk s)), s') \<and>
    at_rest s' \<and> dirty s' = {} \<and> disk s' = snd (spec_bops ps (disk s))"
proof -
  have v: "view t = disk t" if "at_rest t" "dirty t = {}" for t :: "'a bio_state_scheme"
    using at_rest_clean [OF that(1)] that(2) by auto
  from cache_store.run_refines [where s = s and ps = ps] assms v [OF assms(1,2)] show ?thesis
    using v by (metis (no_types, lifting))
qed

definition idle_bio :: bio_state where
  "idle_bio = binit (bss_bio (\<lambda>_. replicate BSIZE 0) 100)"

lemma idle_bio_at_rest: "at_rest idle_bio" "dirty idle_bio = {}" "disksize idle_bio = 100" "disk idle_bio = (\<lambda>_. replicate BSIZE 0)"
proof -
  let ?s = "bss_bio (\<lambda>_. replicate BSIZE 0) 100"
  have b: "bufs ?s = replicate NBUF zero_buf" "disk ?s = (\<lambda>_. replicate BSIZE 0)" "disksize ?s = 100"
    by (simp_all add: bss_simps)
  note B = binit_spec [of ?s, OF b(1) running_bss(1)]
  have l: "\<And>b. b < disksize ?s \<Longrightarrow> length (disk ?s b) = BSIZE" by (simp add: b)
  have n: "\<not> caches idle_bio i b" for i b using B(2) [OF l, of i] by (auto simp: idle_bio_def caches_def)
  show "dirty idle_bio = {}" using n by (auto simp: dirty_def)
  moreover have "held idle_bio = {}" using n by (auto simp: held_def)
  ultimately show "at_rest idle_bio" using B(1) [OF l] by (simp add: at_rest_def idle_bio_def NBUF_def MAXOPBLOCKS_def)
  show "disksize idle_bio = 100" using bframe_simps(1) [OF B(3) [OF l]] b by (simp add: idle_bio_def)
  show "disk idle_bio = (\<lambda>_. replicate BSIZE 0)" using B(4) [OF l] b by (simp add: idle_bio_def)
qed

theorem cache_transparent_witness:
  "\<exists>s'. run_bops get_block put_block [Wr 5 (replicate BSIZE 7), Rd 5, Rd 6] idle_bio =
      Ret ([replicate BSIZE 7, replicate BSIZE 0], s') \<and> disk s' 5 = replicate BSIZE 7"
  using cache_transparent [of idle_bio "[Wr 5 (replicate BSIZE 7), Rd 5, Rd 6]"] idle_bio_at_rest by auto

text \<open>C7. \<open>bread\<close> of a block no process holds returns the locked buffer with the current contents of the
  block, unless the block is not cached and every buffer is locked or dirty; then, and only then, it panics.\<close>

theorem bread_or_no_buffers:
  fixes s :: "'a bio_state_scheme"
  assumes inv: "bio_inv s" and b: "b < disksize s" and h: "b \<notin> held s"
  shows "if (\<exists>i. caches s i b) \<or> (\<exists>i < NBUF. \<not> b_locked (bufs s ! i) \<and> \<not> b_dirty (bufs s ! i))
    then \<exists>i s'. bread 1 b s = Ret (i, s') \<and> bio_inv s' \<and> holds s' i b \<and> b_data (bufs s' ! i) = view s b \<and>
      view s' = view s \<and> disk s' = disk s
    else bread 1 b s = Panic ''bget: no buffers''"
proof -
  note I = bio_invD [OF inv]
  have free: "b_refcnt (bufs s ! i) = 0 \<and> \<not> b_dirty (bufs s ! i) \<longleftrightarrow> \<not> b_locked (bufs s ! i) \<and> \<not> b_dirty (bufs s ! i)"
    if "i < NBUF" for i using I(2) [OF that] by (auto simp: buf_ok_def)
  show ?thesis
  proof (cases "(\<exists>i. caches s i b) \<or> (\<exists>i < NBUF. \<not> b_locked (bufs s ! i) \<and> \<not> b_dirty (bufs s ! i))")
    case True
    have "(\<exists>i. caches s i b) \<or> card (held s \<union> dirty s) < NBUF"
    proof (rule ccontr)
      assume c: "\<not> ?thesis"
      with True obtain i where i: "i < NBUF" "\<not> b_locked (bufs s ! i)" "\<not> b_dirty (bufs s ! i)" by blast
      let ?f = "\<lambda>j. b_blockno (bufs s ! j)"
      have "held s \<union> dirty s \<subseteq> ?f ` ({..<NBUF} - {i})"
        using i by (auto simp: held_def dirty_def caches_def)
      then have "card (held s \<union> dirty s) \<le> card ({..<NBUF} - {i})" by (metis card_image_le card_mono finite_Diff finite_imageI finite_lessThan order_trans)
      also have "\<dots> < NBUF" using i(1) by simp
      finally show False using c by simp
    qed
    with bread_spec [OF inv b h] holds_data(1) True show ?thesis by (metis (no_types, lifting))
  next
    case False
    then have n: "\<nexists>i. caches s i b" and "\<And>i. i < NBUF \<Longrightarrow> \<not> (b_refcnt (bufs s ! i) = 0 \<and> \<not> b_dirty (bufs s ! i))"
      using free by blast+
    then have "find_buf (\<lambda>b. b_refcnt b = 0 \<and> \<not> b_dirty b) (rev (lru s)) (bufs s) = None"
      using I(5) by (auto simp: find_buf_None_iff)
    with n False show ?thesis by (auto simp: bread_def bget_def find_cached [OF inv])
  qed
qed

theorem bread_or_no_buffers_witness:
  "\<exists>i s'. bread 1 3 idle_bio = Ret (i, s') \<and> b_data (bufs s' ! i) = replicate BSIZE 0"
proof -
  note A = idle_bio_at_rest
  have inv: "bio_inv idle_bio" and h: "3 \<notin> held idle_bio" using A(1) by (auto simp: at_rest_def)
  have v: "view idle_bio 3 = replicate BSIZE 0" using at_rest_clean [OF A(1), of 3] A by simp
  obtain i where "i < NBUF" "\<not> b_locked (bufs idle_bio ! i)" "\<not> b_dirty (bufs idle_bio ! i)"
    by (rule victim_exists [OF inv]) (use A(1,2) in \<open>auto simp: at_rest_def\<close>)
  then have "(\<exists>i. caches idle_bio i 3) \<or> (\<exists>i < NBUF. \<not> b_locked (bufs idle_bio ! i) \<and> \<not> b_dirty (bufs idle_bio ! i))"
    by blast
  moreover have "3 < disksize idle_bio" using A(3) by simp
  ultimately show ?thesis using bread_or_no_buffers [OF inv _ h] v by (simp only: if_True) metis
qed

end
