(* ===== verification/Ide.thy ===== *)
theory Ide
  imports Bcache
begin

unbundle bit_operations_syntax

text \<open>
  The driver for a real disk, \<open>ide.c\<close>, which the default kernel links instead of \<open>memide.c\<close>. \<open>ide_state\<close> adds the
  queue of requests (the buffers linked by \<open>qnext\<close> from \<open>idequeue\<close>, first one active), the flag \<open>havedisk1\<close>, the task-file
  registers of the controller as the driver has written them, and the contents of the two drives, sector by sector.

  The drive is not part of the program. It is the parameter \<open>exec\<close>, which carries out the command in the registers and
  gives the bytes for the data port; \<open>ata\<close> states what the ATA standard says of the two commands the driver uses. The
  values read from the status register are arguments, one list for each call of \<open>idewait\<close>.

  The theorem at the end relates the driver to \<open>iderw\<close> of \<open>memide.c\<close>, on which the rest of the file system is built: for
  any order of requests and interrupts the requests are carried out one by one, in the order they were made, each
  with the effect the call has with \<open>memide.c\<close>.
\<close>

section \<open>Registers\<close>

definition IDE_BSY :: uchar where "IDE_BSY = 0x80"
definition IDE_DRDY :: uchar where "IDE_DRDY = 0x40"
definition IDE_DF :: uchar where "IDE_DF = 0x20"
definition IDE_ERR :: uchar where "IDE_ERR = 0x01"
definition IDE_CMD_READ :: uchar where "IDE_CMD_READ = 0x20"
definition IDE_CMD_WRITE :: uchar where "IDE_CMD_WRITE = 0x30"
definition IDE_CMD_RDMUL :: uchar where "IDE_CMD_RDMUL = 0xc4"
definition IDE_CMD_WRMUL :: uchar where "IDE_CMD_WRMUL = 0xc5"
definition SECTOR_SIZE :: nat where "SECTOR_SIZE = 512"

text \<open>\<open>r_cmd\<close> is \<open>None\<close> when the last command is complete; \<open>r_data\<close> is what has been sent to the data port since the last
  command was given.\<close>

record ports =
  r_count :: uchar
  r_lba0 :: uchar
  r_lba1 :: uchar
  r_lba2 :: uchar
  r_drive :: uchar
  r_cmd :: "uchar option"
  r_ctl :: uchar
  r_data :: "uchar list"

definition outb :: "nat \<Rightarrow> uchar \<Rightarrow> ports \<Rightarrow> ports" where
  "outb port v p =
     (if port = 0x1f2 then p\<lparr>r_count := v\<rparr>
      else if port = 0x1f3 then p\<lparr>r_lba0 := v\<rparr>
      else if port = 0x1f4 then p\<lparr>r_lba1 := v\<rparr>
      else if port = 0x1f5 then p\<lparr>r_lba2 := v\<rparr>
      else if port = 0x1f6 then p\<lparr>r_drive := v\<rparr>
      else if port = 0x1f7 then p\<lparr>r_cmd := Some v, r_data := []\<rparr>
      else if port = 0x3f6 then p\<lparr>r_ctl := v\<rparr>
      else p)"

text \<open>\<open>outsl(0x1f0, data, n)\<close>\<close>

definition outsl :: "uchar list \<Rightarrow> nat \<Rightarrow> ports \<Rightarrow> ports" where
  "outsl data n p = p\<lparr>r_data := r_data p @ take (4 * n) data\<rparr>"

section \<open>The driver\<close>

record ide_state = bio_state +
  idequeue :: "nat list"
  havedisk1 :: bool
  ports :: ports
  drives :: "nat \<Rightarrow> nat \<Rightarrow> uchar list"

text \<open>The status register is read until the drive is ready; the result is whether there was no error.\<close>

primrec idewait :: "bool \<Rightarrow> uchar list \<Rightarrow> bool res" where
  "idewait checkerr [] = Spin"
| "idewait checkerr (r # rs) =
     (if r AND (IDE_BSY OR IDE_DRDY) \<noteq> IDE_DRDY then idewait checkerr rs
      else Ret (\<not> (checkerr \<and> r AND (IDE_DF OR IDE_ERR) \<noteq> 0)))"

text \<open>The second list has the values read while drive 1 is selected.\<close>

definition ide_ideinit :: "uchar list \<Rightarrow> uchar list \<Rightarrow> 'a ide_state_scheme \<Rightarrow> 'a ide_state_scheme res" where
  "ide_ideinit st probe s =
     bnd (idewait False st) (\<lambda>_.
     Ret (s\<lparr>havedisk1 := havedisk1 s \<or> list_ex (\<lambda>r. r \<noteq> 0) (take 1000 probe),
            ports := outb 0x1f6 (0xe0 OR push_bit 4 0) (outb 0x1f6 (0xe0 OR push_bit 4 1) (ports s))\<rparr>))"

definition idestart :: "uchar list \<Rightarrow> nat option \<Rightarrow> 'a ide_state_scheme \<Rightarrow> 'a ide_state_scheme res" where
  "idestart st bp s =
     (case bp of None \<Rightarrow> Panic ''idestart''
      | Some i \<Rightarrow>
        (let b = bufs s ! i; sector_per_block = BSIZE div SECTOR_SIZE; sector = b_blockno b * sector_per_block;
             read_cmd = (if sector_per_block = 1 then IDE_CMD_READ else IDE_CMD_RDMUL);
             write_cmd = (if sector_per_block = 1 then IDE_CMD_WRITE else IDE_CMD_WRMUL)
         in if b_blockno b \<ge> FSSIZE then Panic ''incorrect blockno''
            else if sector_per_block > 7 then Panic ''idestart''
            else bnd (idewait False st) (\<lambda>_.
              let p = outb 0x3f6 0 (ports s);
                  p = outb 0x1f2 (word_of_nat sector_per_block) p;
                  p = outb 0x1f3 (word_of_nat (sector mod 256)) p;
                  p = outb 0x1f4 (word_of_nat (sector div 2 ^ 8 mod 256)) p;
                  p = outb 0x1f5 (word_of_nat (sector div 2 ^ 16 mod 256)) p;
                  p = outb 0x1f6 (0xe0 OR push_bit 4 (word_of_nat (b_dev b mod 2)) OR word_of_nat (sector div 2 ^ 24 mod 16)) p
              in Ret (s\<lparr>ports := (if b_dirty b then outsl (b_data b) (BSIZE div 4) (outb 0x1f7 write_cmd p)
                                   else outb 0x1f7 read_cmd p)\<rparr>))))"

text \<open>The interrupt handler. \<open>dat\<close> are the bytes the data port has, \<open>st\<close> and \<open>st'\<close> the values of the status register in
  \<open>idewait\<close> and in \<open>idestart\<close>.\<close>

definition ideintr :: "uchar list \<Rightarrow> uchar list \<Rightarrow> uchar list \<Rightarrow> 'a ide_state_scheme \<Rightarrow> 'a ide_state_scheme res" where
  "ideintr dat st st' s =
     (case idequeue s of
        [] \<Rightarrow> Ret s
      | i # q \<Rightarrow>
          bnd (if \<not> b_dirty (bufs s ! i) then idewait True st else Ret False) (\<lambda>get.
          let s = s\<lparr>idequeue := q\<rparr>;
              s = (if get then upd_buf i (\<lambda>b. b\<lparr>b_data := take (4 * (BSIZE div 4)) dat\<rparr>) s else s);
              s = upd_buf i (\<lambda>b. b\<lparr>b_valid := True, b_dirty := False\<rparr>) s;
              s = wakeup (ChanIde i) s
          in if q \<noteq> [] then idestart st' (Some (hd q)) s else Ret s))"

text \<open>\<open>iderw\<close> up to its \<open>sleep\<close>; the result is whether it sleeps. When it is woken it tests the flags again.\<close>

definition ide_iderw :: "uchar list \<Rightarrow> nat \<Rightarrow> 'a ide_state_scheme \<Rightarrow> (bool \<times> 'a ide_state_scheme) res" where
  "ide_iderw st i s =
     (let b = bufs s ! i
      in bnd (holdingsleep (b_lock b) s) (\<lambda>h.
         if \<not> h then Panic ''iderw: buf not locked''
         else if b_valid b \<and> \<not> b_dirty b then Panic ''iderw: nothing to do''
         else if b_dev b \<noteq> 0 \<and> \<not> havedisk1 s then Panic ''iderw: ide disk 1 not present''
         else (let s = s\<lparr>idequeue := idequeue s @ [i]\<rparr>
               in bnd (if hd (idequeue s) = i then idestart st (Some i) s else Ret s) (\<lambda>s.
                  let b = bufs s ! i in Ret (\<not> (b_valid b \<and> \<not> b_dirty b), s)))))"

section \<open>The drive\<close>

definition lba28 :: "ports \<Rightarrow> nat" where
  "lba28 p = unat (r_lba0 p) + 2 ^ 8 * unat (r_lba1 p) + 2 ^ 16 * unat (r_lba2 p) + 2 ^ 24 * unat (r_drive p AND 0x0f)"

definition drive_of :: "ports \<Rightarrow> nat" where
  "drive_of p = unat (drop_bit 4 (r_drive p) AND 1)"

definition ata ::
    "(ports \<Rightarrow> (nat \<Rightarrow> nat \<Rightarrow> uchar list) \<Rightarrow> uchar list \<times> (nat \<Rightarrow> nat \<Rightarrow> uchar list)) \<Rightarrow> bool" where
  "ata exec \<longleftrightarrow> (\<forall>p ds. r_count p = 1 \<and> r_drive p AND 0x40 \<noteq> 0 \<longrightarrow>
     (r_cmd p = Some 0x20 \<longrightarrow> exec p ds = (ds (drive_of p) (lba28 p), ds)) \<and>
     (r_cmd p = Some 0x30 \<and> length (r_data p) = 512 \<longrightarrow>
        snd (exec p ds) = ds(drive_of p := (ds (drive_of p))(lba28 p := r_data p))))"

text \<open>The drive completes a command. The history variable of the disk is kept for drive 1, which has the file system.\<close>

definition complete ::
    "(ports \<Rightarrow> (nat \<Rightarrow> nat \<Rightarrow> uchar list) \<Rightarrow> uchar list \<times> (nat \<Rightarrow> nat \<Rightarrow> uchar list)) \<Rightarrow>
     'a ide_state_scheme \<Rightarrow> uchar list \<times> 'a ide_state_scheme" where
  "complete exec s =
     (if r_cmd (ports s) = None then ([], s)
      else (let (dat, ds) = exec (ports s) (drives s);
                w = (if r_cmd (ports s) = Some 0x30 \<and> drive_of (ports s) = 1
                     then [(lba28 (ports s), r_data (ports s))] else [])
            in (dat, s\<lparr>drives := ds, ports := (ports s)\<lparr>r_cmd := None\<rparr>, dwrites := dwrites s @ w\<rparr>)))"

section \<open>Requests and interrupts\<close>

text \<open>The running process calls \<open>iderw\<close> for buffer \<open>i\<close>; the drive completes its command, if it has one, and interrupts; the
  holder of a buffer that is not in the queue changes it; another process gets to run, with any change to the CPUs and
  the process table. A buffer in the queue is locked by a sleeping process, so nobody else
  changes it or asks for it. A request the driver \<open>memide.c\<close> would refuse with a panic is not made.\<close>

datatype ide_ev = Request nat "uchar list" | Interrupt "uchar list" "uchar list" | Change nat buf | Run "cpu list" uchar "proc list"
datatype ide_res = Waits bool | Handled | Ran | Changed | Refused | Failed

definition may_request :: "nat \<Rightarrow> nat list \<Rightarrow> 'a bio_state_scheme \<Rightarrow> bool" where
  "may_request i q s \<longleftrightarrow> i \<notin> set q \<and> i < length (bufs s) \<and>
     (case iderw i s of Ret _ \<Rightarrow> True | _ \<Rightarrow> False)"

definition may_change :: "nat \<Rightarrow> buf \<Rightarrow> nat list \<Rightarrow> bool" where
  "may_change i b q \<longleftrightarrow> i \<notin> set q \<and> length (b_data b) = BSIZE"

text \<open>The file system's disk as the in-memory driver has it.\<close>

definition mem_disk :: "ide_state \<Rightarrow> bio_state" where
  "mem_disk s = bio_state.truncate (s\<lparr>disk := drives s 1\<rparr>)"

primrec ide_step ::
    "(ports \<Rightarrow> (nat \<Rightarrow> nat \<Rightarrow> uchar list) \<Rightarrow> uchar list \<times> (nat \<Rightarrow> nat \<Rightarrow> uchar list)) \<Rightarrow>
     ide_ev \<Rightarrow> ide_state \<Rightarrow> ide_res \<times> ide_state" where
  "ide_step exec (Request i st) s =
     (if may_request i (idequeue s) (mem_disk s)
      then (case ide_iderw st i s of Ret (w, s') \<Rightarrow> (Waits w, s') | _ \<Rightarrow> (Failed, s))
      else (Refused, s))"
| "ide_step exec (Interrupt st st') s =
     (let (dat, s) = complete exec s
      in case ideintr dat st st' s of Ret s' \<Rightarrow> (Handled, s') | _ \<Rightarrow> (Failed, s))"
| "ide_step exec (Change i b) s =
     (if may_change i b (idequeue s) then (Changed, s\<lparr>bufs := (bufs s)[i := b]\<rparr>) else (Refused, s))"
| "ide_step exec (Run cs l ps) s = (Ran, s\<lparr>cpus := cs, lapic_id := l, ptable := ps\<rparr>)"

text \<open>What \<open>memide.c\<close> does with a request.\<close>

definition transfer :: "nat \<Rightarrow> 'a bio_state_scheme \<Rightarrow> 'a bio_state_scheme" where
  "transfer i s =
     (let b = bufs s ! i
      in if b_dirty b
         then upd_buf i (\<lambda>b. b\<lparr>b_dirty := False, b_valid := True\<rparr>)
                (s\<lparr>disk := (disk s)(b_blockno b := b_data b), dwrites := dwrites s @ [(b_blockno b, b_data b)]\<rparr>)
         else upd_buf i (\<lambda>b. b\<lparr>b_data := disk s (b_blockno b), b_valid := True\<rparr>) s)"

text \<open>The specification: a queue of requests, of which an interrupt carries out the first and wakes its process.\<close>

primrec mem_step :: "ide_ev \<Rightarrow> nat list \<times> bio_state \<Rightarrow> ide_res \<times> nat list \<times> bio_state" where
  "mem_step (Request i st) qs =
     (if may_request i (fst qs) (snd qs) then (Waits True, (fst qs @ [i], snd qs)) else (Refused, qs))"
| "mem_step (Interrupt st st') qs =
     (Handled, case fst qs of [] \<Rightarrow> qs | i # q \<Rightarrow> (q, wakeup (ChanIde i) (transfer i (snd qs))))"
| "mem_step (Change i b) qs =
     (if may_change i b (fst qs) then (Changed, (fst qs, (snd qs)\<lparr>bufs := (bufs (snd qs))[i := b]\<rparr>)) else (Refused, qs))"
| "mem_step (Run cs l ps) qs = (Ran, (fst qs, (snd qs)\<lparr>cpus := cs, lapic_id := l, ptable := ps\<rparr>))"

text \<open>The drive gets ready, and without an error where the driver looks for one.\<close>

definition ready_in :: "uchar list \<Rightarrow> uchar list \<Rightarrow> bool" where
  "ready_in err st \<longleftrightarrow>
     (case dropWhile (\<lambda>r. r AND 0xc0 \<noteq> 0x40) st of [] \<Rightarrow> False | r # _ \<Rightarrow> (\<forall>e \<in> set err. r AND e = 0))"

primrec drive_ok :: "ide_ev \<Rightarrow> bool" where
  "drive_ok (Request i st) = ready_in [] st"
| "drive_ok (Interrupt st st') = (ready_in [IDE_DF OR IDE_ERR] st \<and> ready_in [] st')"
| "drive_ok (Change i b) = True"
| "drive_ok (Run cs l ps) = True"

section \<open>The invariant\<close>

text \<open>The command for a buffer, as the drive reads it from the registers.\<close>

definition commanded :: "buf \<Rightarrow> ports \<Rightarrow> bool" where
  "commanded b p \<longleftrightarrow> r_count p = 1 \<and> r_drive p AND 0x40 \<noteq> 0 \<and> drive_of p = 1 \<and> lba28 p = b_blockno b \<and>
     (if b_dirty b then r_cmd p = Some 0x30 \<and> r_data p = b_data b else r_cmd p = Some 0x20)"

definition wanted :: "buf \<Rightarrow> nat \<Rightarrow> bool" where
  "wanted b n \<longleftrightarrow> b_dev b = 1 \<and> b_blockno b < n \<and> \<not> (b_valid b \<and> \<not> b_dirty b)"

definition ide_inv :: "ide_state \<Rightarrow> bool" where
  "ide_inv s \<longleftrightarrow> havedisk1 s \<and> disksize s \<le> FSSIZE \<and> distinct (idequeue s) \<and>
     (\<forall>b \<in> set (bufs s). length (b_data b) = BSIZE) \<and> (\<forall>n. length (drives s 1 n) = BSIZE) \<and>
     (\<forall>i \<in> set (idequeue s). i < length (bufs s) \<and> wanted (bufs s ! i) (disksize s)) \<and>
     (case idequeue s of [] \<Rightarrow> r_cmd (ports s) = None | i # _ \<Rightarrow> commanded (bufs s ! i) (ports s))"

lemma idewait_ready: "ready_in err st \<Longrightarrow> idewait False st = Ret True"
  by (induction st) (auto simp: ready_in_def IDE_BSY_def IDE_DRDY_def split: if_splits)

lemma idewait_clean: "ready_in [IDE_DF OR IDE_ERR] st \<Longrightarrow> idewait True st = Ret True"
  by (induction st) (auto simp: ready_in_def IDE_BSY_def IDE_DRDY_def split: if_splits)

lemma idestart_spec:
  fixes s :: "'a ide_state_scheme"
  assumes "b_blockno (bufs s ! i) < FSSIZE" "b_dev (bufs s ! i) = 1" "length (b_data (bufs s ! i)) = BSIZE" "ready_in [] st"
  shows "\<exists>p. idestart st (Some i) s = Ret (s\<lparr>ports := p\<rparr>) \<and> commanded (bufs s ! i) p"
proof -
  let ?n = "b_blockno (bufs s ! i)"
  have n: "?n < 1000" using assms(1) by (simp add: FSSIZE_def)
  then have d: "?n div 65536 mod 256 = 0" "?n div 16777216 mod 16 = 0" "?n div 256 mod 256 = ?n div 256" by simp_all
  have "unat (word_of_nat (?n mod 256) :: uchar) + 256 * unat (word_of_nat (?n div 256) :: uchar) = ?n"
    using n by (simp add: unat_of_nat take_bit_eq_mod)
  moreover define p where "p = (ports s)\<lparr>r_ctl := 0, r_count := 1, r_lba0 := word_of_nat (?n mod 256),
      r_lba1 := word_of_nat (?n div 256), r_lba2 := 0, r_drive := 0xf0,
      r_cmd := Some (if b_dirty (bufs s ! i) then 0x30 else 0x20),
      r_data := (if b_dirty (bufs s ! i) then b_data (bufs s ! i) else [])\<rparr>"
  moreover have "drive_of p = 1" by (simp add: p_def drive_of_def drop_bit_eq_div)
  ultimately have "commanded (bufs s ! i) p" by (simp add: commanded_def lba28_def)
  moreover have "idestart st (Some i) s = Ret (s\<lparr>ports := p\<rparr>)"
    using idewait_ready [OF assms(4)] assms(1-3)
    by (simp add: p_def idestart_def Let_def d outb_def outsl_def BSIZE_def SECTOR_SIZE_def
        IDE_CMD_READ_def IDE_CMD_WRITE_def not_le [symmetric])
  ultimately show ?thesis by blast
qed

lemma iderw_transfer:
  assumes "iderw i s = Ret s'"
  shows "s' = transfer i s" "holdingsleep (b_lock (bufs s ! i)) s = Ret True" "wanted (bufs s ! i) (disksize s)"
  using assms
  by (auto simp: iderw_def transfer_def wanted_def Let_def bnd_eq_Ret_iff split: if_splits)

lemma mem_disk_simps [simp]:
  "bufs (mem_disk s) = bufs s" "disksize (mem_disk s) = disksize s" "disk (mem_disk s) = drives s 1"
  "dwrites (mem_disk s) = dwrites s" "holdingsleep lk (mem_disk s) = holdingsleep lk s"
  by (simp_all add: mem_disk_def bio_state.defs holdingsleep_def mypid_def cur_def split: option.splits)

lemma mem_disk_upd [simp]:
  "mem_disk (s\<lparr>idequeue := q\<rparr>) = mem_disk s" "mem_disk (s\<lparr>ports := p\<rparr>) = mem_disk s"
  "mem_disk (s\<lparr>bufs := bs\<rparr>) = (mem_disk s)\<lparr>bufs := bs\<rparr>"
  "mem_disk (s\<lparr>cpus := cs, lapic_id := l, ptable := ps\<rparr>) = (mem_disk s)\<lparr>cpus := cs, lapic_id := l, ptable := ps\<rparr>"
  "mem_disk (s\<lparr>drives := ds\<rparr>) = (mem_disk s)\<lparr>disk := ds 1\<rparr>"
  "mem_disk (s\<lparr>dwrites := w\<rparr>) = (mem_disk s)\<lparr>dwrites := w\<rparr>"
  by (simp_all add: mem_disk_def bio_state.defs)

lemma request_step:
  assumes "ide_inv s" and "ready_in [] st" and "may_request i (idequeue s) (mem_disk s)"
  shows "\<exists>p. ide_iderw st i s = Ret (True, s\<lparr>idequeue := idequeue s @ [i], ports := p\<rparr>) \<and>
    ide_inv (s\<lparr>idequeue := idequeue s @ [i], ports := p\<rparr>)"
proof -
  let ?s = "s\<lparr>idequeue := idequeue s @ [i]\<rparr>"
  obtain s' where i: "i \<notin> set (idequeue s)" "i < length (bufs s)" and "iderw i (mem_disk s) = Ret s'"
    using assms(3) by (auto simp: may_request_def split: res.splits)
  note w = iderw_transfer(2,3) [OF this(3), simplified]
  have b: "b_blockno (bufs ?s ! i) < FSSIZE" "b_dev (bufs ?s ! i) = 1" "length (b_data (bufs ?s ! i)) = BSIZE"
    using w(2) assms(1) i(2) by (auto simp: wanted_def ide_inv_def)
  show ?thesis
  proof (cases "idequeue s")
    case Nil
    from idestart_spec [OF b assms(2)] obtain p where
      "idestart st (Some i) ?s = Ret (?s\<lparr>ports := p\<rparr>)" "commanded (bufs s ! i) p" by auto
    then show ?thesis using assms(1) w i(2) Nil
      by (intro exI [of _ p]) (auto simp: ide_iderw_def Let_def wanted_def ide_inv_def)
  next
    case (Cons j q)
    then show ?thesis using assms(1) w i
      by (intro exI [of _ "ports s"]) (auto simp: ide_iderw_def Let_def wanted_def ide_inv_def)
  qed
qed

text \<open>The drive carries out the command for the first buffer of the queue.\<close>

definition new_sector :: "buf \<Rightarrow> (nat \<Rightarrow> uchar list) \<Rightarrow> nat \<Rightarrow> uchar list" where
  "new_sector b d = (if b_dirty b then d(b_blockno b := b_data b) else d)"

definition new_buf :: "buf \<Rightarrow> (nat \<Rightarrow> uchar list) \<Rightarrow> buf" where
  "new_buf b d = b\<lparr>b_data := (if b_dirty b then b_data b else d (b_blockno b)), b_valid := True, b_dirty := False\<rparr>"

lemma transfer_alt:
  "transfer i s = s\<lparr>disk := new_sector (bufs s ! i) (disk s),
     dwrites := dwrites s @ (if b_dirty (bufs s ! i) then [(b_blockno (bufs s ! i), b_data (bufs s ! i))] else []),
     bufs := (bufs s)[i := new_buf (bufs s ! i) (disk s)]\<rparr>"
proof -
  have "new_buf b d = (if b_dirty b then b\<lparr>b_dirty := False, b_valid := True\<rparr>
      else b\<lparr>b_data := d (b_blockno b), b_valid := True\<rparr>)" for b d
    by (cases b) (simp add: new_buf_def)
  then show ?thesis by (simp add: transfer_def new_sector_def upd_buf_def Let_def)
qed

lemma complete_spec:
  assumes "ata exec" and "commanded b (ports s)" and "length (b_data b) = BSIZE"
  shows "\<exists>dat. complete exec s = (dat, s\<lparr>drives := (drives s)(1 := new_sector b (drives s 1)),
      ports := (ports s)\<lparr>r_cmd := None\<rparr>,
      dwrites := dwrites s @ (if b_dirty b then [(b_blockno b, b_data b)] else [])\<rparr>) \<and>
    (\<not> b_dirty b \<longrightarrow> dat = drives s 1 (b_blockno b))"
proof -
  let ?p = "ports s" and ?ds = "drives s"
  have p: "r_count ?p = 1 \<and> r_drive ?p AND 0x40 \<noteq> 0" "drive_of ?p = 1" "lba28 ?p = b_blockno b"
    using assms(2) by (auto simp: commanded_def)
  have e: "r_cmd ?p = Some 0x20 \<Longrightarrow> exec ?p ?ds = (?ds 1 (b_blockno b), ?ds)"
    "r_cmd ?p = Some 0x30 \<Longrightarrow> length (r_data ?p) = 512 \<Longrightarrow> snd (exec ?p ?ds) = ?ds(1 := (?ds 1)(b_blockno b := r_data ?p))"
    using assms(1) p unfolding ata_def by (metis p)+
  show ?thesis
  proof (cases "b_dirty b")
    case True
    then have "r_cmd ?p = Some 0x30" "r_data ?p = b_data b" using assms(2) by (auto simp: commanded_def)
    then show ?thesis using e(2) p True assms(3)
      by (intro exI [of _ "fst (exec ?p ?ds)"]) (cases "exec ?p ?ds", simp add: complete_def new_sector_def BSIZE_def)
  next
    case False
    then have "r_cmd ?p = Some 0x20" using assms(2) by (auto simp: commanded_def)
    then show ?thesis using e(1) p False by (simp add: complete_def new_sector_def)
  qed
qed

lemma wakeup_bio_simps [simp]:
  fixes s :: ide_state
  shows "bufs (wakeup c s) = bufs s" "disksize (wakeup c s) = disksize s" "idequeue (wakeup c s) = idequeue s"
    "havedisk1 (wakeup c s) = havedisk1 s" "ports (wakeup c s) = ports s" "drives (wakeup c s) = drives s"
    "mem_disk (wakeup c s) = wakeup c (mem_disk s)"
  by (simp_all add: wakeup_def wakeup1_def mem_disk_def bio_state.defs)

lemma interrupt_step:
  assumes "ata exec" and "ide_inv s" and "idequeue s = i # q"
    and "ready_in [IDE_DF OR IDE_ERR] st" and "ready_in [] st'"
  shows "\<exists>s'. ide_step exec (Interrupt st st') s = (Handled, s') \<and> ide_inv s' \<and> idequeue s' = q \<and>
    mem_disk s' = wakeup (ChanIde i) (transfer i (mem_disk s))"
proof -
  define b where "b = bufs s ! i"
  have b: "i < length (bufs s)" "wanted b (disksize s)" "length (b_data b) = BSIZE" "commanded b (ports s)" "i \<notin> set q" "distinct q"
    "length (drives s 1 (b_blockno b)) = BSIZE"
    using assms(2,3) by (auto simp: ide_inv_def b_def)
  from complete_spec [OF assms(1) b(4,3)] obtain dat where
    dat: "complete exec s = (dat, s\<lparr>drives := (drives s)(1 := new_sector b (drives s 1)), ports := (ports s)\<lparr>r_cmd := None\<rparr>,
        dwrites := dwrites s @ (if b_dirty b then [(b_blockno b, b_data b)] else [])\<rparr>)" (is "_ = (_, ?s)")
      "\<not> b_dirty b \<Longrightarrow> dat = drives s 1 (b_blockno b)" by blast
  define s1 where "s1 = wakeup (ChanIde i) (?s\<lparr>idequeue := q, bufs := (bufs s)[i := new_buf b (drives s 1)]\<rparr>)"
  have dlen: "take (4 * (BSIZE div 4)) dat = dat" if "\<not> b_dirty b" using dat(2) that b(7) by (simp add: BSIZE_def)
  have intr: "ideintr dat st st' ?s = (if q \<noteq> [] then idestart st' (Some (hd q)) s1 else Ret s1)"
    using idewait_clean [OF assms(4)] b(1) dat(2) dlen assms(3)
    by (simp add: ideintr_def s1_def Let_def upd_buf_def new_buf_def b_def [symmetric])
  have m: "mem_disk s1 = wakeup (ChanIde i) (transfer i (mem_disk s))"
    unfolding s1_def transfer_alt by (simp add: b_def)
  have s1: "bufs s1 = (bufs s)[i := new_buf b (drives s 1)]" "disksize s1 = disksize s" "idequeue s1 = q" "havedisk1 s1 = havedisk1 s"
    "r_cmd (ports s1) = None" "drives s1 1 = new_sector b (drives s 1)"
    by (simp_all add: s1_def)
  have data: "\<forall>x \<in> set (bufs s1). length (b_data x) = BSIZE"
    using assms(2) b(3,7) unfolding s1(1) by (auto simp: ide_inv_def new_buf_def dest!: subsetD [OF set_update_subset_insert])
  have sect: "\<forall>n. length (drives s1 1 n) = BSIZE"
    using assms(2) b(3) unfolding s1(6) by (auto simp: ide_inv_def new_sector_def)
  have rest: "\<forall>j \<in> set q. j < length (bufs s1) \<and> wanted (bufs s1 ! j) (disksize s1) \<and> j \<noteq> i"
    using assms(2,3) b(5) by (auto simp: ide_inv_def s1 nth_list_update)
  show ?thesis
  proof (cases q)
    case Nil
    then have "ide_inv s1" using assms(2) data sect s1 by (simp add: ide_inv_def)
    then show ?thesis using Nil dat(1) intr m s1(3) by simp
  next
    case (Cons j q')
    have j: "b_blockno (bufs s1 ! j) < FSSIZE" "b_dev (bufs s1 ! j) = 1" "length (b_data (bufs s1 ! j)) = BSIZE"
      using rest Cons assms(2) data s1(2) by (auto simp: wanted_def ide_inv_def)
    from idestart_spec [OF j assms(5)] obtain p where
      p: "idestart st' (Some j) s1 = Ret (s1\<lparr>ports := p\<rparr>)" "commanded (bufs s1 ! j) p" by blast
    have "havedisk1 s1" "disksize s1 \<le> FSSIZE" using assms(2) s1(2,4) by (simp_all add: ide_inv_def)
    then have "ide_inv (s1\<lparr>ports := p\<rparr>)" using data sect rest s1(3) p(2) b(6) Cons by (simp add: ide_inv_def)
    then show ?thesis using Cons dat(1) intr m s1(3) p(1) by simp
  qed
qed

section \<open>The driver and \<open>memide.c\<close>\<close>

text \<open>The drive as a parameter of the step, so that the contract of a sequence of operations applies.\<close>

definition ide_abs :: "ide_state \<Rightarrow> nat list \<times> bio_state" where
  "ide_abs s = (idequeue s, mem_disk s)"

lemma change_step:
  assumes "ide_inv s" and "may_change i b (idequeue s)"
  shows "ide_inv (s\<lparr>bufs := (bufs s)[i := b]\<rparr>)"
proof -
  have "\<forall>x \<in> set ((bufs s)[i := b]). length (b_data x) = BSIZE"
    using assms by (auto simp: ide_inv_def may_change_def dest!: subsetD [OF set_update_subset_insert])
  moreover have "(bufs s)[i := b] ! j = bufs s ! j" if "j \<in> set (idequeue s)" for j
    using assms(2) that by (auto simp: may_change_def intro: nth_list_update_neq)
  ultimately show ?thesis using assms(1) by (cases "idequeue s") (auto simp: ide_inv_def)
qed

lemma ide_sim:
  assumes "ata exec" and "ide_inv s" and "drive_ok e"
  shows "ide_inv (snd (ide_step exec e s)) \<and>
    mem_step e (ide_abs s) = (fst (ide_step exec e s), ide_abs (snd (ide_step exec e s)))"
proof (cases e)
  case (Request i st)
  then show ?thesis using request_step [OF assms(2), of st i] assms(2,3) by (auto simp: ide_abs_def)
next
  case (Interrupt st st')
  show ?thesis
  proof (cases "idequeue s")
    case Nil
    then show ?thesis using assms(2) Interrupt by (simp add: ide_abs_def complete_def ideintr_def ide_inv_def)
  next
    case (Cons i q)
    then show ?thesis using interrupt_step [OF assms(1,2) Cons, of st st'] assms(3) Interrupt
      by (auto simp: ide_abs_def)
  qed
next
  case (Change i b)
  then show ?thesis using change_step [OF assms(2)] assms(2) by (simp add: ide_abs_def)
next
  case (Run cs l ps)
  then show ?thesis using assms(2) by (simp add: ide_abs_def ide_inv_def split: list.splits)
qed

interpretation id: simulation "ide_step exec" mem_step ide_inv ide_abs "\<lambda>e. ata exec \<and> drive_ok e" for exec
  by unfold_locales (rule ide_sim, auto)

lemma mem_step_not_failed: "Failed \<notin> set (fst (run_ops mem_step es qs))"
proof (induction es arbitrary: qs)
  case (Cons e es)
  have "fst (mem_step e qs) \<noteq> Failed" by (cases e) simp_all
  then show ?case using Cons by (simp add: split_beta Let_def)
qed simp

text \<open>The interrupts for the requests in the queue: each buffer becomes valid and clean and stays so.\<close>

definition in_sync :: "buf \<Rightarrow> bool" where
  "in_sync b \<longleftrightarrow> b_valid b \<and> \<not> b_dirty b"

lemma mem_drain_queue: "fst (snd (run_ops mem_step (replicate (length q) (Interrupt st st')) (q, s))) = []"
  by (induction q arbitrary: s) (simp_all add: split_beta Let_def)

lemma mem_drain:
  fixes s :: bio_state
  assumes "\<forall>i \<in> set q. i < length (bufs s)" and "j < length (bufs s)" and "j \<in> set q \<or> in_sync (bufs s ! j)"
  shows "in_sync (bufs (snd (snd (run_ops mem_step (replicate (length q) (Interrupt st st')) (q, s)))) ! j)"
  using assms
proof (induction q arbitrary: s)
  case (Cons i q)
  let ?s = "wakeup (ChanIde i) (transfer i s)"
  have b: "bufs ?s = (bufs s)[i := new_buf (bufs s ! i) (disk s)]"
    by (simp add: transfer_alt wakeup_def wakeup1_def)
  then have "j \<in> set q \<or> in_sync (bufs ?s ! j)"
    using Cons.prems by (cases "j = i") (auto simp: in_sync_def new_buf_def)
  then show ?case using Cons.IH [of ?s] Cons.prems b by (simp add: split_beta Let_def)
qed simp

text \<open>C30. The driver for a real disk is the in-memory driver with a queue. For any sequence of requests of processes,
  interrupts of the drive and changes elsewhere, given a drive that carries out the read and write commands of the ATA
  standard and gets ready, \<open>ide.c\<close> never panics, gives the drive the right command, drive and sector for each request,
  and carries out the requests one by one, in the order they were made, each with the effect on the buffer and on the
  disk that the call has with \<open>memide.c\<close>; then it wakes the process. As many interrupts as there are requests
  complete them all.\<close>

theorem ide_refines_memide:
  assumes "ata exec" and "ide_inv s" and "list_all drive_ok es"
  defines "t \<equiv> snd (run_ops (ide_step exec) es s)"
  shows "ide_inv t \<and> Failed \<notin> set (fst (run_ops (ide_step exec) es s)) \<and>
    run_ops mem_step es (idequeue s, mem_disk s) = (fst (run_ops (ide_step exec) es s), idequeue t, mem_disk t) \<and>
    (\<forall>i b b'. iderw i (b :: bio_state) = Ret b' \<longrightarrow> b' = transfer i b) \<and>
    (\<forall>st st'. drive_ok (Interrupt st st') \<longrightarrow>
      (let u = snd (run_ops (ide_step exec) (replicate (length (idequeue t)) (Interrupt st st')) t)
       in idequeue u = [] \<and> (\<forall>i \<in> set (idequeue t). b_valid (bufs u ! i) \<and> \<not> b_dirty (bufs u ! i))))"
proof -
  have ok: "list_all (\<lambda>e. ata exec \<and> drive_ok e) es" using assms(1,3) by (simp add: list_all_iff)
  note r = id.run_sim [OF assms(2) ok, folded t_def, unfolded ide_abs_def]
  have "Failed \<notin> set (fst (run_ops (ide_step exec) es s))"
    using mem_step_not_failed [of es "(idequeue s, mem_disk s)"] r by simp
  moreover {
    fix st st'
    assume d: "drive_ok (Interrupt st st')"
    define u where "u = snd (run_ops (ide_step exec) (replicate (length (idequeue t)) (Interrupt st st')) t)"
    have "list_all (\<lambda>e. ata exec \<and> drive_ok e) (replicate (length (idequeue t)) (Interrupt st st'))"
      using d assms(1) by (simp add: list_all_iff)
    note v = id.run_sim [OF conjunct1 [OF r] this, folded u_def, unfolded ide_abs_def]
    have q: "\<forall>i \<in> set (idequeue t). i < length (bufs (mem_disk t))" using r by (simp add: ide_inv_def)
    have "idequeue u = []" using mem_drain_queue [of "idequeue t" st st' "mem_disk t"] v by simp
    moreover have "in_sync (bufs u ! i)" if "i \<in> set (idequeue t)" for i
      using mem_drain [OF q, of i st st'] q that v by simp
    ultimately have "idequeue u = [] \<and> (\<forall>i \<in> set (idequeue t). b_valid (bufs u ! i) \<and> \<not> b_dirty (bufs u ! i))"
      by (simp add: in_sync_def)
  }
  moreover have "\<forall>i b b'. iderw i (b :: bio_state) = Ret b' \<longrightarrow> b' = transfer i b" using iderw_transfer(1) by blast
  ultimately show ?thesis using r by (simp add: Let_def)
qed

text \<open>A drive, and a state in which the running process has locked a changed buffer and one to be read.\<close>

definition ata_disk :: "ports \<Rightarrow> (nat \<Rightarrow> nat \<Rightarrow> uchar list) \<Rightarrow> uchar list \<times> (nat \<Rightarrow> nat \<Rightarrow> uchar list)" where
  "ata_disk p ds =
     (if r_cmd p = Some 0x30 then ([], ds(drive_of p := (ds (drive_of p))(lba28 p := r_data p)))
      else (ds (drive_of p) (lba28 p), ds))"

definition locked_buf :: "bool \<Rightarrow> nat \<Rightarrow> uchar \<Rightarrow> buf" where
  "locked_buf d n x = zero_buf\<lparr>b_dirty := d, b_dev := 1, b_blockno := n, b_data := replicate BSIZE x,
     b_lock := \<lparr>sk_locked = True, sk_name = ''buffer'', sk_pid = 1\<rparr>\<rparr>"

definition two_requests :: ide_state where
  "two_requests = bio_state.extend ((bss_bio (\<lambda>_. []) 100)\<lparr>bufs := [locked_buf True 7 9, locked_buf False 8 0]\<rparr>)
     (ide_state.fields [] True
       \<lparr>r_count = 0, r_lba0 = 0, r_lba1 = 0, r_lba2 = 0, r_drive = 0, r_cmd = None, r_ctl = 0, r_data = []\<rparr>
       (\<lambda>d n. replicate BSIZE (word_of_nat n)))"

lemma two_requests_simps:
  "idequeue two_requests = []" "havedisk1 two_requests" "r_cmd (ports two_requests) = None" "disksize two_requests = 100"
  "drives two_requests d n = replicate BSIZE (word_of_nat n)" "bufs two_requests = [locked_buf True 7 9, locked_buf False 8 0]"
  "cur two_requests = Some 0" "p_pid (ptable two_requests ! 0) = 1"
  by (simp_all add: two_requests_def bss_simps ide_state.defs cur_def)

theorem ide_refines_memide_witness:
  "ata ata_disk \<and> ide_inv two_requests \<and>
   (let (rs, t) = run_ops (ide_step ata_disk) [Request 0 [0xc0, 0x40], Request 1 [0x50], Interrupt [0x40] [0x40], Interrupt [0x40] [0x40]] two_requests
    in rs = [Waits True, Waits True, Handled, Handled] \<and> idequeue t = [] \<and> drives t 1 7 = replicate BSIZE 9 \<and>
       b_data (bufs t ! 1) = replicate BSIZE 8)"
proof -
  let ?es = "[Request 0 [0xc0, 0x40], Request 1 [0x50], Interrupt [0x40] [0x40], Interrupt [0x40] [0x40]]"
  have a: "ata ata_disk" by (simp add: ata_def ata_disk_def)
  have i: "ide_inv two_requests"
    by (simp add: ide_inv_def two_requests_simps locked_buf_def FSSIZE_def zero_buf_def)
  have d: "list_all drive_ok ?es" by (simp add: ready_in_def IDE_DF_def IDE_ERR_def)
  define t where "t = snd (run_ops (ide_step ata_disk) ?es two_requests)"
  have m: "run_ops mem_step ?es ([], mem_disk two_requests) = (fst (run_ops (ide_step ata_disk) ?es two_requests), idequeue t, mem_disk t)"
    using ide_refines_memide [OF a i d] by (simp add: two_requests_simps t_def del: run_ops.simps)
  have h: "holdingsleep (b_lock (locked_buf d n x)) two_requests = Ret True" for d n x
    by (simp add: holdingsleep_def mypid_def locked_buf_def two_requests_simps)
  have q: "may_request 0 [] (mem_disk two_requests)" "may_request 1 [0] (mem_disk two_requests)"
    by (simp_all add: may_request_def iderw_def Let_def h two_requests_simps) (simp_all add: locked_buf_def zero_buf_def)
  let ?u = "wakeup (ChanIde 1) (transfer 1 (wakeup (ChanIde 0) (transfer 0 (mem_disk two_requests))))"
  have "run_ops mem_step ?es ([], mem_disk two_requests) = ([Waits True, Waits True, Handled, Handled], [], ?u)"
    using q by simp
  with m have t: "fst (run_ops (ide_step ata_disk) ?es two_requests) = [Waits True, Waits True, Handled, Handled]"
    "idequeue t = []" "mem_disk t = ?u" by (metis fst_conv, metis fst_conv snd_conv, metis snd_conv)
  have "disk ?u 7 = replicate BSIZE 9" "b_data (bufs ?u ! 1) = replicate BSIZE 8"
    by (simp_all add: transfer_alt wakeup_def wakeup1_def two_requests_simps new_sector_def new_buf_def locked_buf_def zero_buf_def One_nat_def)
  then have "drives t 1 7 = replicate BSIZE 9" "b_data (bufs t ! 1) = replicate BSIZE 8"
    unfolding t(3) [symmetric] mem_disk_simps .
  then show ?thesis using a i t(1,2) unfolding t_def by (simp add: split_beta Let_def del: run_ops.simps)
qed

end
