(* ===== verification/Log.thy ===== *)
theory Log
  imports Bio
begin

text \<open>
  The super block (\<open>readsb\<close> of \<open>fs.c\<close>) and the write-ahead log (\<open>log.c\<close>).

  \<open>log_state\<close> adds \<open>struct log\<close>. The header block on disk is kept as the bytes the C code writes:
  \<open>n\<close> and then the \<open>n\<close> block numbers, 32 bits each, little endian; the rest of the block is left
  as it was. An index past the end of \<open>log.lh.block\<close> is undefined behaviour.
\<close>

section \<open>Integers in blocks\<close>

definition le_int :: "uchar list \<Rightarrow> int" where
  "le_int bs = (let v = int (le_nat bs); w = 8 * length bs in if v < 2 ^ (w - 1) then v else v - 2 ^ w)"

definition get32 :: "nat \<Rightarrow> uchar list \<Rightarrow> nat" where
  "get32 off d = le_nat (slice_at off 4 d)"

definition put32 :: "nat \<Rightarrow> nat \<Rightarrow> uchar list \<Rightarrow> uchar list" where
  "put32 off v d = splice_at off (le_bytes 4 v) d"

section \<open>The super block\<close>

record superblock =
  sb_size :: nat
  sb_nblocks :: nat
  sb_ninodes :: nat
  sb_nlog :: nat
  sb_logstart :: nat
  sb_inodestart :: nat
  sb_bmapstart :: nat

definition superblock_of :: "uchar list \<Rightarrow> superblock" where
  "superblock_of d = \<lparr>sb_size = get32 0 d, sb_nblocks = get32 4 d, sb_ninodes = get32 8 d,
     sb_nlog = get32 12 d, sb_logstart = get32 16 d, sb_inodestart = get32 20 d, sb_bmapstart = get32 24 d\<rparr>"

definition readsb :: "nat \<Rightarrow> 'a bio_state_scheme \<Rightarrow> (superblock \<times> 'a bio_state_scheme) res" where
  "readsb dev s =
     bnd (bread dev 1 s) (\<lambda>(bp, s).
     let sb = superblock_of (b_data (bufs s ! bp))
     in bnd (brelse bp s) (\<lambda>s. Ret (sb, s)))"

section \<open>The log\<close>

record log_state = bio_state +
  log_start :: nat
  log_size :: int
  log_outstanding :: int
  log_committing :: bool
  log_dev :: nat
  lh_n :: int
  lh_block :: "nat list"

text \<open>\<open>memmove(to->data, from->data, BSIZE)\<close> between two buffers.\<close>

definition copy_buf :: "nat \<Rightarrow> nat \<Rightarrow> 'a bio_state_scheme \<Rightarrow> 'a bio_state_scheme" where
  "copy_buf to from s = upd_buf to (\<lambda>b. b\<lparr>b_data := b_data (bufs s ! from)\<rparr>) s"

definition install_one :: "nat \<Rightarrow> 'a log_state_scheme \<Rightarrow> 'a log_state_scheme res" where
  "install_one tail s =
     (if \<not> tail < length (lh_block s) then Undef
      else bnd (bread (log_dev s) (log_start s + tail + 1) s) (\<lambda>(lbuf, s).
           bnd (bread (log_dev s) (lh_block s ! tail) s) (\<lambda>(dbuf, s).
           bnd (bwrite dbuf (copy_buf dbuf lbuf s)) (\<lambda>s.
           bnd (brelse lbuf s) (\<lambda>s.
           brelse dbuf s)))))"

primrec install_loop :: "nat \<Rightarrow> nat \<Rightarrow> 'a log_state_scheme \<Rightarrow> 'a log_state_scheme res" where
  "install_loop 0 tail s = Ret s"
| "install_loop (Suc k) tail s = bnd (install_one tail s) (install_loop k (Suc tail))"

definition install_trans :: "'a log_state_scheme \<Rightarrow> 'a log_state_scheme res" where
  "install_trans s = install_loop (nat (lh_n s)) 0 s"

text \<open>The header in memory from the header block; entries past the array are undefined.\<close>

definition read_head :: "'a log_state_scheme \<Rightarrow> 'a log_state_scheme res" where
  "read_head s =
     bnd (bread (log_dev s) (log_start s) s) (\<lambda>(b, s).
     let d = b_data (bufs s ! b);
         n = le_int (slice_at 0 4 d)
     in if n > int (length (lh_block s)) then Undef
        else brelse b (s\<lparr>lh_n := n,
               lh_block := map (\<lambda>i. get32 (4 + 4 * i) d) [0..<nat n] @ drop (nat n) (lh_block s)\<rparr>))"

text \<open>The header block after \<open>write_head\<close> has put \<open>n\<close> and the block numbers into it.\<close>

definition put_head :: "int \<Rightarrow> nat list \<Rightarrow> uchar list \<Rightarrow> uchar list" where
  "put_head n bs d = fold (\<lambda>i. put32 (4 + 4 * i) (bs ! i)) [0..<nat n] (put32 0 (nat (n mod 2 ^ 32)) d)"

definition write_head :: "'a log_state_scheme \<Rightarrow> 'a log_state_scheme res" where
  "write_head s =
     bnd (bread (log_dev s) (log_start s) s) (\<lambda>(b, s).
     if lh_n s > int (length (lh_block s)) then Undef
     else bnd (bwrite b (upd_buf b (\<lambda>x. x\<lparr>b_data := put_head (lh_n s) (lh_block s) (b_data x)\<rparr>) s))
            (brelse b))"

definition recover_from_log :: "'a log_state_scheme \<Rightarrow> 'a log_state_scheme res" where
  "recover_from_log s =
     bnd (read_head s) (\<lambda>s.
     bnd (install_trans s) (\<lambda>s.
     write_head (s\<lparr>lh_n := 0\<rparr>)))"

text \<open>\<open>sizeof(struct logheader)\<close> is \<open>4 + 4 * LOGSIZE\<close>.\<close>

definition initlog :: "nat \<Rightarrow> 'a log_state_scheme \<Rightarrow> 'a log_state_scheme res" where
  "initlog dev s =
     (if 4 + 4 * LOGSIZE \<ge> BSIZE then Panic ''initlog: too big logheader''
      else bnd (readsb dev s) (\<lambda>(sb, s).
           recover_from_log (s\<lparr>log_start := sb_logstart sb, log_size := int (sb_nlog sb), log_dev := dev\<rparr>)))"

definition begin_op :: "'a log_state_scheme \<Rightarrow> 'a log_state_scheme res" where
  "begin_op s =
     (if log_committing s then Sleep ChanLog
      else if lh_n s + (log_outstanding s + 1) * int MAXOPBLOCKS > int LOGSIZE then Sleep ChanLog
      else Ret (s\<lparr>log_outstanding := log_outstanding s + 1\<rparr>))"

definition write_one :: "nat \<Rightarrow> 'a log_state_scheme \<Rightarrow> 'a log_state_scheme res" where
  "write_one tail s =
     (if \<not> tail < length (lh_block s) then Undef
      else bnd (bread (log_dev s) (log_start s + tail + 1) s) (\<lambda>(to, s).
           bnd (bread (log_dev s) (lh_block s ! tail) s) (\<lambda>(from, s).
           bnd (bwrite to (copy_buf to from s)) (\<lambda>s.
           bnd (brelse from s) (\<lambda>s.
           brelse to s)))))"

primrec write_loop :: "nat \<Rightarrow> nat \<Rightarrow> 'a log_state_scheme \<Rightarrow> 'a log_state_scheme res" where
  "write_loop 0 tail s = Ret s"
| "write_loop (Suc k) tail s = bnd (write_one tail s) (write_loop k (Suc tail))"

definition write_log :: "'a log_state_scheme \<Rightarrow> 'a log_state_scheme res" where
  "write_log s = write_loop (nat (lh_n s)) 0 s"

definition commit :: "'a log_state_scheme \<Rightarrow> 'a log_state_scheme res" where
  "commit s =
     (if lh_n s > 0
      then bnd (write_log s) (\<lambda>s.
           bnd (write_head s) (\<lambda>s.
           bnd (install_trans s) (\<lambda>s.
           write_head (s\<lparr>lh_n := 0\<rparr>))))
      else Ret s)"

definition end_op :: "'a log_state_scheme \<Rightarrow> 'a log_state_scheme res" where
  "end_op s =
     (let s = s\<lparr>log_outstanding := log_outstanding s - 1\<rparr>
      in if log_committing s then Panic ''log.committing''
         else if log_outstanding s = 0
         then bnd (commit (s\<lparr>log_committing := True\<rparr>)) (\<lambda>s.
              Ret (wakeup ChanLog (s\<lparr>log_committing := False\<rparr>)))
         else Ret (wakeup ChanLog s))"

definition log_write :: "nat \<Rightarrow> 'a log_state_scheme \<Rightarrow> 'a log_state_scheme res" where
  "log_write b s =
     (if lh_n s \<ge> int LOGSIZE \<or> lh_n s \<ge> log_size s - 1 then Panic ''too big a transaction''
      else if log_outstanding s < 1 then Panic ''log_write outside of trans''
      else (let blockno = b_blockno (bufs s ! b);
                i = (case find_idx (\<lambda>x. x = blockno) (take (nat (lh_n s)) (lh_block s)) of
                       Some i \<Rightarrow> i | None \<Rightarrow> nat (lh_n s));
                s = s\<lparr>lh_block := (lh_block s)[i := blockno],
                      lh_n := (if int i = lh_n s then lh_n s + 1 else lh_n s)\<rparr>
            in Ret (upd_buf b (\<lambda>x. x\<lparr>b_dirty := True\<rparr>) s)))"

end
