(* ===== verification/Fs.thy ===== *)
theory Fs
  imports Log
begin

text \<open>
  The file system, \<open>fs.c\<close>: block allocation, inodes, file contents, directories and path names.

  \<open>fs_state\<close> adds the super block in memory and the inode cache. A \<open>struct inode *\<close> is an index into
  the cache. Sizes, offsets and block numbers are \<open>uint\<close> in C; they are natural numbers here and the
  places where the C code relies on wrap-around say so with \<open>mod 2 ^ 32\<close>. The bytes \<open>readi\<close> stores at
  its argument \<open>dst\<close> are part of its result and the bytes \<open>writei\<close> finds at \<open>src\<close> are its argument.
  The table of device functions \<open>devsw\<close> is a parameter of \<open>readi\<close> and \<open>writei\<close>, by major number.
\<close>

section \<open>On-disk layout\<close>

definition ROOTINO :: nat where "ROOTINO = 1"
definition NDIRECT :: nat where "NDIRECT = 12"
definition NINDIRECT :: nat where "NINDIRECT = BSIZE div 4"
definition MAXFILE :: nat where "MAXFILE = NDIRECT + NINDIRECT"
definition DIRSIZ :: nat where "DIRSIZ = 14"

definition T_DIR :: int where "T_DIR = 1"
definition T_FILE :: int where "T_FILE = 2"
definition T_DEV :: int where "T_DEV = 3"

record dinode =
  d_type :: int
  d_major :: int
  d_minor :: int
  d_nlink :: int
  d_size :: nat
  d_addrs :: "nat list"

text \<open>\<open>sizeof(struct dinode)\<close> is 64, \<open>sizeof(struct dirent)\<close> is 16.\<close>

definition IPB :: nat where "IPB = BSIZE div 64"
definition BPB :: nat where "BPB = BSIZE * 8"
definition IBLOCK :: "nat \<Rightarrow> superblock \<Rightarrow> nat" where "IBLOCK i sb = i div IPB + sb_inodestart sb"
definition BBLOCK :: "nat \<Rightarrow> superblock \<Rightarrow> nat" where "BBLOCK b sb = b div BPB + sb_bmapstart sb"

definition dinode_of :: "uchar list \<Rightarrow> dinode" where
  "dinode_of d = \<lparr>d_type = le_int (slice_at 0 2 d), d_major = le_int (slice_at 2 2 d),
     d_minor = le_int (slice_at 4 2 d), d_nlink = le_int (slice_at 6 2 d), d_size = get32 8 d,
     d_addrs = map (\<lambda>i. get32 (12 + 4 * i) d) [0..<NDIRECT + 1]\<rparr>"

definition short_bytes :: "int \<Rightarrow> uchar list" where
  "short_bytes v = le_bytes 2 (nat (v mod 2 ^ 16))"

definition dinode_bytes :: "dinode \<Rightarrow> uchar list" where
  "dinode_bytes i = short_bytes (d_type i) @ short_bytes (d_major i) @ short_bytes (d_minor i) @
     short_bytes (d_nlink i) @ le_bytes 4 (d_size i) @ concat (map (le_bytes 4) (d_addrs i))"

record dirent =
  de_inum :: nat
  de_name :: "uchar list"

definition dirent_of :: "uchar list \<Rightarrow> dirent" where
  "dirent_of d = \<lparr>de_inum = le_nat (slice_at 0 2 d), de_name = slice_at 2 DIRSIZ d\<rparr>"

definition dirent_bytes :: "dirent \<Rightarrow> uchar list" where
  "dirent_bytes de = le_bytes 2 (de_inum de) @ de_name de"

section \<open>State\<close>

record inode =
  i_dev :: nat
  i_inum :: nat
  i_ref :: int
  i_lock :: sleeplock
  i_valid :: bool
  i_type :: int
  i_major :: int
  i_minor :: int
  i_nlink :: int
  i_size :: nat
  i_addrs :: "nat list"

record fs_state = log_state +
  sb :: superblock
  icache :: "inode list"

definition upd_inode :: "nat \<Rightarrow> (inode \<Rightarrow> inode) \<Rightarrow> 'a fs_state_scheme \<Rightarrow> 'a fs_state_scheme" where
  "upd_inode i f s = s\<lparr>icache := (icache s)[i := f (icache s ! i)]\<rparr>"

definition set_data :: "nat \<Rightarrow> (uchar list \<Rightarrow> uchar list) \<Rightarrow> 'a bio_state_scheme \<Rightarrow> 'a bio_state_scheme" where
  "set_data bp f s = upd_buf bp (\<lambda>b. b\<lparr>b_data := f (b_data b)\<rparr>) s"

section \<open>Blocks\<close>

definition bzero :: "nat \<Rightarrow> nat \<Rightarrow> 'a log_state_scheme \<Rightarrow> 'a log_state_scheme res" where
  "bzero dev bno s =
     bnd (bread dev bno s) (\<lambda>(bp, s).
     bnd (log_write bp (set_data bp (\<lambda>_. replicate BSIZE 0) s)) (brelse bp))"

text \<open>The bit of block \<open>bi\<close> in a block of the free map.\<close>

definition bit_set :: "uchar list \<Rightarrow> nat \<Rightarrow> bool" where
  "bit_set d bi \<longleftrightarrow> d ! (bi div 8) AND push_bit (bi mod 8) 1 \<noteq> 0"

definition mark_bit :: "nat \<Rightarrow> uchar list \<Rightarrow> uchar list" where
  "mark_bit bi d = d[bi div 8 := d ! (bi div 8) OR push_bit (bi mod 8) 1]"

definition clear_bit :: "nat \<Rightarrow> uchar list \<Rightarrow> uchar list" where
  "clear_bit bi d = d[bi div 8 := d ! (bi div 8) AND NOT (push_bit (bi mod 8) 1)]"

text \<open>The outer loop of \<open>balloc\<close>: \<open>k\<close> free map blocks are left, the next one starts with the bit of
  block \<open>b\<close>. The inner loop is the search for the first clear bit.\<close>

primrec balloc_loop :: "nat \<Rightarrow> nat \<Rightarrow> nat \<Rightarrow> 'a fs_state_scheme \<Rightarrow> (nat \<times> 'a fs_state_scheme) res" where
  "balloc_loop 0 dev b s = Panic ''balloc: out of blocks''"
| "balloc_loop (Suc k) dev b s =
     bnd (bread dev (BBLOCK b (sb s)) s) (\<lambda>(bp, s).
     case find_idx (\<lambda>bi. \<not> bit_set (b_data (bufs s ! bp)) bi) [0..<min BPB (sb_size (sb s) - b)] of
       Some bi \<Rightarrow>
         bnd (log_write bp (set_data bp (mark_bit bi) s)) (\<lambda>s.
         bnd (brelse bp s) (\<lambda>s.
         bnd (bzero dev (b + bi) s) (\<lambda>s. Ret (b + bi, s))))
     | None \<Rightarrow> bnd (brelse bp s) (balloc_loop k dev (b + BPB)))"

definition balloc :: "nat \<Rightarrow> 'a fs_state_scheme \<Rightarrow> (nat \<times> 'a fs_state_scheme) res" where
  "balloc dev s = balloc_loop ((sb_size (sb s) + BPB - 1) div BPB) dev 0 s"

definition bfree :: "nat \<Rightarrow> nat \<Rightarrow> 'a fs_state_scheme \<Rightarrow> 'a fs_state_scheme res" where
  "bfree dev b s =
     bnd (readsb dev s) (\<lambda>(super, s).
     let s = s\<lparr>sb := super\<rparr>
     in bnd (bread dev (BBLOCK b (sb s)) s) (\<lambda>(bp, s).
        let bi = b mod BPB
        in if \<not> bit_set (b_data (bufs s ! bp)) bi then Panic ''freeing free block''
           else bnd (log_write bp (set_data bp (clear_bit bi) s)) (brelse bp)))"

section \<open>Inodes\<close>

definition iinit :: "nat \<Rightarrow> 'a fs_state_scheme \<Rightarrow> 'a fs_state_scheme res" where
  "iinit dev s =
     bnd (readsb dev (s\<lparr>icache := map (\<lambda>ip. ip\<lparr>i_lock := initsleeplock ''inode''\<rparr>) (icache s)\<rparr>))
       (\<lambda>(super, s).
          cprintf (''sb: size %d nblocks %d ninodes %d nlog %d logstart %d inodestart %d bmap start %d'' @ [CHR 0x0A])
            [AInt (int (sb_size super)), AInt (int (sb_nblocks super)), AInt (int (sb_ninodes super)),
             AInt (int (sb_nlog super)), AInt (int (sb_logstart super)), AInt (int (sb_inodestart super)),
             AInt (int (sb_bmapstart super))]
            (s\<lparr>sb := super\<rparr>))"

definition iget :: "nat \<Rightarrow> nat \<Rightarrow> 'a fs_state_scheme \<Rightarrow> (nat \<times> 'a fs_state_scheme) res" where
  "iget dev inum s =
     (case find_idx (\<lambda>ip. i_ref ip > 0 \<and> i_dev ip = dev \<and> i_inum ip = inum) (icache s) of
        Some ip \<Rightarrow> Ret (ip, upd_inode ip (\<lambda>x. x\<lparr>i_ref := i_ref x + 1\<rparr>) s)
      | None \<Rightarrow>
          (case find_idx (\<lambda>ip. i_ref ip = 0) (icache s) of
             None \<Rightarrow> Panic ''iget: no inodes''
           | Some ip \<Rightarrow> Ret (ip, upd_inode ip (\<lambda>x. x\<lparr>i_dev := dev, i_inum := inum, i_ref := 1, i_valid := False\<rparr>) s)))"

definition idup :: "nat \<Rightarrow> 'a fs_state_scheme \<Rightarrow> nat \<times> 'a fs_state_scheme" where
  "idup ip s = (ip, upd_inode ip (\<lambda>x. x\<lparr>i_ref := i_ref x + 1\<rparr>) s)"

definition dinode_at :: "nat \<Rightarrow> uchar list \<Rightarrow> uchar list" where
  "dinode_at inum d = slice_at (64 * (inum mod IPB)) 64 d"

primrec ialloc_loop :: "nat \<Rightarrow> nat \<Rightarrow> nat \<Rightarrow> int \<Rightarrow> 'a fs_state_scheme \<Rightarrow> (nat \<times> 'a fs_state_scheme) res" where
  "ialloc_loop 0 inum dev type s = Panic ''ialloc: no inodes''"
| "ialloc_loop (Suc k) inum dev type s =
     bnd (bread dev (IBLOCK inum (sb s)) s) (\<lambda>(bp, s).
     if d_type (dinode_of (dinode_at inum (b_data (bufs s ! bp)))) = 0
     then bnd (log_write bp (set_data bp
                (splice_at (64 * (inum mod IPB)) (short_bytes type @ replicate 62 0)) s)) (\<lambda>s.
          bnd (brelse bp s) (iget dev inum))
     else bnd (brelse bp s) (ialloc_loop k (Suc inum) dev type))"

definition ialloc :: "nat \<Rightarrow> int \<Rightarrow> 'a fs_state_scheme \<Rightarrow> (nat \<times> 'a fs_state_scheme) res" where
  "ialloc dev type s = ialloc_loop (sb_ninodes (sb s) - 1) 1 dev type s"

definition dinode_of_inode :: "inode \<Rightarrow> dinode" where
  "dinode_of_inode ip = \<lparr>d_type = i_type ip, d_major = i_major ip, d_minor = i_minor ip,
     d_nlink = i_nlink ip, d_size = i_size ip, d_addrs = i_addrs ip\<rparr>"

definition iupdate :: "nat \<Rightarrow> 'a fs_state_scheme \<Rightarrow> 'a fs_state_scheme res" where
  "iupdate ip s =
     (let x = icache s ! ip
      in bnd (bread (i_dev x) (IBLOCK (i_inum x) (sb s)) s) (\<lambda>(bp, s).
         bnd (log_write bp (set_data bp
               (splice_at (64 * (i_inum x mod IPB)) (dinode_bytes (dinode_of_inode x))) s)) (brelse bp)))"

definition ilock :: "nat \<Rightarrow> 'a fs_state_scheme \<Rightarrow> 'a fs_state_scheme res" where
  "ilock ip s =
     (if i_ref (icache s ! ip) < 1 then Panic ''ilock''
      else bnd (acquiresleep (ChanInode ip) (i_lock (icache s ! ip)) s) (\<lambda>lk.
        let s = upd_inode ip (\<lambda>x. x\<lparr>i_lock := lk\<rparr>) s; x = icache s ! ip
        in if i_valid x then Ret s
           else bnd (bread (i_dev x) (IBLOCK (i_inum x) (sb s)) s) (\<lambda>(bp, s).
             let d = dinode_of (dinode_at (i_inum x) (b_data (bufs s ! bp)));
                 s = upd_inode ip (\<lambda>x. x\<lparr>i_type := d_type d, i_major := d_major d, i_minor := d_minor d,
                       i_nlink := d_nlink d, i_size := d_size d, i_addrs := d_addrs d\<rparr>) s
             in bnd (brelse bp s) (\<lambda>s.
                let s = upd_inode ip (\<lambda>x. x\<lparr>i_valid := True\<rparr>) s
                in if i_type (icache s ! ip) = 0 then Panic ''ilock: no type'' else Ret s))))"

definition iunlock :: "nat \<Rightarrow> 'a fs_state_scheme \<Rightarrow> 'a fs_state_scheme res" where
  "iunlock ip s =
     bnd (holdingsleep (i_lock (icache s ! ip)) s) (\<lambda>h.
     if \<not> h \<or> i_ref (icache s ! ip) < 1 then Panic ''iunlock''
     else (let (lk, s) = releasesleep (ChanInode ip) (i_lock (icache s ! ip)) s
           in Ret (upd_inode ip (\<lambda>x. x\<lparr>i_lock := lk\<rparr>) s)))"

primrec itrunc_direct :: "nat \<Rightarrow> nat \<Rightarrow> nat \<Rightarrow> 'a fs_state_scheme \<Rightarrow> 'a fs_state_scheme res" where
  "itrunc_direct 0 i ip s = Ret s"
| "itrunc_direct (Suc k) i ip s =
     (let a = i_addrs (icache s ! ip) ! i
      in if a \<noteq> 0
         then bnd (bfree (i_dev (icache s ! ip)) a s) (\<lambda>s.
              itrunc_direct k (Suc i) ip (upd_inode ip (\<lambda>x. x\<lparr>i_addrs := (i_addrs x)[i := 0]\<rparr>) s))
         else itrunc_direct k (Suc i) ip s)"

text \<open>The block numbers are read through the locked buffer \<open>bp\<close> of the indirect block.\<close>

primrec itrunc_indirect :: "nat \<Rightarrow> nat \<Rightarrow> nat \<Rightarrow> nat \<Rightarrow> 'a fs_state_scheme \<Rightarrow> 'a fs_state_scheme res" where
  "itrunc_indirect 0 j bp dev s = Ret s"
| "itrunc_indirect (Suc k) j bp dev s =
     (let a = get32 (4 * j) (b_data (bufs s ! bp))
      in bnd (if a \<noteq> 0 then bfree dev a s else Ret s) (itrunc_indirect k (Suc j) bp dev))"

definition itrunc :: "nat \<Rightarrow> 'a fs_state_scheme \<Rightarrow> 'a fs_state_scheme res" where
  "itrunc ip s =
     bnd (itrunc_direct NDIRECT 0 ip s) (\<lambda>s.
     bnd (let x = icache s ! ip; dev = i_dev x; a = i_addrs x ! NDIRECT
          in if a \<noteq> 0
             then bnd (bread dev a s) (\<lambda>(bp, s).
                  bnd (itrunc_indirect NINDIRECT 0 bp dev s) (\<lambda>s.
                  bnd (brelse bp s) (\<lambda>s.
                  bnd (bfree dev a s) (\<lambda>s.
                  Ret (upd_inode ip (\<lambda>x. x\<lparr>i_addrs := (i_addrs x)[NDIRECT := 0]\<rparr>) s)))))
             else Ret s) (\<lambda>s.
     iupdate ip (upd_inode ip (\<lambda>x. x\<lparr>i_size := 0\<rparr>) s)))"

definition iput :: "nat \<Rightarrow> 'a fs_state_scheme \<Rightarrow> 'a fs_state_scheme res" where
  "iput ip s =
     bnd (acquiresleep (ChanInode ip) (i_lock (icache s ! ip)) s) (\<lambda>lk.
     let s = upd_inode ip (\<lambda>x. x\<lparr>i_lock := lk\<rparr>) s; x = icache s ! ip
     in bnd (if i_valid x \<and> i_nlink x = 0 \<and> i_ref x = 1
             then bnd (itrunc ip s) (\<lambda>s.
                  bnd (iupdate ip (upd_inode ip (\<lambda>x. x\<lparr>i_type := 0\<rparr>) s)) (\<lambda>s.
                  Ret (upd_inode ip (\<lambda>x. x\<lparr>i_valid := False\<rparr>) s)))
             else Ret s) (\<lambda>s.
        let (lk, s) = releasesleep (ChanInode ip) (i_lock (icache s ! ip)) s
        in Ret (upd_inode ip (\<lambda>x. x\<lparr>i_lock := lk, i_ref := i_ref x - 1\<rparr>) s)))"

definition iunlockput :: "nat \<Rightarrow> 'a fs_state_scheme \<Rightarrow> 'a fs_state_scheme res" where
  "iunlockput ip s = bnd (iunlock ip s) (iput ip)"

section \<open>File contents\<close>

definition bmap :: "nat \<Rightarrow> nat \<Rightarrow> 'a fs_state_scheme \<Rightarrow> (nat \<times> 'a fs_state_scheme) res" where
  "bmap ip bn s =
     (let x = icache s ! ip
      in if bn < NDIRECT
         then (if i_addrs x ! bn = 0
               then bnd (balloc (i_dev x) s) (\<lambda>(addr, s).
                    Ret (addr, upd_inode ip (\<lambda>x. x\<lparr>i_addrs := (i_addrs x)[bn := addr]\<rparr>) s))
               else Ret (i_addrs x ! bn, s))
         else if bn - NDIRECT < NINDIRECT
         then (let bn = bn - NDIRECT
               in bnd (if i_addrs x ! NDIRECT = 0
                       then bnd (balloc (i_dev x) s) (\<lambda>(addr, s).
                            Ret (addr, upd_inode ip (\<lambda>x. x\<lparr>i_addrs := (i_addrs x)[NDIRECT := addr]\<rparr>) s))
                       else Ret (i_addrs x ! NDIRECT, s)) (\<lambda>(ind, s).
                  bnd (bread (i_dev x) ind s) (\<lambda>(bp, s).
                  let addr = get32 (4 * bn) (b_data (bufs s ! bp))
                  in if addr = 0
                     then bnd (balloc (i_dev x) s) (\<lambda>(addr, s).
                          bnd (log_write bp (set_data bp (put32 (4 * bn) addr) s)) (\<lambda>s.
                          bnd (brelse bp s) (\<lambda>s. Ret (addr, s))))
                     else bnd (brelse bp s) (\<lambda>s. Ret (addr, s)))))
         else Panic ''bmap: out of range'')"

record fstat =
  st_type :: int
  st_dev :: nat
  st_ino :: nat
  st_nlink :: int
  st_size :: nat

definition stati :: "nat \<Rightarrow> 'a fs_state_scheme \<Rightarrow> fstat" where
  "stati ip s = (let x = icache s ! ip in
     \<lparr>st_type = i_type x, st_dev = i_dev x, st_ino = i_inum x, st_nlink = i_nlink x, st_size = i_size x\<rparr>)"

text \<open>A device's \<open>read\<close> is called with the inode and the number of bytes and returns a count with the
  bytes it has stored; \<open>write\<close> is called with the inode and the bytes.\<close>

type_synonym 's dev_read = "nat \<Rightarrow> (nat \<Rightarrow> nat \<Rightarrow> 's \<Rightarrow> ((int \<times> uchar list) \<times> 's) res) option"
type_synonym 's dev_write = "nat \<Rightarrow> (nat \<Rightarrow> uchar list \<Rightarrow> 's \<Rightarrow> (int \<times> 's) res) option"

definition no_dev_read :: "'s dev_read" where "no_dev_read = (\<lambda>_. None)"
definition no_dev_write :: "'s dev_write" where "no_dev_write = (\<lambda>_. None)"

function readi_loop :: "nat \<Rightarrow> nat \<Rightarrow> nat \<Rightarrow> 'a fs_state_scheme \<Rightarrow> (uchar list \<times> 'a fs_state_scheme) res" where
  "readi_loop ip off n s =
     (if n = 0 then Ret ([], s)
      else bnd (bmap ip (off div BSIZE) s) (\<lambda>(addr, s).
           bnd (bread (i_dev (icache s ! ip)) addr s) (\<lambda>(bp, s).
           let m = min n (BSIZE - off mod BSIZE);
               bs = slice_at (off mod BSIZE) m (b_data (bufs s ! bp))
           in bnd (brelse bp s) (\<lambda>s.
              bnd (readi_loop ip (off + m) (n - m) s) (\<lambda>(bs', s). Ret (bs @ bs', s))))))"
  by pat_completeness auto
termination
  by (relation "measure (\<lambda>(_, _, n, _). n)") (auto simp: BSIZE_def)

definition readi ::
    "'a fs_state_scheme dev_read \<Rightarrow> nat \<Rightarrow> nat \<Rightarrow> nat \<Rightarrow> 'a fs_state_scheme \<Rightarrow>
      ((int \<times> uchar list) \<times> 'a fs_state_scheme) res" where
  "readi dr ip off n s =
     (let x = icache s ! ip
      in if i_type x = T_DEV
         then (if i_major x < 0 \<or> i_major x \<ge> int NDEV then Ret ((- 1, []), s)
               else (case dr (nat (i_major x)) of None \<Rightarrow> Ret ((- 1, []), s) | Some f \<Rightarrow> f ip n s))
         else if off > i_size x \<or> (off + n) mod 2 ^ 32 < off then Ret ((- 1, []), s)
         else (let n = (if off + n > i_size x then i_size x - off else n)
               in bnd (readi_loop ip off n s) (\<lambda>(bs, s). Ret ((int n, bs), s))))"

function writei_loop :: "nat \<Rightarrow> nat \<Rightarrow> uchar list \<Rightarrow> 'a fs_state_scheme \<Rightarrow> 'a fs_state_scheme res" where
  "writei_loop ip off src s =
     (if src = [] then Ret s
      else bnd (bmap ip (off div BSIZE) s) (\<lambda>(addr, s).
           bnd (bread (i_dev (icache s ! ip)) addr s) (\<lambda>(bp, s).
           let m = min (length src) (BSIZE - off mod BSIZE)
           in bnd (log_write bp (set_data bp (splice_at (off mod BSIZE) (take m src)) s)) (\<lambda>s.
              bnd (brelse bp s) (writei_loop ip (off + m) (drop m src))))))"
  by pat_completeness auto
termination
  by (relation "measure (\<lambda>(_, _, src, _). length src)") (auto simp: BSIZE_def)

definition writei ::
    "'a fs_state_scheme dev_write \<Rightarrow> nat \<Rightarrow> uchar list \<Rightarrow> nat \<Rightarrow> 'a fs_state_scheme \<Rightarrow>
      (int \<times> 'a fs_state_scheme) res" where
  "writei dw ip src off s =
     (let x = icache s ! ip; n = length src
      in if i_type x = T_DEV
         then (if i_major x < 0 \<or> i_major x \<ge> int NDEV then Ret (- 1, s)
               else (case dw (nat (i_major x)) of None \<Rightarrow> Ret (- 1, s) | Some f \<Rightarrow> f ip src s))
         else if off > i_size x \<or> (off + n) mod 2 ^ 32 < off then Ret (- 1, s)
         else if off + n > MAXFILE * BSIZE then Ret (- 1, s)
         else bnd (writei_loop ip off src s) (\<lambda>s.
           if n > 0 \<and> off + n > i_size (icache s ! ip)
           then bnd (iupdate ip (upd_inode ip (\<lambda>x. x\<lparr>i_size := off + n\<rparr>) s)) (\<lambda>s. Ret (int n, s))
           else Ret (int n, s)))"

section \<open>Directories\<close>

definition namecmp :: "uchar list \<Rightarrow> uchar list \<Rightarrow> int res" where
  "namecmp s t = strncmp s t DIRSIZ"

text \<open>The loop of \<open>dirlookup\<close> from offset \<open>off\<close>, with \<open>k\<close> entries left before \<open>dp->size\<close>. It returns
  the inode and the offset of the entry found. A directory never reaches the device table.\<close>

primrec dirlookup_loop ::
    "nat \<Rightarrow> nat \<Rightarrow> nat \<Rightarrow> uchar list \<Rightarrow> 'a fs_state_scheme \<Rightarrow> ((nat \<times> nat) option \<times> 'a fs_state_scheme) res" where
  "dirlookup_loop 0 off dp name s = Ret (None, s)"
| "dirlookup_loop (Suc k) off dp name s =
     bnd (readi no_dev_read dp off 16 s) (\<lambda>((r, bs), s).
     if r \<noteq> 16 then Panic ''dirlookup read''
     else (let de = dirent_of bs
           in if de_inum de = 0 then dirlookup_loop k (off + 16) dp name s
              else bnd (namecmp name (de_name de)) (\<lambda>c.
                if c = 0
                then bnd (iget (i_dev (icache s ! dp)) (de_inum de) s) (\<lambda>(ip, s). Ret (Some (ip, off), s))
                else dirlookup_loop k (off + 16) dp name s)))"

definition dirlookup ::
    "nat \<Rightarrow> uchar list \<Rightarrow> 'a fs_state_scheme \<Rightarrow> ((nat \<times> nat) option \<times> 'a fs_state_scheme) res" where
  "dirlookup dp name s =
     (if i_type (icache s ! dp) \<noteq> T_DIR then Panic ''dirlookup not DIR''
      else dirlookup_loop ((i_size (icache s ! dp) + 15) div 16) 0 dp name s)"

text \<open>The search of \<open>dirlink\<close> for an empty entry returns its offset.\<close>

primrec dirlink_loop :: "nat \<Rightarrow> nat \<Rightarrow> nat \<Rightarrow> 'a fs_state_scheme \<Rightarrow> (nat \<times> 'a fs_state_scheme) res" where
  "dirlink_loop 0 off dp s = Ret (off, s)"
| "dirlink_loop (Suc k) off dp s =
     bnd (readi no_dev_read dp off 16 s) (\<lambda>((r, bs), s).
     if r \<noteq> 16 then Panic ''dirlink read''
     else if de_inum (dirent_of bs) = 0 then Ret (off, s)
     else dirlink_loop k (off + 16) dp s)"

text \<open>\<open>de.name\<close> holds the name of the entry read last, or is uninitialised; \<open>strncpy\<close> overwrites all
  of its \<open>DIRSIZ\<close> bytes.\<close>

definition dirlink :: "nat \<Rightarrow> uchar list \<Rightarrow> nat \<Rightarrow> 'a fs_state_scheme \<Rightarrow> (int \<times> 'a fs_state_scheme) res" where
  "dirlink dp name inum s =
     bnd (dirlookup dp name s) (\<lambda>(r, s).
     case r of
       Some (ip, _) \<Rightarrow> bnd (iput ip s) (\<lambda>s. Ret (- 1, s))
     | None \<Rightarrow>
         bnd (dirlink_loop ((i_size (icache s ! dp) + 15) div 16) 0 dp s) (\<lambda>(off, s).
         bnd (strncpy (replicate DIRSIZ 0) name DIRSIZ) (\<lambda>nm.
         bnd (writei no_dev_write dp (dirent_bytes \<lparr>de_inum = inum mod 2 ^ 16, de_name = nm\<rparr>) off s) (\<lambda>(r, s).
         if r \<noteq> 16 then Panic ''dirlink'' else Ret (0, s)))))"

section \<open>Paths\<close>

text \<open>A path is the bytes from the pointer on, up to and including the terminating NUL or beyond it.
  \<open>name\<close> is the array of \<open>DIRSIZ\<close> bytes the element is copied to.\<close>

definition skip_slashes :: "uchar list \<Rightarrow> uchar list" where
  "skip_slashes path = dropWhile (\<lambda>c. c = 47) path"

definition skipelem :: "uchar list \<Rightarrow> uchar list \<Rightarrow> (uchar list \<times> uchar list) option res" where
  "skipelem path name =
     (let path = skip_slashes path
      in if path = [] then Undef
         else if hd path = 0 then Ret None
         else (let elem = takeWhile (\<lambda>c. c \<noteq> 47 \<and> c \<noteq> 0) path;
                   path = dropWhile (\<lambda>c. c \<noteq> 47 \<and> c \<noteq> 0) path;
                   len = length elem;
                   name = (if len \<ge> DIRSIZ then take DIRSIZ elem @ drop DIRSIZ name
                           else elem @ 0 # drop (len + 1) name)
               in if path = [] then Undef else Ret (Some (skip_slashes path, name))))"

lemma length_skip_slashes: "length (skip_slashes p) \<le> length p"
  unfolding skip_slashes_def by (rule length_dropWhile_le)

lemma skipelem_shorter:
  assumes "skipelem path name = Ret (Some (rest, name'))"
  shows "length rest < length path"
proof -
  let ?p = "skip_slashes path"
  have p: "?p \<noteq> []" "hd ?p \<noteq> 0"
      "rest = skip_slashes (dropWhile (\<lambda>c. c \<noteq> 47 \<and> c \<noteq> 0) ?p)"
    using assms by (auto simp: skipelem_def Let_def split: if_splits)
  moreover have "hd ?p \<noteq> 47"
    using p(1) hd_dropWhile [of "\<lambda>c. c = 47" path] by (auto simp: skip_slashes_def)
  ultimately have "length (dropWhile (\<lambda>c. c \<noteq> 47 \<and> c \<noteq> 0) ?p) < length ?p"
    by (cases ?p) (auto intro: le_imp_less_Suc length_dropWhile_le)
  then show ?thesis
    unfolding p(3) using length_skip_slashes [of path] length_skip_slashes [of "dropWhile (\<lambda>c. c \<noteq> 47 \<and> c \<noteq> 0) ?p"]
    by linarith
qed

function namex_loop ::
    "nat \<Rightarrow> uchar list \<Rightarrow> bool \<Rightarrow> uchar list \<Rightarrow> 'a fs_state_scheme \<Rightarrow>
      ((nat \<times> uchar list) option \<times> 'a fs_state_scheme) res" where
  "namex_loop ip path nameiparent name s =
     bnd (skipelem path name) (\<lambda>r.
     case r of
       None \<Rightarrow> (if nameiparent then bnd (iput ip s) (\<lambda>s. Ret (None, s)) else Ret (Some (ip, name), s))
     | Some (path, name) \<Rightarrow>
         bnd (ilock ip s) (\<lambda>s.
         if i_type (icache s ! ip) \<noteq> T_DIR then bnd (iunlockput ip s) (\<lambda>s. Ret (None, s))
         else if nameiparent \<and> path \<noteq> [] \<and> hd path = 0 then bnd (iunlock ip s) (\<lambda>s. Ret (Some (ip, name), s))
         else bnd (dirlookup ip name s) (\<lambda>(next, s).
           case next of
             None \<Rightarrow> bnd (iunlockput ip s) (\<lambda>s. Ret (None, s))
           | Some (next, _) \<Rightarrow> bnd (iunlockput ip s) (\<lambda>s. namex_loop next path nameiparent name s))))"
  by pat_completeness auto
termination
  by (relation "measure (\<lambda>(_, path, _). length path)") (auto dest: skipelem_shorter)

definition namex ::
    "uchar list \<Rightarrow> bool \<Rightarrow> uchar list \<Rightarrow> 'a fs_state_scheme \<Rightarrow>
      ((nat \<times> uchar list) option \<times> 'a fs_state_scheme) res" where
  "namex path nameiparent name s =
     (if path = [] then Undef
      else bnd (if hd path = 47 then iget ROOTDEV ROOTINO s
                else (case cur s of None \<Rightarrow> Undef
                      | Some p \<Rightarrow> (case p_cwd (ptable s ! p) of None \<Rightarrow> Undef | Some ip \<Rightarrow> Ret (idup ip s))))
             (\<lambda>(ip, s). namex_loop ip path nameiparent name s))"

definition namei :: "uchar list \<Rightarrow> 'a fs_state_scheme \<Rightarrow> (nat option \<times> 'a fs_state_scheme) res" where
  "namei path s =
     bnd (namex path False (replicate DIRSIZ 0) s) (\<lambda>(r, s). Ret (map_option fst r, s))"

definition nameiparent ::
    "uchar list \<Rightarrow> uchar list \<Rightarrow> 'a fs_state_scheme \<Rightarrow> ((nat \<times> uchar list) option \<times> 'a fs_state_scheme) res" where
  "nameiparent path name s = namex path True name s"

end
