(* ===== verification/Pipe.thy ===== *)
theory Pipe
  imports Klib
begin

text \<open>
  The pipe buffer of \<open>pipe.c\<close>. \<open>nread\<close> and \<open>nwrite\<close> count all bytes ever read and written, modulo
  \<open>2 ^ 32\<close>; both index the array modulo \<open>PIPESIZE\<close>. A reader or writer that has to sleep stops with
  \<open>PSleep\<close>, with what it still has to do, and goes on from there when it is woken; the wakeups and the
  process that sleeps are in theory \<open>File\<close>.
\<close>

section \<open>Operations\<close>

definition PIPESIZE :: nat where "PIPESIZE = 512"

record pipe =
  pi_data :: "uchar list"
  pi_nread :: uint
  pi_nwrite :: uint
  pi_readopen :: bool
  pi_writeopen :: bool

text \<open>A pipe page as \<open>pipealloc\<close> initialises it; \<open>data\<close> is whatever the page held.\<close>

definition pipe_init :: "uchar list \<Rightarrow> pipe" where
  "pipe_init d = \<lparr>pi_data = d, pi_nread = 0, pi_nwrite = 0, pi_readopen = True, pi_writeopen = True\<rparr>"

datatype 'r pipe_out = PDone 'r pipe | PSleep "uchar list" pipe

definition pipe_put :: "uchar \<Rightarrow> pipe \<Rightarrow> pipe" where
  "pipe_put c p = p\<lparr>pi_data := (pi_data p)[unat (pi_nwrite p) mod PIPESIZE := c],
     pi_nwrite := pi_nwrite p + 1\<rparr>"

definition pipe_get :: "pipe \<Rightarrow> uchar \<times> pipe" where
  "pipe_get p = (pi_data p ! (unat (pi_nread p) mod PIPESIZE), p\<lparr>pi_nread := pi_nread p + 1\<rparr>)"

text \<open>\<open>pipewrite_loop\<close> with the bytes still to be written; it returns \<open>True\<close> at the end and
  \<open>False\<close> when the reader has gone or the process was killed.\<close>

primrec pipewrite_loop :: "bool \<Rightarrow> uchar list \<Rightarrow> pipe \<Rightarrow> bool pipe_out" where
  "pipewrite_loop killed [] p = PDone True p"
| "pipewrite_loop killed (c # cs) p =
     (if pi_nwrite p = pi_nread p + word_of_nat PIPESIZE
      then (if \<not> pi_readopen p \<or> killed then PDone False p else PSleep (c # cs) p)
      else pipewrite_loop killed cs (pipe_put c p))"

primrec piperead_loop :: "nat \<Rightarrow> pipe \<Rightarrow> uchar list \<times> pipe" where
  "piperead_loop 0 p = ([], p)"
| "piperead_loop (Suc n) p =
     (if pi_nread p = pi_nwrite p then ([], p)
      else (let (c, p) = pipe_get p; (cs, p) = piperead_loop n p in (c # cs, p)))"

text \<open>\<open>None\<close> is the return value -1.\<close>

definition piperead_out :: "bool \<Rightarrow> nat \<Rightarrow> pipe \<Rightarrow> uchar list option pipe_out" where
  "piperead_out killed n p =
     (if pi_nread p = pi_nwrite p \<and> pi_writeopen p
      then (if killed then PDone None p else PSleep [] p)
      else (let (cs, p) = piperead_loop n p in PDone (Some cs) p))"

text \<open>What \<open>pipeclose\<close> does to the flags.\<close>

definition pipe_shut :: "bool \<Rightarrow> pipe \<Rightarrow> pipe" where
  "pipe_shut writable p = (if writable then p\<lparr>pi_writeopen := False\<rparr> else p\<lparr>pi_readopen := False\<rparr>)"

section \<open>The bytes in a pipe\<close>

definition pipe_len :: "pipe \<Rightarrow> nat" where
  "pipe_len p = unat (pi_nwrite p - pi_nread p)"

definition pipe_inv :: "pipe \<Rightarrow> bool" where
  "pipe_inv p \<longleftrightarrow> length (pi_data p) = PIPESIZE \<and> pipe_len p \<le> PIPESIZE"

definition pipe_bytes :: "pipe \<Rightarrow> uchar list" where
  "pipe_bytes p = map (\<lambda>i. pi_data p ! (unat (pi_nread p + word_of_nat i) mod PIPESIZE)) [0..<pipe_len p]"

text \<open>What a channel promises: a bounded first-in first-out queue.\<close>

locale fifo =
  fixes put :: "'c \<Rightarrow> 's \<Rightarrow> 's"
    and get :: "'s \<Rightarrow> 'c \<times> 's"
    and inv :: "'s \<Rightarrow> bool"
    and contents :: "'s \<Rightarrow> 'c list"
    and cap :: nat
  assumes put_law: "inv s \<Longrightarrow> length (contents s) < cap \<Longrightarrow>
      inv (put c s) \<and> contents (put c s) = contents s @ [c]"
    and get_law: "inv s \<Longrightarrow> contents s \<noteq> [] \<Longrightarrow>
      inv (snd (get s)) \<and> contents s = fst (get s) # contents (snd (get s))"
begin

lemma put_all:
  assumes "inv s" and "length (contents s) + length cs \<le> cap"
  shows "inv (fold put cs s) \<and> contents (fold put cs s) = contents s @ cs"
  using assms
proof (induction cs arbitrary: s)
  case Nil
  then show ?case by simp
next
  case (Cons c cs)
  then have "inv (put c s)" "contents (put c s) = contents s @ [c]" using put_law by auto
  with Cons.IH [of "put c s"] Cons.prems(2) show ?case by simp
qed

end

section \<open>Wrap-around\<close>

lemma unat_add_mod_dvd:
  fixes a :: uint
  assumes "n dvd 2 ^ 32"
  shows "unat (a + word_of_nat i) mod n = (unat a + i) mod n"
proof -
  have "unat (a + word_of_nat i) = (unat a + i) mod 2 ^ 32"
    by (simp add: unat_word_ariths unat_of_nat mod_add_right_eq)
  then show ?thesis using assms by (simp add: mod_mod_cancel)
qed

lemma unat_add_mod_PIPESIZE: "unat (a + word_of_nat i) mod PIPESIZE = (unat a + i) mod PIPESIZE" for a :: uint
  by (rule unat_add_mod_dvd) (simp add: PIPESIZE_def)

lemma pipe_len_put: "pipe_len p < PIPESIZE \<Longrightarrow> pipe_len (pipe_put c p) = Suc (pipe_len p)"
proof -
  assume a: "pipe_len p < PIPESIZE"
  have "pi_nwrite (pipe_put c p) - pi_nread (pipe_put c p) = (pi_nwrite p - pi_nread p) + word_of_nat 1"
    by (simp add: pipe_put_def)
  then show ?thesis
    using a unfolding pipe_len_def PIPESIZE_def
    by (simp only: unat_add_of_nat) (simp add: unat_word_ariths)
qed

lemma pipe_full_iff: "pipe_inv p \<Longrightarrow> pi_nwrite p = pi_nread p + word_of_nat PIPESIZE \<longleftrightarrow> pipe_len p = PIPESIZE"
proof -
  have "pi_nwrite p = pi_nread p + word_of_nat PIPESIZE \<longleftrightarrow> pi_nwrite p - pi_nread p = word_of_nat PIPESIZE"
    by (metis add_diff_cancel_left' diff_add_cancel add.commute)
  also have "\<dots> \<longleftrightarrow> pipe_len p = PIPESIZE"
    unfolding pipe_len_def word_unat_eq_iff by (simp add: PIPESIZE_def)
  finally show ?thesis .
qed

lemma pipe_empty_iff: "pi_nread p = pi_nwrite p \<longleftrightarrow> pipe_len p = 0"
  unfolding pipe_len_def by (auto simp: unat_eq_0)

lemma ring_index_inj:
  fixes i j a n :: nat
  assumes "i < n" and "j \<le> i" and "(a + i) mod n = (a + j) mod n"
  shows "i = j"
proof -
  have "n dvd (a + i) - (a + j)" using assms(3) mod_eq_dvd_iff_nat [of "a + j" "a + i"] assms(2) by simp
  then have "n dvd i - j" by simp
  then show ?thesis using assms(1,2) by (auto dest: dvd_imp_le)
qed

lemma pipe_put_law:
  assumes "pipe_inv p" and "pipe_len p < PIPESIZE"
  shows "pipe_inv (pipe_put c p) \<and> pipe_bytes (pipe_put c p) = pipe_bytes p @ [c]"
proof -
  have len: "length (pi_data p) = PIPESIZE" using assms(1) by (simp add: pipe_inv_def)
  have w: "pi_nwrite p = pi_nread p + word_of_nat (pipe_len p)"
    by (simp add: pipe_len_def)
  have idx: "unat (pi_nwrite p) mod PIPESIZE = (unat (pi_nread p) + pipe_len p) mod PIPESIZE"
    by (subst w) (rule unat_add_mod_PIPESIZE)
  have ne: "(unat (pi_nread p) + i) mod PIPESIZE \<noteq> (unat (pi_nread p) + pipe_len p) mod PIPESIZE"
    if "i < pipe_len p" for i
    using ring_index_inj [of "pipe_len p" PIPESIZE i "unat (pi_nread p)"] assms(2) that by auto
  have "0 < PIPESIZE" by (simp add: PIPESIZE_def)
  then have "pipe_bytes (pipe_put c p) = pipe_bytes p @ [c]"
    using assms(2) len
    by (simp add: pipe_bytes_def pipe_len_put)
       (auto simp: pipe_put_def unat_add_mod_PIPESIZE idx nth_list_update, use ne in metis)
  moreover have "pipe_inv (pipe_put c p)"
    using assms len by (simp add: pipe_inv_def pipe_len_put) (simp add: pipe_put_def)
  ultimately show ?thesis by blast
qed

lemma pipe_get_law:
  assumes "pipe_inv p" and "pipe_bytes p \<noteq> []"
  shows "pipe_inv (snd (pipe_get p)) \<and> pipe_bytes p = fst (pipe_get p) # pipe_bytes (snd (pipe_get p))"
proof -
  have pos: "0 < pipe_len p" using assms(2) by (simp add: pipe_bytes_def)
  then have ne: "pi_nwrite p - pi_nread p \<noteq> 0" by (auto simp: pipe_len_def)
  have len: "pipe_len (snd (pipe_get p)) = pipe_len p - 1"
    using ne unat_diff_1(1) [of "pi_nwrite p" "pi_nread p"] by (simp add: pipe_get_def pipe_len_def)
  have "[0..<pipe_len p] = 0 # map Suc [0..<pipe_len p - 1]"
    using pos by (simp add: map_Suc_upt upt_conv_Cons)
  then have "pipe_bytes p = fst (pipe_get p) # pipe_bytes (snd (pipe_get p))"
    unfolding pipe_bytes_def len by (simp add: pipe_get_def o_def ac_simps)
  then show ?thesis using assms(1) len by (auto simp: pipe_inv_def pipe_get_def)
qed

interpretation pq: fifo pipe_put pipe_get pipe_inv pipe_bytes PIPESIZE
  by unfold_locales (use pipe_put_law pipe_get_law in \<open>auto simp: pipe_bytes_def\<close>)

section \<open>The read and write loops\<close>

lemma pipe_put_flags [simp]:
  "pi_readopen (pipe_put c p) = pi_readopen p" "pi_writeopen (pipe_put c p) = pi_writeopen p"
  by (simp_all add: pipe_put_def)

lemma length_pipe_bytes [simp]: "length (pipe_bytes p) = pipe_len p"
  by (simp add: pipe_bytes_def)

lemma pipewrite_loop_eq:
  assumes "pipe_inv p"
  shows "pipewrite_loop killed cs p =
    (let k = PIPESIZE - pipe_len p; q = fold pipe_put (take k cs) p
     in if length cs \<le> k then PDone True q
        else if \<not> pi_readopen p \<or> killed then PDone False q else PSleep (drop k cs) q)"
  using assms
proof (induction cs arbitrary: p)
  case Nil
  then show ?case by simp
next
  case (Cons c cs)
  show ?case
  proof (cases "pipe_len p = PIPESIZE")
    case True
    then show ?thesis using pipe_full_iff [OF Cons.prems] by (simp add: Let_def)
  next
    case False
    then have lt: "pipe_len p < PIPESIZE" using Cons.prems by (simp add: pipe_inv_def)
    then have k: "PIPESIZE - pipe_len p = Suc (PIPESIZE - pipe_len (pipe_put c p))"
      by (simp add: pipe_len_put Suc_diff_Suc)
    have "pipe_inv (pipe_put c p)" using pipe_put_law [OF Cons.prems lt] by blast
    from Cons.IH [OF this] show ?thesis
      using False pipe_full_iff [OF Cons.prems] unfolding k by (simp add: Let_def)
  qed
qed

lemma piperead_loop_spec:
  assumes "pipe_inv p"
  shows "case piperead_loop n p of (cs, q) \<Rightarrow>
    pipe_inv q \<and> cs = take n (pipe_bytes p) \<and> pipe_bytes q = drop n (pipe_bytes p) \<and>
    pi_readopen q = pi_readopen p \<and> pi_writeopen q = pi_writeopen p"
  using assms
proof (induction n arbitrary: p)
  case 0
  then show ?case by simp
next
  case (Suc n)
  show ?case
  proof (cases "pi_nread p = pi_nwrite p")
    case True
    then have "pipe_bytes p = []" using pipe_empty_iff [of p] by (simp add: pipe_bytes_def)
    with True Suc.prems show ?thesis by simp
  next
    case False
    then have "pipe_bytes p \<noteq> []" using pipe_empty_iff [of p] by (auto simp flip: length_0_conv)
    note g = pipe_get_law [OF Suc.prems this]
    obtain c p' where cp: "pipe_get p = (c, p')" by fastforce
    have "pi_readopen p' = pi_readopen p" "pi_writeopen p' = pi_writeopen p"
      using cp by (auto simp: pipe_get_def)
    with Suc.IH [of p'] g cp False show ?thesis by (auto split: prod.splits)
  qed
qed

section \<open>Sequences of calls\<close>

text \<open>A call of \<open>pipewrite\<close>, \<open>piperead\<close> or \<open>pipeclose\<close>. One that sleeps is the end of an attempt; going on after the
  wakeup is a new one, for a writer with the bytes that are left.\<close>

datatype pipe_ev = PWrite bool "uchar list" | PRead bool nat | PClose bool
datatype pipe_res = PWrote bool | PWSleep "uchar list" | PGot "uchar list option" | PRSleep | PClosed

primrec pipe_step :: "pipe_ev \<Rightarrow> pipe \<Rightarrow> pipe_res \<times> pipe" where
  "pipe_step (PWrite killed cs) p =
     (case pipewrite_loop killed cs p of PDone ok q \<Rightarrow> (PWrote ok, q) | PSleep rest q \<Rightarrow> (PWSleep rest, q))"
| "pipe_step (PRead killed n) p =
     (case piperead_out killed n p of PDone r q \<Rightarrow> (PGot r, q) | PSleep _ q \<Rightarrow> (PRSleep, q))"
| "pipe_step (PClose writable) p = (PClosed, pipe_shut writable p)"

text \<open>The same calls on a queue of at most \<open>PIPESIZE\<close> bytes, with the flags for an open read and write end.\<close>

type_synonym queue = "uchar list \<times> bool \<times> bool"

definition pipe_abs :: "pipe \<Rightarrow> queue" where
  "pipe_abs p = (pipe_bytes p, pi_readopen p, pi_writeopen p)"

text \<open>The bytes of a write that fit.\<close>

definition fits :: "uchar list \<Rightarrow> uchar list \<Rightarrow> uchar list" where
  "fits l cs = take (PIPESIZE - length l) cs"

primrec queue_step :: "pipe_ev \<Rightarrow> queue \<Rightarrow> pipe_res \<times> queue" where
  "queue_step (PWrite killed cs) q =
     (case q of (l, r, w) \<Rightarrow>
        (if fits l cs = cs then PWrote True
         else if \<not> r \<or> killed then PWrote False else PWSleep (drop (length (fits l cs)) cs),
         (l @ fits l cs, r, w)))"
| "queue_step (PRead killed n) q =
     (case q of (l, r, w) \<Rightarrow>
        if l = [] \<and> w then (if killed then PGot None else PRSleep, q)
        else (PGot (Some (take n l)), (drop n l, r, w)))"
| "queue_step (PClose writable) q =
     (case q of (l, r, w) \<Rightarrow> (PClosed, if writable then (l, r, False) else (l, False, w)))"

text \<open>The bytes that enter the queue and those the readers get.\<close>

primrec accepted :: "pipe_ev list \<Rightarrow> queue \<Rightarrow> uchar list" where
  "accepted [] q = []"
| "accepted (e # es) q =
     (case e of PWrite killed cs \<Rightarrow> fits (fst q) cs | _ \<Rightarrow> []) @ accepted es (snd (queue_step e q))"

definition received :: "pipe_res list \<Rightarrow> uchar list" where
  "received rs = concat (map (\<lambda>r. case r of PGot (Some bs) \<Rightarrow> bs | _ \<Rightarrow> []) rs)"

lemma queue_step_conserves:
  "received [fst (queue_step e q)] @ fst (snd (queue_step e q)) = fst q @ (case e of PWrite killed cs \<Rightarrow> fits (fst q) cs | _ \<Rightarrow> [])"
  by (cases q; cases e) (auto simp: received_def)

lemma queue_conserves:
  "received (fst (run_ops queue_step es q)) @ fst (snd (run_ops queue_step es q)) = fst q @ accepted es q"
proof (induction es arbitrary: q)
  case (Cons e es)
  let ?q = "snd (queue_step e q)"
  have "received (fst (run_ops queue_step (e # es) q)) @ fst (snd (run_ops queue_step (e # es) q)) =
      received [fst (queue_step e q)] @ received (fst (run_ops queue_step es ?q)) @ fst (snd (run_ops queue_step es ?q))"
    by (simp add: received_def split_beta Let_def)
  also have "\<dots> = (received [fst (queue_step e q)] @ fst ?q) @ accepted es ?q" unfolding Cons by simp
  also have "\<dots> = fst q @ accepted (e # es) q" unfolding queue_step_conserves by simp
  finally show ?case .
qed (simp add: received_def)

lemma pipewrite_step:
  assumes "pipe_inv p"
  shows "pipe_inv (snd (pipe_step (PWrite killed cs) p)) \<and>
    queue_step (PWrite killed cs) (pipe_abs p) =
      (fst (pipe_step (PWrite killed cs) p), pipe_abs (snd (pipe_step (PWrite killed cs) p)))"
proof -
  let ?k = "PIPESIZE - pipe_len p"
  let ?q = "fold pipe_put (take ?k cs) p"
  have le: "pipe_len p \<le> PIPESIZE" using assms by (simp add: pipe_inv_def)
  have q: "pipe_inv ?q" "pipe_bytes ?q = pipe_bytes p @ take ?k cs"
    using pq.put_all [OF assms, of "take ?k cs"] le by auto
  have fl: "pi_readopen (fold pipe_put xs r) = pi_readopen r" "pi_writeopen (fold pipe_put xs r) = pi_writeopen r" for xs r
    by (induction xs arbitrary: r) simp_all
  have "fits (pipe_bytes p) cs = take ?k cs" "fits (pipe_bytes p) cs = cs \<longleftrightarrow> length cs \<le> ?k"
    by (auto simp: fits_def)
  then show ?thesis
    using q by (auto simp: pipewrite_loop_eq [OF assms] Let_def pipe_abs_def fl min_def)
qed

lemma piperead_step:
  assumes "pipe_inv p"
  shows "pipe_inv (snd (pipe_step (PRead killed n) p)) \<and>
    queue_step (PRead killed n) (pipe_abs p) =
      (fst (pipe_step (PRead killed n) p), pipe_abs (snd (pipe_step (PRead killed n) p)))"
proof -
  obtain bs r where r: "piperead_loop n p = (bs, r)" by fastforce
  with piperead_loop_spec [OF assms, of n] have
    R: "pipe_inv r" "bs = take n (pipe_bytes p)" "pipe_bytes r = drop n (pipe_bytes p)"
      "pi_readopen r = pi_readopen p" "pi_writeopen r = pi_writeopen p" by auto
  have "pipe_bytes p = [] \<longleftrightarrow> pi_nread p = pi_nwrite p"
    using pipe_empty_iff [of p] by (simp flip: length_0_conv)
  with R r assms show ?thesis by (auto simp: piperead_out_def pipe_abs_def)
qed

lemma pipe_shut_abs:
  "pipe_inv (pipe_shut w p) = pipe_inv p" "pipe_bytes (pipe_shut w p) = pipe_bytes p"
  by (simp_all add: pipe_shut_def pipe_inv_def pipe_len_def pipe_bytes_def)

lemma pipe_close_step:
  assumes "pipe_inv p"
  shows "pipe_inv (snd (pipe_step (PClose w) p)) \<and>
    queue_step (PClose w) (pipe_abs p) = (fst (pipe_step (PClose w) p), pipe_abs (snd (pipe_step (PClose w) p)))"
  using assms by (simp add: pipe_abs_def pipe_shut_abs) (simp add: pipe_shut_def)

interpretation ps: simulation pipe_step queue_step pipe_inv pipe_abs "\<lambda>_. True"
proof
  fix p e
  assume "pipe_inv p"
  then show "pipe_inv (snd (pipe_step e p)) \<and> queue_step e (pipe_abs p) = (fst (pipe_step e p), pipe_abs (snd (pipe_step e p)))"
    by (cases e) (simp_all only: pipewrite_step piperead_step pipe_close_step)
qed

text \<open>C21. A pipe is a first-in first-out queue of \<open>PIPESIZE\<close> bytes. Any sequence of write, read and close calls, by any
  number of processes and whatever the values of the 32-bit counters, gives each caller the result it would have on such
  a queue: a write puts as many bytes as fit behind those already there and then succeeds, fails (no reader, or killed) or
  sleeps with exactly the rest left; a read takes bytes from the front, and sleeps or fails only on an empty pipe with a
  writer. So the bytes all readers have received, followed by those still in the pipe, are the bytes that were in it followed
  by those accepted from the writers, in order.\<close>

theorem pipe_is_fifo:
  assumes "pipe_inv p"
  shows "run_ops queue_step es (pipe_abs p) = (fst (run_ops pipe_step es p), pipe_abs (snd (run_ops pipe_step es p))) \<and>
    pipe_inv (snd (run_ops pipe_step es p)) \<and>
    received (fst (run_ops pipe_step es p)) @ pipe_bytes (snd (run_ops pipe_step es p)) =
      pipe_bytes p @ accepted es (pipe_abs p)"
proof -
  note S = ps.run_sim [OF assms, of es]
  have "list_all (\<lambda>_. True) es" by (simp add: list_all_iff)
  with S have "run_ops queue_step es (pipe_abs p) = (fst (run_ops pipe_step es p), pipe_abs (snd (run_ops pipe_step es p)))"
    "pipe_inv (snd (run_ops pipe_step es p))" by auto
  then show ?thesis using queue_conserves [of es "pipe_abs p"] by (simp add: pipe_abs_def)
qed

theorem pipe_is_fifo_witness:
  "\<exists>p q. pipe_inv p \<and> pi_nwrite p = 4294967295 \<and>
   run_ops pipe_step [PWrite False [104, 105, 106], PRead False 2, PWrite False [107], PClose True, PRead False 9, PRead False 9] p =
     ([PWrote True, PGot (Some [104, 105]), PWrote True, PClosed, PGot (Some [106, 107]), PGot (Some [])], q)"
proof -
  let ?es = "[PWrite False [104, 105, 106], PRead False 2, PWrite False [107], PClose True, PRead False 9, PRead False 9]"
  let ?p = "(pipe_init (replicate 512 0))\<lparr>pi_nread := 4294967295, pi_nwrite := 4294967295\<rparr>"
  have p: "pipe_inv ?p" "pipe_abs ?p = ([], True, True)"
    by (simp_all add: pipe_inv_def pipe_len_def pipe_init_def PIPESIZE_def pipe_bytes_def pipe_abs_def)
  have "fst (run_ops queue_step ?es ([], True, True)) =
      [PWrote True, PGot (Some [104, 105]), PWrote True, PClosed, PGot (Some [106, 107]), PGot (Some [])]"
    by (simp add: fits_def PIPESIZE_def)
  then have "fst (run_ops pipe_step ?es ?p) = [PWrote True, PGot (Some [104, 105]), PWrote True, PClosed, PGot (Some [106, 107]), PGot (Some [])]"
    using pipe_is_fifo [OF p(1), of ?es] unfolding p(2) by (metis fst_conv)
  moreover have "pi_nwrite ?p = 4294967295" by simp
  ultimately show ?thesis using p(1) unfolding prod_eq_iff fst_conv snd_conv by blast
qed

end
