(* ===== verification/Consin.thy ===== *)
theory Consin
  imports Klib Pipe
begin

text \<open>
  The console's input buffer, \<open>input\<close> of \<open>console.c\<close>: a ring of \<open>INPUT_BUF\<close> bytes with a read index
  \<open>r\<close>, a write index \<open>w\<close> (the end of the lines handed to readers) and an edit index \<open>e\<close>. All three
  only grow, modulo \<open>2 ^ 32\<close>.

  \<open>input_char\<close> is the body of the loop of \<open>consoleintr\<close>, \<open>input_read\<close> the loop of \<open>consoleread\<close>. The
  abstract buffer is a pair of lists: the bytes a reader may have and the line being edited.
\<close>

section \<open>Operations\<close>

definition INPUT_BUF :: nat where "INPUT_BUF = 128"

record input =
  in_buf :: "uchar list"
  in_r :: uint
  in_w :: uint
  in_e :: uint

text \<open>\<open>C('P')\<close> and so on.\<close>

definition ctl_P :: int where "ctl_P = 16"
definition ctl_U :: int where "ctl_U = 21"
definition ctl_H :: int where "ctl_H = 8"
definition ctl_D :: int where "ctl_D = 4"

text \<open>What happens outside the buffer: a process listing is wanted, characters are echoed
  (\<open>BACKSPACE\<close> is \<open>0x100\<close>), or the readers are woken.\<close>

record effects =
  fx_procdump :: bool
  fx_echo :: "int list"
  fx_wakeup :: bool

definition no_fx :: effects where
  "no_fx = \<lparr>fx_procdump = False, fx_echo = [], fx_wakeup = False\<rparr>"

text \<open>The loop for \<open>C('U')\<close>; it runs at most \<open>e - w\<close> times. The number of characters erased is returned.\<close>

function kill_line :: "input \<Rightarrow> nat \<times> input" where
  "kill_line b =
     (if in_e b \<noteq> in_w b \<and> in_buf b ! (unat (in_e b - 1) mod INPUT_BUF) \<noteq> 10
      then (let (n, b) = kill_line (b\<lparr>in_e := in_e b - 1\<rparr>) in (Suc n, b))
      else (0, b))"
  by pat_completeness auto
termination
proof (relation "measure (\<lambda>b. unat (in_e b - in_w b))")
  fix b :: input
  assume "in_e b \<noteq> in_w b \<and> in_buf b ! (unat (in_e b - 1) mod INPUT_BUF) \<noteq> 10"
  then have "in_e b - in_w b \<noteq> 0" by simp
  then have "unat (in_e b - in_w b - 1) < unat (in_e b - in_w b)"
    by (simp add: unat_minus_one unat_gt_0)
  then show "(b\<lparr>in_e := in_e b - 1\<rparr>, b) \<in> measure (\<lambda>b. unat (in_e b - in_w b))"
    by (simp add: algebra_simps)
qed simp

definition input_char :: "int \<Rightarrow> input \<Rightarrow> effects \<times> input" where
  "input_char c b =
     (if c = ctl_P then (no_fx\<lparr>fx_procdump := True\<rparr>, b)
      else if c = ctl_U
      then (let (n, b) = kill_line b in (no_fx\<lparr>fx_echo := replicate n 0x100\<rparr>, b))
      else if c = ctl_H \<or> c = 0x7f
      then (if in_e b \<noteq> in_w b then (no_fx\<lparr>fx_echo := [0x100]\<rparr>, b\<lparr>in_e := in_e b - 1\<rparr>) else (no_fx, b))
      else if c \<noteq> 0 \<and> in_e b - in_r b < word_of_nat INPUT_BUF
      then (let c = (if c = 13 then 10 else c);
                b = b\<lparr>in_buf := (in_buf b)[unat (in_e b) mod INPUT_BUF := word_of_int c], in_e := in_e b + 1\<rparr>
            in if c = 10 \<or> c = ctl_D \<or> in_e b = in_r b + word_of_nat INPUT_BUF
               then (no_fx\<lparr>fx_echo := [c], fx_wakeup := True\<rparr>, b\<lparr>in_w := in_e b\<rparr>)
               else (no_fx\<lparr>fx_echo := [c]\<rparr>, b))
      else (no_fx, b))"

text \<open>The loop of \<open>consoleread\<close> with \<open>n\<close> bytes still wanted out of \<open>target\<close>. The first component says
  whether the reader has to sleep (or give up, if killed) for more; the bytes stored so far follow.\<close>

primrec input_read :: "nat \<Rightarrow> nat \<Rightarrow> input \<Rightarrow> bool \<times> uchar list \<times> input" where
  "input_read target 0 b = (False, [], b)"
| "input_read target (Suc n) b =
     (if in_r b = in_w b then (True, [], b)
      else (let c = in_buf b ! (unat (in_r b) mod INPUT_BUF); b' = b\<lparr>in_r := in_r b + 1\<rparr>
            in if c = 4 then (False, [], if Suc n < target then b else b')
               else if c = 10 then (False, [c], b')
               else (let (w, cs, b) = input_read target n b' in (w, c # cs, b))))"

section \<open>The abstract buffer\<close>

definition input_at :: "input \<Rightarrow> nat \<Rightarrow> uchar" where
  "input_at b i = in_buf b ! (unat (in_r b + word_of_nat i) mod INPUT_BUF)"

text \<open>The bytes handed to readers and the line being edited.\<close>

definition ready :: "input \<Rightarrow> uchar list" where
  "ready b = map (input_at b) [0..<unat (in_w b - in_r b)]"

definition editing :: "input \<Rightarrow> uchar list" where
  "editing b = map (input_at b) [unat (in_w b - in_r b)..<unat (in_e b - in_r b)]"

definition input_inv :: "input \<Rightarrow> bool" where
  "input_inv b \<longleftrightarrow> length (in_buf b) = INPUT_BUF \<and>
     unat (in_w b - in_r b) \<le> unat (in_e b - in_r b) \<and> unat (in_e b - in_r b) \<le> INPUT_BUF \<and>
     10 \<notin> set (editing b)"

text \<open>The line discipline on the pair of lists.\<close>

definition line_char :: "int \<Rightarrow> uchar list \<times> uchar list \<Rightarrow> uchar list \<times> uchar list" where
  "line_char c le =
     (case le of (l, e) \<Rightarrow>
        if c = ctl_P then (l, e)
        else if c = ctl_U then (l, [])
        else if c = ctl_H \<or> c = 0x7f then (l, butlast e)
        else if c \<noteq> 0 \<and> length l + length e < INPUT_BUF
        then (let c = (if c = 13 then 10 else c); e = e @ [word_of_int c]
              in if c = 10 \<or> c = ctl_D \<or> length l + length e = INPUT_BUF then (l @ e, []) else (l, e))
        else (l, e))"

text \<open>The echo, and the wakeup of the readers when a line is complete.\<close>

definition line_fx :: "int \<Rightarrow> uchar list \<times> uchar list \<Rightarrow> effects" where
  "line_fx c le =
     (if c = ctl_P then no_fx\<lparr>fx_procdump := True\<rparr>
      else if c = ctl_U then no_fx\<lparr>fx_echo := replicate (length (snd le)) 0x100\<rparr>
      else if c = ctl_H \<or> c = 0x7f then no_fx\<lparr>fx_echo := (if snd le = [] then [] else [0x100])\<rparr>
      else if c \<noteq> 0 \<and> length (fst le) + length (snd le) < INPUT_BUF
      then no_fx\<lparr>fx_echo := [if c = 13 then 10 else c], fx_wakeup := fst (line_char c le) \<noteq> fst le\<rparr>
      else no_fx)"

text \<open>What a read of \<open>n\<close> more bytes gets, out of \<open>target\<close> asked for: the bytes up to the count, a newline or \<open>^D\<close>, which
  ends the read, is not delivered, and stays for the next read if this one has got any bytes. With none of these the
  reader has to wait.\<close>

definition line_read :: "nat \<Rightarrow> nat \<Rightarrow> uchar list \<Rightarrow> bool \<times> uchar list \<times> uchar list" where
  "line_read target n l =
     (let w = takeWhile (\<lambda>c. c \<noteq> 4 \<and> c \<noteq> 10) l; r = dropWhile (\<lambda>c. c \<noteq> 4 \<and> c \<noteq> 10) l
      in if n \<le> length w then (False, take n l, drop n l)
         else if r = [] then (True, w, [])
         else if hd r = 10 then (False, w @ [10], tl r)
         else (False, w, if n - length w < target then r else tl r))"

section \<open>Refinement\<close>

declare kill_line.simps [simp del]

abbreviation (input) wpos :: "input \<Rightarrow> nat" where "wpos b \<equiv> unat (in_w b - in_r b)"
abbreviation (input) epos :: "input \<Rightarrow> nat" where "epos b \<equiv> unat (in_e b - in_r b)"

lemma unat_add_mod_INPUT_BUF: "unat (a + word_of_nat i) mod INPUT_BUF = (unat a + i) mod INPUT_BUF" for a :: uint
  by (rule unat_add_mod_dvd) (simp add: INPUT_BUF_def)

lemma e_index: "unat (in_e b) mod INPUT_BUF = (unat (in_r b) + epos b) mod INPUT_BUF"
  using unat_add_mod_INPUT_BUF [of "in_r b" "epos b"] by simp

lemma e_eq_w: "in_e b = in_w b \<longleftrightarrow> epos b = wpos b"
  by (metis diff_add_cancel word_unat_eq_iff)

lemma e_minus_1:
  assumes "epos b \<noteq> 0"
  shows "epos (b\<lparr>in_e := in_e b - 1\<rparr>) = epos b - 1"
proof -
  have "in_e b \<noteq> in_r b" using assms by auto
  moreover have "epos (b\<lparr>in_e := in_e b - 1\<rparr>) = unat (in_e b - (in_r b + 1))"
    by (simp add: algebra_simps)
  ultimately show ?thesis using unat_diff_1(1) by simp
qed

lemma e_plus_1: "epos b < INPUT_BUF \<Longrightarrow> unat (in_e b + 1 - in_r b) = Suc (epos b)"
proof -
  assume a: "epos b < INPUT_BUF"
  have "in_e b + 1 - in_r b = (in_e b - in_r b) + word_of_nat 1" by simp
  also have "unat \<dots> = epos b + 1" by (rule unat_add_of_nat) (use a in \<open>simp add: INPUT_BUF_def\<close>)
  finally show ?thesis by simp
qed

lemma ready_editing: "ready b @ editing b = map (input_at b) [0..<epos b]" if "input_inv b"
proof -
  have "[0..<epos b] = [0..<wpos b] @ [wpos b..<epos b]"
    using that upt_add_eq_append [of 0 "wpos b" "epos b - wpos b"] by (simp add: input_inv_def)
  then show ?thesis by (simp add: ready_def editing_def)
qed

text \<open>Erasing one character.\<close>

lemma erase:
  assumes "input_inv b" and "in_e b \<noteq> in_w b"
  defines "b' \<equiv> b\<lparr>in_e := in_e b - 1\<rparr>"
  shows "input_inv b' \<and> ready b' = ready b \<and> editing b' = butlast (editing b) \<and> editing b \<noteq> [] \<and>
    last (editing b) = in_buf b ! (unat (in_e b - 1) mod INPUT_BUF)"
proof -
  have lt: "wpos b < epos b" using assms(1,2) e_eq_w [of b] by (auto simp: input_inv_def)
  have e': "epos b' = epos b - 1" unfolding b'_def by (rule e_minus_1) (use lt in simp)
  have same: "in_r b' = in_r b" "in_w b' = in_w b" "in_buf b' = in_buf b" by (simp_all add: b'_def)
  then have at: "input_at b' = input_at b" by (simp add: fun_eq_iff input_at_def)
  obtain k where k: "epos b = Suc k" using lt by (cases "epos b") auto
  have "[wpos b..<epos b] = [wpos b..<epos b - 1] @ [epos b - 1]"
    using lt by (simp add: k)
  then have ed: "editing b = editing b' @ [input_at b (epos b - 1)]"
    using e' unfolding editing_def at same by simp
  have "word_of_nat (epos b - 1) = in_e b - 1 - in_r b"
    unfolding e' [symmetric] by (simp add: b'_def)
  then have "in_e b - 1 = in_r b + word_of_nat (epos b - 1)" by simp
  then have "last (editing b) = in_buf b ! (unat (in_e b - 1) mod INPUT_BUF)"
    using ed by (simp add: input_at_def)
  moreover have "ready b' = ready b" by (simp add: ready_def at same)
  ultimately show ?thesis
    using ed assms(1) lt e' same by (auto simp: input_inv_def)
qed

lemma kill_line_spec:
  assumes "input_inv b"
  shows "case kill_line b of (n, b') \<Rightarrow> input_inv b' \<and> n = length (editing b) \<and> ready b' = ready b \<and> editing b' = []"
  using assms
proof (induction b rule: kill_line.induct)
  case (1 b)
  show ?case
  proof (cases "in_e b = in_w b")
    case True
    then show ?thesis using "1.prems" by (subst kill_line.simps) (simp add: editing_def)
  next
    case False
    let ?b = "b\<lparr>in_e := in_e b - 1\<rparr>"
    note e = erase [OF "1.prems" False]
    then have nl: "in_buf b ! (unat (in_e b - 1) mod INPUT_BUF) \<noteq> 10"
      using "1.prems" last_in_set [of "editing b"] by (auto simp: input_inv_def)
    then have "case kill_line ?b of (n, b') \<Rightarrow>
        input_inv b' \<and> n = length (editing ?b) \<and> ready b' = ready ?b \<and> editing b' = []"
      using "1.IH" False e by (intro "1.IH") auto
    then show ?thesis
      using nl False e by (subst kill_line.simps) (auto split: prod.splits)
  qed
qed

text \<open>Adding one character.\<close>

lemma append_char:
  fixes x :: uchar
  assumes "input_inv b" and "epos b < INPUT_BUF"
  defines "b' \<equiv> b\<lparr>in_buf := (in_buf b)[unat (in_e b) mod INPUT_BUF := x], in_e := in_e b + 1\<rparr>"
  shows "ready b' = ready b \<and> editing b' = editing b @ [x] \<and> epos b' = Suc (epos b) \<and>
    wpos b' = wpos b \<and> length (in_buf b') = INPUT_BUF"
proof -
  have e': "epos b' = Suc (epos b)" unfolding b'_def using e_plus_1 [OF assms(2)] by simp
  have same: "in_r b' = in_r b" "in_w b' = in_w b" by (simp_all add: b'_def)
  have len: "length (in_buf b) = INPUT_BUF" "wpos b \<le> epos b" using assms(1) by (auto simp: input_inv_def)
  have pos: "0 < INPUT_BUF" by (simp add: INPUT_BUF_def)
  have at: "input_at b' i = (if i = epos b then x else input_at b i)" if "i \<le> epos b" for i
    using ring_index_inj [of "epos b" INPUT_BUF i "unat (in_r b)"] that assms(2) len pos
    unfolding input_at_def same b'_def
    by (auto simp: unat_add_mod_INPUT_BUF e_index nth_list_update)
  have "ready b' = ready b" unfolding ready_def same using at len by (auto simp: input_inv_def)
  moreover have "editing b' = editing b @ [x]"
    using e' len at unfolding editing_def same by simp
  ultimately show ?thesis using e' len same by (simp add: b'_def)
qed

text \<open>Handing the line to the readers.\<close>

lemma commit_line:
  assumes "wpos b \<le> epos b" and "epos b \<le> INPUT_BUF" and "length (in_buf b) = INPUT_BUF"
  defines "b' \<equiv> b\<lparr>in_w := in_e b\<rparr>"
  shows "input_inv b' \<and> ready b' = ready b @ editing b \<and> editing b' = []"
proof -
  have at: "input_at b' = input_at b" by (simp add: fun_eq_iff input_at_def b'_def)
  have "[0..<epos b] = [0..<wpos b] @ [wpos b..<epos b]"
    using assms(1) upt_add_eq_append [of 0 "wpos b" "epos b - wpos b"] by simp
  then have "ready b' = ready b @ editing b"
    unfolding ready_def editing_def at by (simp add: b'_def)
  moreover have "editing b' = []" by (simp add: editing_def b'_def)
  ultimately show ?thesis using assms(2,3) by (auto simp: input_inv_def b'_def)
qed

lemma length_ready [simp]: "length (ready b) = wpos b" by (simp add: ready_def)
lemma length_editing [simp]: "length (editing b) = epos b - wpos b" by (simp add: editing_def)

lemma room_iff: "in_e b - in_r b < word_of_nat INPUT_BUF \<longleftrightarrow> epos b < INPUT_BUF"
  by (simp add: word_less_nat_alt INPUT_BUF_def)

lemma full_iff: "in_e b = in_r b + word_of_nat INPUT_BUF \<longleftrightarrow> epos b = INPUT_BUF"
proof -
  have "in_e b = in_r b + word_of_nat INPUT_BUF \<longleftrightarrow> in_e b - in_r b = word_of_nat INPUT_BUF"
    by (auto simp: algebra_simps)
  also have "\<dots> \<longleftrightarrow> epos b = INPUT_BUF"
    unfolding word_unat_eq_iff by (simp add: INPUT_BUF_def)
  finally show ?thesis .
qed

lemma input_char_store:
  assumes "input_inv b" and "0 \<le> c" "c < 256" and "c \<noteq> 0" "c \<noteq> ctl_P" "c \<noteq> ctl_U" "c \<noteq> ctl_H" "c \<noteq> 0x7f"
    and "epos b < INPUT_BUF"
  shows "case input_char c b of (fx, b') \<Rightarrow> input_inv b' \<and>
    (ready b', editing b') = line_char c (ready b, editing b) \<and> fx = line_fx c (ready b, editing b)"
proof -
  define k where "k = (if c = 13 then 10 else c)"
  define b1 where "b1 = b\<lparr>in_buf := (in_buf b)[unat (in_e b) mod INPUT_BUF := word_of_int k], in_e := in_e b + 1\<rparr>"
  have a: "ready b1 = ready b" "editing b1 = editing b @ [word_of_int k]" "epos b1 = Suc (epos b)"
      "wpos b1 = wpos b" "length (in_buf b1) = INPUT_BUF"
    using append_char [OF assms(1,9), of "word_of_int k"] unfolding b1_def by blast+
  have le: "wpos b \<le> epos b" using assms(1) by (simp add: input_inv_def)
  note cl = commit_line [of b1, unfolded a(3,4)]
  have k10: "word_of_int k = (10 :: uchar) \<longleftrightarrow> k = 10"
    using assms(2,3) by (auto simp: k_def word_uint_eq_iff uint_word_of_int_eq take_bit_eq_mod)
  have go: "input_char c b =
      (if k = 10 \<or> k = ctl_D \<or> Suc (epos b) = INPUT_BUF
       then (no_fx\<lparr>fx_echo := [k], fx_wakeup := True\<rparr>, b1\<lparr>in_w := in_e b1\<rparr>)
       else (no_fx\<lparr>fx_echo := [k]\<rparr>, b1))"
    using assms(4-9) room_iff [of b] full_iff [of b1] a(3)
    by (simp add: input_char_def Let_def b1_def k_def)
  have line: "line_char c (ready b, editing b) =
      (if k = 10 \<or> k = ctl_D \<or> Suc (epos b) = INPUT_BUF
       then (ready b @ editing b @ [word_of_int k], []) else (ready b, editing b @ [word_of_int k]))"
    using assms(4-9) le by (simp add: line_char_def Let_def k_def)
  have fx: "line_fx c (ready b, editing b) =
      no_fx\<lparr>fx_echo := [k], fx_wakeup := k = 10 \<or> k = ctl_D \<or> Suc (epos b) = INPUT_BUF\<rparr>"
    using assms(4-9) le by (simp add: line_fx_def line k_def [symmetric])
  show ?thesis
  proof (cases "k = 10 \<or> k = ctl_D \<or> Suc (epos b) = INPUT_BUF")
    case True
    then show ?thesis using go line cl a assms(9) le by (simp add: no_fx_def fx)
  next
    case False
    then have "input_inv b1"
      using a assms(1,9) le k10 by (auto simp: input_inv_def)
    with False go line a show ?thesis by (simp add: no_fx_def fx)
  qed
qed

lemma input_char_spec:
  assumes "input_inv b" and "0 \<le> c" and "c < 256"
  shows "case input_char c b of (fx, b') \<Rightarrow> input_inv b' \<and>
    (ready b', editing b') = line_char c (ready b, editing b) \<and> fx = line_fx c (ready b, editing b)"
proof -
  have le: "wpos b \<le> epos b" "epos b \<le> INPUT_BUF" using assms(1) by (auto simp: input_inv_def)
  consider "c = ctl_P" | "c = ctl_U" | "c = ctl_H \<or> c = 0x7f" |
      "c = 0 \<or> epos b = INPUT_BUF" "c \<noteq> ctl_P" "c \<noteq> ctl_U" "c \<noteq> ctl_H" "c \<noteq> 0x7f" |
      "c \<noteq> 0" "c \<noteq> ctl_P" "c \<noteq> ctl_U" "c \<noteq> ctl_H" "c \<noteq> 0x7f" "epos b < INPUT_BUF"
    using le(2) by linarith
  then show ?thesis
  proof cases
    case 1
    then show ?thesis using assms(1) by (simp add: input_char_def line_char_def line_fx_def no_fx_def)
  next
    case 2
    then show ?thesis using kill_line_spec [OF assms(1)]
      by (auto simp del: length_editing simp: input_char_def line_char_def line_fx_def no_fx_def ctl_U_def ctl_P_def split: prod.splits)
  next
    case 3
    show ?thesis
    proof (cases "in_e b = in_w b")
      case True
      then have "editing b = []" by (simp add: editing_def)
      with True 3 assms(1) show ?thesis
        by (auto simp: input_char_def line_char_def line_fx_def no_fx_def ctl_U_def ctl_P_def ctl_H_def)
    next
      case False
      with 3 erase [OF assms(1) False] show ?thesis
        by (auto simp: input_char_def line_char_def line_fx_def no_fx_def ctl_U_def ctl_P_def ctl_H_def)
    qed
  next
    case 4
    then show ?thesis using assms(1) le room_iff [of b]
      by (auto simp: input_char_def line_char_def line_fx_def no_fx_def)
  next
    case 5
    then show ?thesis by (intro input_char_store [OF assms])
  qed
qed

section \<open>Reading\<close>

lemma ready_Cons:
  assumes "input_inv b" and "in_r b \<noteq> in_w b"
  defines "b' \<equiv> b\<lparr>in_r := in_r b + 1\<rparr>"
  shows "input_inv b' \<and> ready b = in_buf b ! (unat (in_r b) mod INPUT_BUF) # ready b' \<and> editing b' = editing b"
proof -
  have w: "wpos b' = wpos b - 1" "0 < wpos b"
    using unat_diff_1 [of "in_w b" "in_r b"] assms(2) by (auto simp: b'_def)
  then have "in_e b \<noteq> in_r b" using assms(1) by (auto simp: input_inv_def)
  then have e: "epos b' = epos b - 1" "0 < epos b"
    using unat_diff_1 [of "in_e b" "in_r b"] by (auto simp: b'_def)
  have at: "input_at b' i = input_at b (Suc i)" for i
    by (simp add: input_at_def b'_def ac_simps)
  have "[0..<wpos b] = 0 # map Suc [0..<wpos b - 1]"
    using w(2) by (simp add: map_Suc_upt upt_conv_Cons)
  then have r: "ready b = in_buf b ! (unat (in_r b) mod INPUT_BUF) # ready b'"
    unfolding ready_def w(1) by (simp add: at) (simp add: input_at_def)
  have "[wpos b..<epos b] = map Suc [wpos b - 1..<epos b - 1]"
    using w(2) e(2) by (simp add: map_Suc_upt)
  then have "editing b' = editing b"
    using w(1) e(1) unfolding editing_def by (simp add: at)
  moreover have "length (in_buf b') = INPUT_BUF" using assms(1) by (simp add: b'_def input_inv_def)
  ultimately show ?thesis using assms(1) w e r by (auto simp: input_inv_def)
qed

lemma line_read_simps:
  "line_read target 0 l = (False, [], l)"
  "line_read target (Suc n) [] = (True, [], [])"
  "line_read target (Suc n) (c # l) =
     (if c = 4 then (False, [], if Suc n < target then c # l else l)
      else if c = 10 then (False, [c], l)
      else (case line_read target n l of (w, cs, l') \<Rightarrow> (w, c # cs, l')))"
  by (simp_all add: line_read_def Let_def)

lemma input_read_spec:
  assumes "input_inv b" and "input_read target n b = (wait, cs, b')"
  shows "input_inv b' \<and> editing b' = editing b \<and> line_read target n (ready b) = (wait, cs, ready b')"
  using assms
proof (induction n arbitrary: b cs wait)
  case 0
  then show ?case by (simp add: line_read_simps)
next
  case (Suc n)
  show ?case
  proof (cases "in_r b = in_w b")
    case True
    then show ?thesis using Suc.prems by (auto simp: ready_def line_read_simps)
  next
    case False
    let ?c = "in_buf b ! (unat (in_r b) mod INPUT_BUF)" and ?b = "b\<lparr>in_r := in_r b + 1\<rparr>"
    note rc = ready_Cons [OF Suc.prems(1) False]
    show ?thesis
    proof (cases "?c = 4 \<or> ?c = 10")
      case True
      then show ?thesis using Suc.prems False rc by (auto simp: Let_def line_read_simps split: if_splits)
    next
      case c: False
      then obtain cs1 where cs1: "input_read target n ?b = (wait, cs1, b')" "cs = ?c # cs1"
        using Suc.prems(2) False by (auto simp: Let_def split: prod.splits)
      from Suc.IH [OF conjunct1 [OF rc] cs1(1)] show ?thesis
        using rc c cs1(2) by (auto simp: line_read_simps)
    qed
  qed
qed

section \<open>Sequences of keys and reads\<close>

text \<open>A character delivered by the keyboard or the serial port, and a reader that still wants \<open>n\<close> of the \<open>target\<close> bytes it
  asked for: the result says whether it waits, and the bytes it gets.\<close>

datatype con_ev = Typed int | Asked nat nat
datatype con_res = Did effects | Gives bool "uchar list"

primrec con_step :: "con_ev \<Rightarrow> input \<Rightarrow> con_res \<times> input" where
  "con_step (Typed c) b = (let (fx, b) = input_char c b in (Did fx, b))"
| "con_step (Asked target n) b = (let (wait, cs, b) = input_read target n b in (Gives wait cs, b))"

primrec line_step :: "con_ev \<Rightarrow> uchar list \<times> uchar list \<Rightarrow> con_res \<times> uchar list \<times> uchar list" where
  "line_step (Typed c) le = (Did (line_fx c le), line_char c le)"
| "line_step (Asked target n) le = (case line_read target n (fst le) of (wait, cs, l) \<Rightarrow> (Gives wait cs, (l, snd le)))"

primrec ev_ok :: "con_ev \<Rightarrow> bool" where
  "ev_ok (Typed c) = (0 \<le> c \<and> c < 256)"
| "ev_ok (Asked target n) = True"

definition lines :: "input \<Rightarrow> uchar list \<times> uchar list" where
  "lines b = (ready b, editing b)"

interpretation cl: simulation con_step line_step input_inv lines ev_ok
proof
  fix b e
  assume b: "input_inv b" "ev_ok e"
  show "input_inv (snd (con_step e b)) \<and> line_step e (lines b) = (fst (con_step e b), lines (snd (con_step e b)))"
  proof (cases e)
    case (Typed c)
    then show ?thesis using input_char_spec [OF b(1), of c] b(2) by (auto simp: lines_def split: prod.splits)
  next
    case (Asked target n)
    obtain wait cs b' where r: "input_read target n b = (wait, cs, b')" by (cases "input_read target n b")
    then show ?thesis using input_read_spec [OF b(1) r] Asked by (simp add: lines_def)
  qed
qed

text \<open>C22. The console is a line discipline. For any sequence of typed characters and reads, whatever the values of the
  three wrapping indices of the ring, the echoes, the wakeups and the bytes each reader gets are those of the pair (bytes for
  readers, line being edited): a character is appended to the line or edits it, a newline, \<open>^D\<close> or a full buffer hands
  the line over and wakes the readers, and a read takes bytes up to its count, a newline or \<open>^D\<close> and waits only when
  there are too few. A reader never sees a character before its line is complete, and no character typed into a full
  buffer overwrites one that has not been read.\<close>

theorem console_line_discipline:
  assumes "input_inv b" and "list_all ev_ok es"
  shows "input_inv (snd (run_ops con_step es b)) \<and>
    run_ops line_step es (ready b, editing b) =
      (fst (run_ops con_step es b), ready (snd (run_ops con_step es b)), editing (snd (run_ops con_step es b)))"
  using cl.run_sim [OF assms] by (simp add: lines_def)

text \<open>The keys \<open>h\<close>, \<open>x\<close>, backspace, \<open>i\<close>, a read that waits, return, and two reads; then \<open>a\<close> and \<open>^D\<close>, which ends one read and
  is there for the next.\<close>

theorem console_line_discipline_witness:
  "\<exists>b. input_inv b \<and> in_r b = 4294967295 \<and>
    drop 4 (fst (run_ops con_step [Typed 104, Typed 120, Typed 8, Typed 105, Asked 9 9, Typed 13, Asked 1 1, Asked 9 9,
        Typed 97, Typed 4, Asked 9 9, Asked 9 9] b)) =
      [Gives True [], Did (no_fx\<lparr>fx_echo := [10], fx_wakeup := True\<rparr>), Gives False [104], Gives False [105, 10],
       Did (no_fx\<lparr>fx_echo := [97]\<rparr>), Did (no_fx\<lparr>fx_echo := [4], fx_wakeup := True\<rparr>), Gives False [97], Gives False []]"
proof -
  let ?b = "\<lparr>in_buf = replicate 128 0, in_r = 4294967295, in_w = 4294967295, in_e = 4294967295\<rparr> :: input"
  let ?es = "[Typed 104, Typed 120, Typed 8, Typed 105, Asked 9 9, Typed 13, Asked 1 1, Asked 9 9, Typed 97, Typed 4, Asked 9 9, Asked 9 9]"
  have e: "editing ?b = []" "ready ?b = []" by (simp_all add: editing_def ready_def)
  then have i: "input_inv ?b" by (simp add: input_inv_def INPUT_BUF_def)
  have ok: "list_all ev_ok ?es" by simp
  have r: "fst (run_ops con_step ?es ?b) = fst (run_ops line_step ?es ([], []))"
    using console_line_discipline [OF i ok] unfolding e by (metis fst_conv)
  have "drop 4 (fst (run_ops line_step ?es ([], []))) =
      [Gives True [], Did (no_fx\<lparr>fx_echo := [10], fx_wakeup := True\<rparr>), Gives False [104], Gives False [105, 10],
       Did (no_fx\<lparr>fx_echo := [97]\<rparr>), Did (no_fx\<lparr>fx_echo := [4], fx_wakeup := True\<rparr>), Gives False [97], Gives False []]"
    by (simp add: line_fx_def line_char_def line_read_def no_fx_def INPUT_BUF_def ctl_P_def ctl_U_def ctl_H_def ctl_D_def Let_def)
  with r i show ?thesis by (intro exI [of _ ?b]) simp
qed

end
