(* ===== verification/File.thy ===== *)
theory File
  imports Fs Pipe Consin
begin

text \<open>
  Open files: the file table (\<open>file.c\<close>), pipes as files (\<open>pipe.c\<close>) and the console as a device
  (\<open>consoleintr\<close>, \<open>consoleread\<close>, \<open>consolewrite\<close> of \<open>console.c\<close>).

  \<open>file_state\<close> adds the file table, the pipe structures by the address of the page \<open>kalloc\<close> gave
  for them, and the console's input buffer. A \<open>struct file *\<close> is an index into the table. A routine
  that fills a user buffer returns the bytes; one that reads a user buffer takes them as an argument.
\<close>

section \<open>State\<close>

datatype ftype = FD_NONE | FD_PIPE | FD_INODE

record kfile =
  f_type :: ftype
  f_ref :: int
  f_readable :: bool
  f_writable :: bool
  f_pipe :: uint
  f_ip :: nat
  f_off :: nat

record file_state = fs_state +
  ftable :: "kfile list"
  pipes :: "uint \<Rightarrow> pipe"
  con_input :: input

definition upd_file :: "nat \<Rightarrow> (kfile \<Rightarrow> kfile) \<Rightarrow> 'a file_state_scheme \<Rightarrow> 'a file_state_scheme" where
  "upd_file f g s = s\<lparr>ftable := (ftable s)[f := g (ftable s ! f)]\<rparr>"

text \<open>\<open>myproc()->killed\<close>\<close>

definition mykilled :: "'a kstate_scheme \<Rightarrow> bool res" where
  "mykilled s = (case cur s of None \<Rightarrow> Undef | Some i \<Rightarrow> Ret (p_killed (ptable s ! i)))"

section \<open>The console device\<close>

definition CONSOLE :: nat where "CONSOLE = 1"

text \<open>\<open>consoleintr\<close>, given the characters its argument \<open>getc\<close> returns before a negative one. The first
  component tells that \<open>procdump\<close> is called at the end, which only prints.\<close>

primrec consoleintr_loop :: "int list \<Rightarrow> bool \<Rightarrow> 'a file_state_scheme \<Rightarrow> (bool \<times> 'a file_state_scheme) res" where
  "consoleintr_loop [] dump s = Ret (dump, s)"
| "consoleintr_loop (c # cs) dump s =
     (let (fx, b) = input_char c (con_input s)
      in bnd (consputs (fx_echo fx) (s\<lparr>con_input := b\<rparr>)) (\<lambda>s.
         consoleintr_loop cs (dump \<or> fx_procdump fx) (if fx_wakeup fx then wakeup ChanCons s else s)))"

definition consoleintr :: "int list \<Rightarrow> 'a file_state_scheme \<Rightarrow> (bool \<times> 'a file_state_scheme) res" where
  "consoleintr cs s = consoleintr_loop cs False s"

definition consoleread ::
    "nat \<Rightarrow> nat \<Rightarrow> 'a file_state_scheme \<Rightarrow> ((int \<times> uchar list) \<times> 'a file_state_scheme) res" where
  "consoleread ip n s =
     bnd (iunlock ip s) (\<lambda>s.
     let (wait, cs, b) = input_read n n (con_input s); s' = s\<lparr>con_input := b\<rparr>
     in if wait
        then bnd (mykilled s) (\<lambda>k.
             if k then bnd (ilock ip s') (\<lambda>s. Ret ((- 1, cs), s)) else Sleep ChanCons)
        else bnd (ilock ip s') (\<lambda>s. Ret ((int (length cs), cs), s)))"

definition consolewrite :: "nat \<Rightarrow> uchar list \<Rightarrow> 'a file_state_scheme \<Rightarrow> (int \<times> 'a file_state_scheme) res" where
  "consolewrite ip buf s =
     bnd (iunlock ip s) (\<lambda>s.
     bnd (consputs (map uint buf) s) (\<lambda>s.
     bnd (ilock ip s) (\<lambda>s. Ret (int (length buf), s))))"

text \<open>\<open>devsw\<close> as \<open>consoleinit\<close> leaves it.\<close>

definition devsw_read :: "'a file_state_scheme dev_read" where
  "devsw_read = [CONSOLE \<mapsto> consoleread]"

definition devsw_write :: "'a file_state_scheme dev_write" where
  "devsw_write = [CONSOLE \<mapsto> consolewrite]"

section \<open>Pipes\<close>

definition pipeclose :: "uint \<Rightarrow> bool \<Rightarrow> 'a file_state_scheme \<Rightarrow> 'a file_state_scheme res" where
  "pipeclose p writable s =
     (let q = pipe_shut writable (pipes s p);
          s = s\<lparr>pipes := (pipes s)(p := q)\<rparr>;
          s = wakeup (if writable then ChanPipeR (unat p) else ChanPipeW (unat p)) s
      in if \<not> pi_readopen q \<and> \<not> pi_writeopen q then kfree p s else Ret s)"

definition pipewrite :: "uint \<Rightarrow> uchar list \<Rightarrow> 'a file_state_scheme \<Rightarrow> (int \<times> 'a file_state_scheme) res" where
  "pipewrite p addr s =
     bnd (mykilled s) (\<lambda>killed.
     case pipewrite_loop killed addr (pipes s p) of
       PSleep _ _ \<Rightarrow> Sleep (ChanPipeW (unat p))
     | PDone ok q \<Rightarrow>
         (let s = s\<lparr>pipes := (pipes s)(p := q)\<rparr>
          in if ok then Ret (int (length addr), wakeup (ChanPipeR (unat p)) s) else Ret (- 1, s)))"

definition piperead ::
    "uint \<Rightarrow> nat \<Rightarrow> 'a file_state_scheme \<Rightarrow> ((int \<times> uchar list) \<times> 'a file_state_scheme) res" where
  "piperead p n s =
     bnd (mykilled s) (\<lambda>killed.
     case piperead_out killed n (pipes s p) of
       PSleep _ _ \<Rightarrow> Sleep (ChanPipeR (unat p))
     | PDone r q \<Rightarrow>
         (let s = s\<lparr>pipes := (pipes s)(p := q)\<rparr>
          in case r of None \<Rightarrow> Ret ((- 1, []), s)
             | Some cs \<Rightarrow> Ret ((int (length cs), cs), wakeup (ChanPipeW (unat p)) s)))"

section \<open>The file table\<close>

definition filealloc :: "'a file_state_scheme \<Rightarrow> nat option \<times> 'a file_state_scheme" where
  "filealloc s =
     (case find_idx (\<lambda>f. f_ref f = 0) (ftable s) of
        None \<Rightarrow> (None, s)
      | Some f \<Rightarrow> (Some f, upd_file f (\<lambda>x. x\<lparr>f_ref := 1\<rparr>) s))"

definition filedup :: "nat \<Rightarrow> 'a file_state_scheme \<Rightarrow> (nat \<times> 'a file_state_scheme) res" where
  "filedup f s =
     (if f_ref (ftable s ! f) < 1 then Panic ''filedup''
      else Ret (f, upd_file f (\<lambda>x. x\<lparr>f_ref := f_ref x + 1\<rparr>) s))"

definition fileclose :: "nat \<Rightarrow> 'a file_state_scheme \<Rightarrow> 'a file_state_scheme res" where
  "fileclose f s =
     (if f_ref (ftable s ! f) < 1 then Panic ''fileclose''
      else if f_ref (ftable s ! f) - 1 > 0 then Ret (upd_file f (\<lambda>x. x\<lparr>f_ref := f_ref x - 1\<rparr>) s)
      else (let ff = ftable s ! f; s = upd_file f (\<lambda>x. x\<lparr>f_ref := 0, f_type := FD_NONE\<rparr>) s
            in if f_type ff = FD_PIPE then pipeclose (f_pipe ff) (f_writable ff) s
               else if f_type ff = FD_INODE
               then bnd (begin_op s) (\<lambda>s. bnd (iput (f_ip ff) s) end_op)
               else Ret s))"

definition filestat :: "nat \<Rightarrow> 'a file_state_scheme \<Rightarrow> (fstat option \<times> 'a file_state_scheme) res" where
  "filestat f s =
     (let x = ftable s ! f
      in if f_type x = FD_INODE
         then bnd (ilock (f_ip x) s) (\<lambda>s.
              let st = stati (f_ip x) s
              in bnd (iunlock (f_ip x) s) (\<lambda>s. Ret (Some st, s)))
         else Ret (None, s))"

definition fileread ::
    "nat \<Rightarrow> nat \<Rightarrow> 'a file_state_scheme \<Rightarrow> ((int \<times> uchar list) \<times> 'a file_state_scheme) res" where
  "fileread f n s =
     (let x = ftable s ! f
      in if \<not> f_readable x then Ret ((- 1, []), s)
         else if f_type x = FD_PIPE then piperead (f_pipe x) n s
         else if f_type x = FD_INODE
         then bnd (ilock (f_ip x) s) (\<lambda>s.
              bnd (readi devsw_read (f_ip x) (f_off x) n s) (\<lambda>((r, bs), s).
              let s = (if r > 0 then upd_file f (\<lambda>x. x\<lparr>f_off := (f_off x + nat r) mod 2 ^ 32\<rparr>) s else s)
              in bnd (iunlock (f_ip x) s) (\<lambda>s. Ret ((r, bs), s))))
         else Panic ''fileread'')"

text \<open>The most bytes \<open>filewrite\<close> puts into one transaction.\<close>

definition filewrite_max :: nat where "filewrite_max = ((MAXOPBLOCKS - 1 - 1 - 2) div 2) * 512"

text \<open>The loop of \<open>filewrite\<close> over the bytes still to be written; it returns whether all were.\<close>

function filewrite_loop :: "nat \<Rightarrow> uchar list \<Rightarrow> 'a file_state_scheme \<Rightarrow> (bool \<times> 'a file_state_scheme) res" where
  "filewrite_loop f addr s =
     (if addr = [] then Ret (True, s)
      else (let n1 = min (length addr) filewrite_max; ip = f_ip (ftable s ! f)
            in bnd (begin_op s) (\<lambda>s.
               bnd (ilock ip s) (\<lambda>s.
               bnd (writei devsw_write ip (take n1 addr) (f_off (ftable s ! f)) s) (\<lambda>(r, s).
               let s = (if r > 0 then upd_file f (\<lambda>x. x\<lparr>f_off := (f_off x + nat r) mod 2 ^ 32\<rparr>) s else s)
               in bnd (iunlock ip s) (\<lambda>s.
                  bnd (end_op s) (\<lambda>s.
                  if r < 0 then Ret (False, s)
                  else if r \<noteq> int n1 then Panic ''short filewrite''
                  else filewrite_loop f (drop n1 addr) s)))))))"
  by pat_completeness auto
termination
  by (relation "measure (\<lambda>(_, addr, _). length addr)") (auto simp: filewrite_max_def MAXOPBLOCKS_def)

definition filewrite :: "nat \<Rightarrow> uchar list \<Rightarrow> 'a file_state_scheme \<Rightarrow> (int \<times> 'a file_state_scheme) res" where
  "filewrite f addr s =
     (let x = ftable s ! f
      in if \<not> f_writable x then Ret (- 1, s)
         else if f_type x = FD_PIPE then pipewrite (f_pipe x) addr s
         else if f_type x = FD_INODE
         then bnd (filewrite_loop f addr s) (\<lambda>(ok, s). Ret (if ok then int (length addr) else - 1, s))
         else Panic ''filewrite'')"

text \<open>\<open>pipealloc\<close>: the two files, or \<open>None\<close> for the return value -1. At the label \<open>bad\<close> the page has
  never been allocated.\<close>

definition pipealloc :: "'a file_state_scheme \<Rightarrow> ((nat \<times> nat) option \<times> 'a file_state_scheme) res" where
  "pipealloc s =
     (case filealloc s of
        (None, s) \<Rightarrow> Ret (None, s)
      | (Some f0, s) \<Rightarrow>
          (case filealloc s of
             (None, s) \<Rightarrow> bnd (fileclose f0 s) (\<lambda>s. Ret (None, s))
           | (Some f1, s) \<Rightarrow>
               (let (p, s) = kalloc s
                in if p = 0
                   then bnd (fileclose f0 s) (\<lambda>s. bnd (fileclose f1 s) (\<lambda>s. Ret (None, s)))
                   else (let s = s\<lparr>pipes := (pipes s)(p := pipe_init (pi_data (pipes s p)))\<rparr>;
                             s = upd_file f0 (\<lambda>x. x\<lparr>f_type := FD_PIPE, f_readable := True,
                                   f_writable := False, f_pipe := p\<rparr>) s;
                             s = upd_file f1 (\<lambda>x. x\<lparr>f_type := FD_PIPE, f_readable := False,
                                   f_writable := True, f_pipe := p\<rparr>) s
                         in Ret (Some (f0, f1), s)))))"

end
