(* ===== verification/Usermem.thy ===== *)
theory Usermem
  imports File
begin

text \<open>
  System call arguments: \<open>fetchint\<close>, \<open>fetchstr\<close>, \<open>argint\<close>, \<open>argptr\<close>, \<open>argstr\<close> of \<open>syscall.c\<close>, and
  the access of kernel code to the memory of the current process, which goes through the page
  table of the process. The x86 translates an address with the two-level table; an access
  to a page that is not present, or a write to one that is not writable, is a page fault, which in
  kernel mode ends in \<open>panic("trap")\<close> (\<open>trap.c\<close>).
\<close>

section \<open>Address translation\<close>

text \<open>The page table entry the hardware finds for an address, 0 if there is none.\<close>

definition pte_of :: "uint \<Rightarrow> uint \<Rightarrow> 'a kmem_state_scheme \<Rightarrow> uint" where
  "pte_of pgdir va s =
     (let e = load32 (kmem_mem s) (pgdir + 4 * PDX va)
      in if e AND PTE_P \<noteq> 0 then load32 (kmem_mem s) (P2V (PTE_ADDR e) + 4 * PTX va) else 0)"

text \<open>The kernel address of the byte at a user address.\<close>

definition uaddr :: "uint \<Rightarrow> uint \<Rightarrow> 'a kmem_state_scheme \<Rightarrow> uint" where
  "uaddr pgdir va s = P2V (PTE_ADDR (pte_of pgdir va s)) + (va - PGROUNDDOWN va)"

definition uload :: "uint \<Rightarrow> uint \<Rightarrow> 'a kmem_state_scheme \<Rightarrow> uchar res" where
  "uload pgdir va s =
     (if pte_of pgdir va s AND PTE_P = 0 then Panic ''trap'' else Ret (kmem_mem s (uaddr pgdir va s)))"

definition ustore :: "uint \<Rightarrow> uint \<Rightarrow> uchar \<Rightarrow> 'a kmem_state_scheme \<Rightarrow> 'a kmem_state_scheme res" where
  "ustore pgdir va c s =
     (let e = pte_of pgdir va s
      in if e AND PTE_P = 0 \<or> e AND PTE_W = 0 then Panic ''trap''
         else Ret (s\<lparr>kmem_mem := (kmem_mem s)(uaddr pgdir va s := c)\<rparr>))"

primrec uload_n :: "nat \<Rightarrow> uint \<Rightarrow> uint \<Rightarrow> 'a kmem_state_scheme \<Rightarrow> uchar list res" where
  "uload_n 0 pgdir va s = Ret []"
| "uload_n (Suc n) pgdir va s =
     bnd (uload pgdir va s) (\<lambda>c. bnd (uload_n n pgdir (va + 1) s) (\<lambda>cs. Ret (c # cs)))"

primrec ustore_n :: "uchar list \<Rightarrow> uint \<Rightarrow> uint \<Rightarrow> 'a kmem_state_scheme \<Rightarrow> 'a kmem_state_scheme res" where
  "ustore_n [] pgdir va s = Ret s"
| "ustore_n (c # cs) pgdir va s = bnd (ustore pgdir va c s) (ustore_n cs pgdir (va + 1))"

section \<open>Arguments\<close>

text \<open>\<open>myproc()\<close> as a slot; the null pointer is dereferenced at once by every caller.\<close>

definition curproc :: "'a kstate_scheme \<Rightarrow> nat res" where
  "curproc s = (case cur s of None \<Rightarrow> Undef | Some i \<Rightarrow> Ret i)"

text \<open>\<open>None\<close> is the return value -1.\<close>

definition fetchint :: "uint \<Rightarrow> 'a kmem_state_scheme \<Rightarrow> uint option res" where
  "fetchint addr s =
     bnd (curproc s) (\<lambda>p.
     let sz = p_sz (ptable s ! p)
     in if addr \<ge> sz \<or> addr + 4 > sz then Ret None
        else bnd (uload_n 4 (p_pgdir (ptable s ! p)) addr s) (\<lambda>bs. Ret (Some (word_of_nat (le_nat bs)))))"

text \<open>The loop of \<open>fetchstr\<close> over the \<open>n\<close> bytes before \<open>ep\<close>. It returns the string with its NUL.\<close>

primrec fetchstr_loop :: "nat \<Rightarrow> uint \<Rightarrow> uint \<Rightarrow> 'a kmem_state_scheme \<Rightarrow> uchar list option res" where
  "fetchstr_loop 0 pgdir a s = Ret None"
| "fetchstr_loop (Suc n) pgdir a s =
     bnd (uload pgdir a s) (\<lambda>c.
     if c = 0 then Ret (Some [0])
     else bnd (fetchstr_loop n pgdir (a + 1) s) (\<lambda>r. Ret (map_option (Cons c) r)))"

definition fetchstr :: "uint \<Rightarrow> 'a kmem_state_scheme \<Rightarrow> uchar list option res" where
  "fetchstr addr s =
     bnd (curproc s) (\<lambda>p.
     let sz = p_sz (ptable s ! p)
     in if addr \<ge> sz then Ret None
        else fetchstr_loop (unat sz - unat addr) (p_pgdir (ptable s ! p)) addr s)"

definition argint :: "nat \<Rightarrow> 'a kmem_state_scheme \<Rightarrow> uint option res" where
  "argint n s =
     bnd (curproc s) (\<lambda>p. fetchint (tf_esp (p_tf (ptable s ! p)) + 4 + 4 * word_of_nat n) s)"

definition argptr :: "nat \<Rightarrow> int \<Rightarrow> 'a kmem_state_scheme \<Rightarrow> uint option res" where
  "argptr n sz s =
     bnd (curproc s) (\<lambda>p.
     bnd (argint n s) (\<lambda>r.
     case r of
       None \<Rightarrow> Ret None
     | Some i \<Rightarrow>
         (let psz = p_sz (ptable s ! p)
          in if sz < 0 \<or> i \<ge> psz \<or> i + word_of_int sz > psz then Ret None else Ret (Some i))))"

definition argstr :: "nat \<Rightarrow> 'a kmem_state_scheme \<Rightarrow> uchar list option res" where
  "argstr n s =
     bnd (argint n s) (\<lambda>r. case r of None \<Rightarrow> Ret None | Some addr \<Rightarrow> fetchstr addr s)"

end
