(* ===== verification/Process.thy ===== *)
theory Process
  imports Usermem
begin

text \<open>
  The life of a process, \<open>proc.c\<close>: \<open>allocproc\<close>, \<open>userinit\<close>, \<open>growproc\<close>, \<open>fork\<close>, \<open>exit\<close>, \<open>wait\<close>.

  The trap frame and the saved context, which \<open>allocproc\<close> places at the top of the kernel stack, are
  fields of the process. \<open>forkret\<close> and \<open>trapret\<close> are the addresses of the two routines.
\<close>

section \<open>Creation\<close>

type_synonym 'a proc_state = "'a file_state_scheme"

definition INT_MAX :: int where "INT_MAX = 2 ^ 31 - 1"

text \<open>\<open>nextpid++\<close> overflows after \<open>INT_MAX\<close> processes.\<close>

definition allocproc :: "uint \<Rightarrow> 'a proc_state \<Rightarrow> (nat option \<times> 'a proc_state) res" where
  "allocproc forkret s =
     (case find_idx (\<lambda>p. p_state p = UNUSED) (ptable s) of
        None \<Rightarrow> Ret (None, s)
      | Some p \<Rightarrow>
          if nextpid s = INT_MAX then Undef
          else (let s = upd_proc p (\<lambda>x. x\<lparr>p_state := EMBRYO, p_pid := nextpid s\<rparr>) s;
                    s = s\<lparr>nextpid := nextpid s + 1\<rparr>;
                    (kstack, s) = kalloc s;
                    s = upd_proc p (\<lambda>x. x\<lparr>p_kstack := kstack\<rparr>) s
                in if kstack = 0 then Ret (None, upd_proc p (\<lambda>x. x\<lparr>p_state := UNUSED\<rparr>) s)
                   else Ret (Some p, upd_proc p (\<lambda>x. x\<lparr>p_context :=
                          \<lparr>cx_edi = 0, cx_esi = 0, cx_ebx = 0, cx_ebp = 0, cx_eip = forkret\<rparr>\<rparr>) s)))"

definition SEG_UCODE :: nat where "SEG_UCODE = 3"
definition SEG_UDATA :: nat where "SEG_UDATA = 4"
definition DPL_USER :: nat where "DPL_USER = 3"
definition FL_IF :: uint where "FL_IF = 0x200"

definition bytes_of_string :: "string \<Rightarrow> uchar list" where
  "bytes_of_string t = map of_char t @ [0]"

text \<open>\<open>userinit\<close>, given the program \<open>initcode\<close> the kernel is linked with.\<close>

definition userinit :: "uint \<Rightarrow> uchar list \<Rightarrow> 'a proc_state \<Rightarrow> 'a proc_state res" where
  "userinit forkret initcode s =
     bnd (allocproc forkret s) (\<lambda>(r, s).
     case r of None \<Rightarrow> Undef
     | Some p \<Rightarrow>
        let s = s\<lparr>initproc := Some p\<rparr>
        in bnd (setupkvm s) (\<lambda>(pgdir, s).
           if pgdir = 0 then Panic ''userinit: out of memory?''
           else bnd (inituvm pgdir initcode (upd_proc p (\<lambda>x. x\<lparr>p_pgdir := pgdir\<rparr>) s)) (\<lambda>s.
             let ds = word_of_nat (SEG_UDATA * 8 + DPL_USER);
                 tf = zero_tf\<lparr>tf_cs := word_of_nat (SEG_UCODE * 8 + DPL_USER), tf_ds := ds, tf_es := ds,
                        tf_ss := ds, tf_eflags := FL_IF, tf_esp := word_of_nat PGSIZE, tf_eip := 0\<rparr>;
                 s = upd_proc p (\<lambda>x. x\<lparr>p_sz := word_of_nat PGSIZE, p_tf := tf, p_ticks := 0, p_tickets := 10\<rparr>) s
             in bnd (safestrcpy (p_name (ptable s ! p)) (bytes_of_string ''initcode'') 16) (\<lambda>nm.
                bnd (namei (bytes_of_string ''/'') (upd_proc p (\<lambda>x. x\<lparr>p_name := nm\<rparr>) s)) (\<lambda>(ip, s).
                Ret (upd_proc p (\<lambda>x. x\<lparr>p_cwd := ip, p_state := RUNNABLE\<rparr>) s))))))"

section \<open>Memory\<close>

text \<open>\<open>switchuvm(curproc)\<close> on the CPU the process runs on.\<close>

definition switchuvm_cur :: "nat \<Rightarrow> 'a kstate_scheme \<Rightarrow> 'a kstate_scheme res" where
  "switchuvm_cur p s =
     (case find_idx (\<lambda>c. c_apicid c = lapic_id s) (take (ncpu s) (cpus s)) of
        None \<Rightarrow> Panic ''unknown apicid'' | Some i \<Rightarrow> switchuvm i (Some p) s)"

definition growproc :: "int \<Rightarrow> 'a proc_state \<Rightarrow> (int \<times> 'a proc_state) res" where
  "growproc n s =
     bnd (curproc s) (\<lambda>p.
     let x = ptable s ! p; sz = p_sz x
     in bnd (if n > 0 then allocuvm (p_pgdir x) sz (sz + word_of_int n) s
             else if n < 0 then deallocuvm (p_pgdir x) sz (sz + word_of_int n) s
             else Ret (sz, s)) (\<lambda>(sz, s).
        if n \<noteq> 0 \<and> sz = 0 then Ret (- 1, s)
        else bnd (switchuvm_cur p (upd_proc p (\<lambda>x. x\<lparr>p_sz := sz\<rparr>) s)) (\<lambda>s. Ret (0, s))))"

section \<open>Fork, exit and wait\<close>

text \<open>\<open>np->ofile[i] = filedup(curproc->ofile[i])\<close> for every open file from descriptor \<open>i\<close> on.\<close>

primrec fork_files :: "nat option list \<Rightarrow> nat \<Rightarrow> nat \<Rightarrow> 'a proc_state \<Rightarrow> 'a proc_state res" where
  "fork_files [] i np s = Ret s"
| "fork_files (f # fs) i np s =
     (case f of
        None \<Rightarrow> fork_files fs (Suc i) np s
      | Some f \<Rightarrow> bnd (filedup f s) (\<lambda>(f, s).
          fork_files fs (Suc i) np (upd_proc np (\<lambda>x. x\<lparr>p_ofile := (p_ofile x)[i := Some f]\<rparr>) s)))"

definition fork :: "uint \<Rightarrow> 'a proc_state \<Rightarrow> (int \<times> 'a proc_state) res" where
  "fork forkret s =
     bnd (curproc s) (\<lambda>cp.
     bnd (allocproc forkret s) (\<lambda>(r, s).
     case r of
       None \<Rightarrow> Ret (- 1, s)
     | Some np \<Rightarrow>
        let x = ptable s ! cp
        in bnd (copyuvm (p_pgdir x) (p_sz x) s) (\<lambda>(pgdir, s).
           let s = upd_proc np (\<lambda>y. y\<lparr>p_pgdir := pgdir\<rparr>) s
           in if pgdir = 0
              then bnd (kfree (p_kstack (ptable s ! np)) s) (\<lambda>s.
                   Ret (- 1, upd_proc np (\<lambda>y. y\<lparr>p_kstack := 0, p_state := UNUSED\<rparr>) s))
              else (let s = upd_proc np (\<lambda>y. y\<lparr>p_sz := p_sz x, p_parent := Some cp,
                             p_tf := (p_tf x)\<lparr>tf_eax := 0\<rparr>\<rparr>) s
                    in bnd (fork_files (p_ofile x) 0 np s) (\<lambda>s.
                       case p_cwd x of None \<Rightarrow> Undef
                       | Some cwd \<Rightarrow>
                          let (cwd, s) = idup cwd s;
                              s = upd_proc np (\<lambda>y. y\<lparr>p_cwd := Some cwd\<rparr>) s
                          in bnd (safestrcpy (p_name (ptable s ! np)) (p_name x) 16) (\<lambda>nm.
                             let t = gettickets (p_pid x) s;
                                 s = upd_proc np (\<lambda>y. y\<lparr>p_name := nm, p_ticks := 0,
                                       p_tickets := (if t > 10 then t else 10)\<rparr>) s;
                                 pid = p_pid (ptable s ! np)
                             in Ret (pid, upd_proc np (\<lambda>y. y\<lparr>p_state := RUNNABLE\<rparr>) s)))))))"

primrec exit_files :: "nat \<Rightarrow> nat \<Rightarrow> nat \<Rightarrow> 'a proc_state \<Rightarrow> 'a proc_state res" where
  "exit_files 0 fd p s = Ret s"
| "exit_files (Suc k) fd p s =
     (case p_ofile (ptable s ! p) ! fd of
        None \<Rightarrow> exit_files k (Suc fd) p s
      | Some f \<Rightarrow> bnd (fileclose f s) (\<lambda>s.
          exit_files k (Suc fd) p (upd_proc p (\<lambda>x. x\<lparr>p_ofile := (p_ofile x)[fd := None]\<rparr>) s)))"

text \<open>A channel that is a process, or null.\<close>

definition proc_chan :: "nat option \<Rightarrow> chan option" where
  "proc_chan = map_option ChanProc"

definition wakeup1_opt :: "nat option \<Rightarrow> 'a kstate_scheme \<Rightarrow> 'a kstate_scheme" where
  "wakeup1_opt p s = s\<lparr>ptable := map (\<lambda>x.
     if p_state x = SLEEPING \<and> p_chan x = proc_chan p then x\<lparr>p_state := RUNNABLE\<rparr> else x) (ptable s)\<rparr>"

text \<open>Passing the children of \<open>cp\<close> to \<open>init\<close>, slot by slot.\<close>

primrec reparent :: "nat list \<Rightarrow> nat \<Rightarrow> 'a kstate_scheme \<Rightarrow> 'a kstate_scheme" where
  "reparent [] cp s = s"
| "reparent (i # is) cp s =
     (if p_parent (ptable s ! i) = Some cp
      then (let s = upd_proc i (\<lambda>x. x\<lparr>p_parent := initproc s\<rparr>) s
            in reparent is cp (if p_state (ptable s ! i) = ZOMBIE then wakeup1_opt (initproc s) s else s))
      else reparent is cp s)"

text \<open>\<open>exit\<close> up to the switch to the scheduler.\<close>

definition exit_proc :: "'a proc_state \<Rightarrow> 'a proc_state res" where
  "exit_proc s =
     bnd (curproc s) (\<lambda>cp.
     if Some cp = initproc s then Panic ''init exiting''
     else bnd (exit_files NOFILE 0 cp s) (\<lambda>s.
       bnd (begin_op s) (\<lambda>s.
       case p_cwd (ptable s ! cp) of None \<Rightarrow> Undef
       | Some cwd \<Rightarrow>
         bnd (iput cwd s) (\<lambda>s.
         bnd (end_op s) (\<lambda>s.
         let s = upd_proc cp (\<lambda>x. x\<lparr>p_cwd := None\<rparr>) s;
             s = wakeup1_opt (p_parent (ptable s ! cp)) s;
             s = reparent [0..<NPROC] cp s
         in Ret (upd_proc cp (\<lambda>x. x\<lparr>p_state := ZOMBIE\<rparr>) s))))))"

text \<open>One pass of \<open>wait\<close> over the table; without a zombie child the process sleeps, unless it has no
  child or was killed.\<close>

definition wait :: "'a proc_state \<Rightarrow> (int \<times> 'a proc_state) res" where
  "wait s =
     bnd (curproc s) (\<lambda>cp.
     case find_idx (\<lambda>x. p_parent x = Some cp \<and> p_state x = ZOMBIE) (ptable s) of
       Some p \<Rightarrow>
         (let x = ptable s ! p
          in bnd (kfree (p_kstack x) s) (\<lambda>s.
             bnd (freevm (p_pgdir x) (upd_proc p (\<lambda>x. x\<lparr>p_kstack := 0\<rparr>) s)) (\<lambda>s.
             Ret (p_pid x, upd_proc p (\<lambda>x. x\<lparr>p_pid := 0, p_parent := None, p_name := (p_name x)[0 := 0],
                    p_killed := False, p_state := UNUSED\<rparr>) s))))
     | None \<Rightarrow>
         if \<not> (\<exists>x \<in> set (ptable s). p_parent x = Some cp) \<or> p_killed (ptable s ! cp) then Ret (- 1, s)
         else Sleep (ChanProc cp))"

text \<open>\<open>forkret\<close>: what the first run of a process does before it returns to user space; \<open>first\<close> is the
  static variable.\<close>

definition forkret_body :: "bool \<Rightarrow> 'a proc_state \<Rightarrow> (bool \<times> 'a proc_state) res" where
  "forkret_body first s =
     (if first
      then bnd (iinit ROOTDEV s) (\<lambda>s. bnd (initlog ROOTDEV s) (\<lambda>s. Ret (False, s)))
      else Ret (first, s))"

end
