(* ===== verification/Exec.thy ===== *)
theory Exec
  imports Process
begin

text \<open>
  Loading a program: \<open>loaduvm\<close> of \<open>vm.c\<close>, the ELF headers of \<open>elf.h\<close> and \<open>exec\<close> of \<open>exec.c\<close>. A
  header is the bytes of the file with the fields at their C offsets. In \<open>exec\<close> the label \<open>bad\<close> is the
  function \<open>exec_bad\<close>.
\<close>

section \<open>ELF headers\<close>

definition ELF_MAGIC :: nat where "ELF_MAGIC = 0x464C457F"
definition ELF_PROG_LOAD :: nat where "ELF_PROG_LOAD = 1"

record elfhdr =
  eh_magic :: nat
  eh_entry :: nat
  eh_phoff :: nat
  eh_phnum :: nat

text \<open>\<open>sizeof(struct elfhdr)\<close> is 52, \<open>sizeof(struct proghdr)\<close> is 32.\<close>

definition elfhdr_of :: "uchar list \<Rightarrow> elfhdr" where
  "elfhdr_of d = \<lparr>eh_magic = get32 0 d, eh_entry = get32 24 d, eh_phoff = get32 28 d,
     eh_phnum = le_nat (slice_at 44 2 d)\<rparr>"

record proghdr =
  ph_type :: nat
  ph_off :: nat
  ph_vaddr :: nat
  ph_filesz :: nat
  ph_memsz :: nat

definition proghdr_of :: "uchar list \<Rightarrow> proghdr" where
  "proghdr_of d = \<lparr>ph_type = get32 0 d, ph_off = get32 4 d, ph_vaddr = get32 8 d,
     ph_filesz = get32 16 d, ph_memsz = get32 20 d\<rparr>"

section \<open>Loading a segment\<close>

text \<open>The loop of \<open>loaduvm\<close>, with \<open>k\<close> pages left; \<open>True\<close> is the return value 0.\<close>

primrec loaduvm_loop ::
    "nat \<Rightarrow> nat \<Rightarrow> uint \<Rightarrow> uint \<Rightarrow> nat \<Rightarrow> nat \<Rightarrow> nat \<Rightarrow> 'a proc_state \<Rightarrow> (bool \<times> 'a proc_state) res" where
  "loaduvm_loop 0 i pgdir addr ip offset sz s = Ret (True, s)"
| "loaduvm_loop (Suc k) i pgdir addr ip offset sz s =
     (let pte = fst (walkpgdir pgdir (addr + word_of_nat i) False s)
      in if pte = 0 then Panic ''loaduvm: address should exist''
         else (let pa = PTE_ADDR (load32 (kmem_mem s) pte);
                   n = (if sz - i < PGSIZE then sz - i else PGSIZE)
               in bnd (readi devsw_read ip ((offset + i) mod 2 ^ 32) n s) (\<lambda>((r, bs), s).
                  let s = s\<lparr>kmem_mem := poke bs (P2V pa) (kmem_mem s)\<rparr>
                  in if r \<noteq> int n then Ret (False, s)
                     else loaduvm_loop k (i + PGSIZE) pgdir addr ip offset sz s)))"

definition loaduvm ::
    "uint \<Rightarrow> uint \<Rightarrow> nat \<Rightarrow> nat \<Rightarrow> nat \<Rightarrow> 'a proc_state \<Rightarrow> (bool \<times> 'a proc_state) res" where
  "loaduvm pgdir addr ip offset sz s =
     (if unat addr mod PGSIZE \<noteq> 0 then Panic ''loaduvm: addr must be page aligned''
      else loaduvm_loop ((sz + PGSIZE - 1) div PGSIZE) 0 pgdir addr ip offset sz s)"

section \<open>Exec\<close>

definition exec_bad :: "uint \<Rightarrow> nat option \<Rightarrow> 'a proc_state \<Rightarrow> (int \<times> 'a proc_state) res" where
  "exec_bad pgdir ip s =
     bnd (if pgdir \<noteq> 0 then freevm pgdir s else Ret s) (\<lambda>s.
     bnd (case ip of None \<Rightarrow> Ret s | Some ip \<Rightarrow> bnd (iunlockput ip s) end_op) (\<lambda>s.
     Ret (- 1, s)))"

text \<open>The loop over the program headers; \<open>None\<close> is a jump to \<open>bad\<close>, else the size reached.\<close>

primrec exec_load ::
    "nat \<Rightarrow> nat \<Rightarrow> uint \<Rightarrow> nat \<Rightarrow> uint \<Rightarrow> 'a proc_state \<Rightarrow> (uint option \<times> 'a proc_state) res" where
  "exec_load 0 off pgdir ip sz s = Ret (Some sz, s)"
| "exec_load (Suc k) off pgdir ip sz s =
     bnd (readi devsw_read ip off 32 s) (\<lambda>((r, bs), s).
     let ph = proghdr_of bs; off' = (off + 32) mod 2 ^ 32
     in if r \<noteq> 32 then Ret (None, s)
        else if ph_type ph \<noteq> ELF_PROG_LOAD then exec_load k off' pgdir ip sz s
        else if ph_memsz ph < ph_filesz ph then Ret (None, s)
        else if (ph_vaddr ph + ph_memsz ph) mod 2 ^ 32 < ph_vaddr ph then Ret (None, s)
        else bnd (allocuvm pgdir sz (word_of_nat (ph_vaddr ph + ph_memsz ph)) s) (\<lambda>(sz, s).
          if sz = 0 then Ret (None, s)
          else if ph_vaddr ph mod PGSIZE \<noteq> 0 then Ret (None, s)
          else bnd (loaduvm pgdir (word_of_nat (ph_vaddr ph)) ip (ph_off ph) (ph_filesz ph) s) (\<lambda>(ok, s).
            if \<not> ok then Ret (None, s) else exec_load k off' pgdir ip sz s)))"

text \<open>Pushing the argument strings, each with its NUL. The result is the stack pointer and the
  addresses of the strings.\<close>

primrec exec_args ::
    "uchar list list \<Rightarrow> nat \<Rightarrow> uint \<Rightarrow> uint \<Rightarrow> 'a proc_state \<Rightarrow> ((uint \<times> uint list) option \<times> 'a proc_state) res" where
  "exec_args [] argc pgdir sp s = Ret (Some (sp, []), s)"
| "exec_args (arg # args) argc pgdir sp s =
     (if argc \<ge> MAXARG then Ret (None, s)
      else (let sp = (sp - word_of_nat (length arg)) AND NOT 3
            in bnd (copyout pgdir sp arg s) (\<lambda>(r, s).
               if r < 0 then Ret (None, s)
               else bnd (exec_args args (Suc argc) pgdir sp s) (\<lambda>(q, s).
                 Ret (map_option (\<lambda>(sp', as). (sp', sp # as)) q, s)))))"

definition word_bytes :: "uint \<Rightarrow> uchar list" where
  "word_bytes w = le_bytes 4 (unat w)"

text \<open>The words \<open>ustack[0]\<close> to \<open>ustack[3+argc]\<close>.\<close>

definition ustack :: "uint \<Rightarrow> uint list \<Rightarrow> uint list" where
  "ustack sp as = [0xffffffff, word_of_nat (length as), sp - word_of_nat ((length as + 1) * 4)] @ as @ [0]"

text \<open>The last component of a path, with everything after it.\<close>

fun last_elem :: "uchar list \<Rightarrow> uchar list \<Rightarrow> uchar list" where
  "last_elem [] l = l"
| "last_elem (c # p) l = (if c = 0 then l else last_elem p (if c = 47 then p else l))"

text \<open>\<open>exec\<close>, with the path and each argument as bytes that end with their NUL.\<close>

definition exec :: "uchar list \<Rightarrow> uchar list list \<Rightarrow> 'a proc_state \<Rightarrow> (int \<times> 'a proc_state) res" where
  "exec path argv s =
     bnd (curproc s) (\<lambda>cp.
     bnd (begin_op s) (\<lambda>s.
     bnd (namei path s) (\<lambda>(r, s).
     case r of
       None \<Rightarrow> bnd (end_op s) (\<lambda>s. bnd (cprintf (''exec: fail'' @ [CHR 0x0A]) [] s) (\<lambda>s. Ret (- 1, s)))
     | Some ip \<Rightarrow>
       bnd (ilock ip s) (\<lambda>s.
       bnd (readi devsw_read ip 0 52 s) (\<lambda>((r, bs), s).
       let elf = elfhdr_of bs
       in if r \<noteq> 52 then exec_bad 0 (Some ip) s
          else if eh_magic elf \<noteq> ELF_MAGIC then exec_bad 0 (Some ip) s
          else bnd (setupkvm s) (\<lambda>(pgdir, s).
            if pgdir = 0 then exec_bad 0 (Some ip) s
            else bnd (exec_load (eh_phnum elf) (eh_phoff elf) pgdir ip 0 s) (\<lambda>(r, s).
              case r of
                None \<Rightarrow> exec_bad pgdir (Some ip) s
              | Some sz \<Rightarrow>
                bnd (iunlockput ip s) (\<lambda>s.
                bnd (end_op s) (\<lambda>s.
                let sz = PGROUNDUP sz
                in bnd (allocuvm pgdir sz (sz + 2 * word_of_nat PGSIZE) s) (\<lambda>(sz, s).
                   if sz = 0 then exec_bad pgdir None s
                   else bnd (clearpteu pgdir (sz - 2 * word_of_nat PGSIZE) s) (\<lambda>s.
                     bnd (exec_args argv 0 pgdir sz s) (\<lambda>(r, s).
                     case r of
                       None \<Rightarrow> exec_bad pgdir None s
                     | Some (sp, as) \<Rightarrow>
                       let us = ustack sp as; sp = sp - word_of_nat ((3 + length as + 1) * 4)
                       in bnd (copyout pgdir sp (concat (map word_bytes us)) s) (\<lambda>(r, s).
                          if r < 0 then exec_bad pgdir None s
                          else bnd (safestrcpy (p_name (ptable s ! cp)) (last_elem path path) 16) (\<lambda>nm.
                            let oldpgdir = p_pgdir (ptable s ! cp);
                                s = upd_proc cp (\<lambda>x. x\<lparr>p_name := nm, p_pgdir := pgdir, p_sz := sz,
                                      p_tf := (p_tf x)\<lparr>tf_eip := word_of_nat (eh_entry elf), tf_esp := sp\<rparr>\<rparr>) s
                            in bnd (switchuvm_cur cp s) (\<lambda>s.
                               bnd (freevm oldpgdir s) (\<lambda>s. Ret (0, s)))))))))))))))))"

end
