(* ===== verification/Sysfile.thy ===== *)
theory Sysfile
  imports Exec
begin

text \<open>
  The file system calls of \<open>sysfile.c\<close>. Each takes its arguments from the user stack through
  \<open>argint\<close>, \<open>argptr\<close> and \<open>argstr\<close> (theory \<open>Usermem\<close>) and returns the value for \<open>%eax\<close>. The bytes
  \<open>fileread\<close> produces are stored to, and those \<open>filewrite\<close> needs are loaded from, the memory of the
  process.
\<close>

section \<open>Descriptors\<close>

definition sint32 :: "uint \<Rightarrow> int" where "sint32 w = sint w"

definition argfd :: "nat \<Rightarrow> 'a proc_state \<Rightarrow> (nat \<times> nat) option res" where
  "argfd n s =
     bnd (argint n s) (\<lambda>r.
     case r of
       None \<Rightarrow> Ret None
     | Some w \<Rightarrow>
         (let fd = sint32 w
          in if fd < 0 \<or> fd \<ge> int NOFILE then Ret None
             else bnd (curproc s) (\<lambda>p.
               Ret (map_option (\<lambda>f. (nat fd, f)) (p_ofile (ptable s ! p) ! nat fd)))))"

definition fdalloc :: "nat \<Rightarrow> 'a proc_state \<Rightarrow> (int \<times> 'a proc_state) res" where
  "fdalloc f s =
     bnd (curproc s) (\<lambda>p.
     case find_idx (\<lambda>x. x = None) (p_ofile (ptable s ! p)) of
       None \<Rightarrow> Ret (- 1, s)
     | Some fd \<Rightarrow> Ret (int fd, upd_proc p (\<lambda>x. x\<lparr>p_ofile := (p_ofile x)[fd := Some f]\<rparr>) s))"

definition sys_dup :: "'a proc_state \<Rightarrow> (int \<times> 'a proc_state) res" where
  "sys_dup s =
     bnd (argfd 0 s) (\<lambda>r.
     case r of
       None \<Rightarrow> Ret (- 1, s)
     | Some (_, f) \<Rightarrow>
         bnd (fdalloc f s) (\<lambda>(fd, s).
         if fd < 0 then Ret (- 1, s)
         else bnd (filedup f s) (\<lambda>(_, s). Ret (fd, s))))"

text \<open>The common prefix of \<open>sys_read\<close> and \<open>sys_write\<close>: file, buffer address and length.\<close>

definition rw_args :: "'a proc_state \<Rightarrow> (nat \<times> uint \<times> nat) option res" where
  "rw_args s =
     bnd (argfd 0 s) (\<lambda>r.
     case r of
       None \<Rightarrow> Ret None
     | Some (_, f) \<Rightarrow>
         bnd (argint 2 s) (\<lambda>r.
         case r of
           None \<Rightarrow> Ret None
         | Some n \<Rightarrow>
             bnd (argptr 1 (sint32 n) s) (\<lambda>r. Ret (map_option (\<lambda>p. (f, p, nat (sint32 n))) r))))"

definition sys_read :: "'a proc_state \<Rightarrow> (int \<times> 'a proc_state) res" where
  "sys_read s =
     bnd (rw_args s) (\<lambda>r.
     case r of
       None \<Rightarrow> Ret (- 1, s)
     | Some (f, p, n) \<Rightarrow>
         bnd (fileread f n s) (\<lambda>((r, bs), s).
         bnd (curproc s) (\<lambda>cp.
         bnd (ustore_n bs (p_pgdir (ptable s ! cp)) p s) (\<lambda>s. Ret (r, s)))))"

definition sys_write :: "'a proc_state \<Rightarrow> (int \<times> 'a proc_state) res" where
  "sys_write s =
     bnd (rw_args s) (\<lambda>r.
     case r of
       None \<Rightarrow> Ret (- 1, s)
     | Some (f, p, n) \<Rightarrow>
         bnd (curproc s) (\<lambda>cp.
         bnd (uload_n n (p_pgdir (ptable s ! cp)) p s) (\<lambda>bs. filewrite f bs s)))"

definition sys_close :: "'a proc_state \<Rightarrow> (int \<times> 'a proc_state) res" where
  "sys_close s =
     bnd (argfd 0 s) (\<lambda>r.
     case r of
       None \<Rightarrow> Ret (- 1, s)
     | Some (fd, f) \<Rightarrow>
         bnd (curproc s) (\<lambda>p.
         bnd (fileclose f (upd_proc p (\<lambda>x. x\<lparr>p_ofile := (p_ofile x)[fd := None]\<rparr>) s)) (\<lambda>s. Ret (0, s))))"

text \<open>\<open>struct stat\<close> as it is laid out in memory; \<open>type\<close> and \<open>nlink\<close> are followed by two bytes of
  padding, which \<open>stati\<close> does not write.\<close>

definition store_stat :: "uint \<Rightarrow> uint \<Rightarrow> fstat \<Rightarrow> 'a proc_state \<Rightarrow> 'a proc_state res" where
  "store_stat pgdir p st s =
     bnd (ustore_n (short_bytes (st_type st)) pgdir p s) (\<lambda>s.
     bnd (ustore_n (le_bytes 4 (st_dev st) @ le_bytes 4 (st_ino st) @ short_bytes (st_nlink st)) pgdir (p + 4) s) (\<lambda>s.
     ustore_n (le_bytes 4 (st_size st)) pgdir (p + 16) s))"

definition sys_fstat :: "'a proc_state \<Rightarrow> (int \<times> 'a proc_state) res" where
  "sys_fstat s =
     bnd (argfd 0 s) (\<lambda>r.
     case r of
       None \<Rightarrow> Ret (- 1, s)
     | Some (_, f) \<Rightarrow>
         bnd (argptr 1 20 s) (\<lambda>r.
         case r of
           None \<Rightarrow> Ret (- 1, s)
         | Some p \<Rightarrow>
             bnd (filestat f s) (\<lambda>(st, s).
             case st of
               None \<Rightarrow> Ret (- 1, s)
             | Some st \<Rightarrow>
                 bnd (curproc s) (\<lambda>cp.
                 bnd (store_stat (p_pgdir (ptable s ! cp)) p st s) (\<lambda>s. Ret (0, s))))))"

section \<open>Links\<close>

definition end_with :: "int \<Rightarrow> 'a proc_state \<Rightarrow> (int \<times> 'a proc_state) res" where
  "end_with r s = bnd (end_op s) (\<lambda>s. Ret (r, s))"

definition add_nlink :: "int \<Rightarrow> nat \<Rightarrow> 'a proc_state \<Rightarrow> 'a proc_state res" where
  "add_nlink d ip s = iupdate ip (upd_inode ip (\<lambda>x. x\<lparr>i_nlink := sint (word_of_int (i_nlink x + d) :: ushort)\<rparr>) s)"

text \<open>The label \<open>bad\<close> of \<open>sys_link\<close>.\<close>

definition link_bad :: "nat \<Rightarrow> 'a proc_state \<Rightarrow> (int \<times> 'a proc_state) res" where
  "link_bad ip s =
     bnd (ilock ip s) (\<lambda>s.
     bnd (add_nlink (- 1) ip s) (\<lambda>s.
     bnd (iunlockput ip s) (end_with (- 1))))"

definition sys_link :: "'a proc_state \<Rightarrow> (int \<times> 'a proc_state) res" where
  "sys_link s =
     bnd (argstr 0 s) (\<lambda>old.
     case old of None \<Rightarrow> Ret (- 1, s) | Some old \<Rightarrow>
     bnd (argstr 1 s) (\<lambda>new.
     case new of None \<Rightarrow> Ret (- 1, s) | Some new \<Rightarrow>
     bnd (begin_op s) (\<lambda>s.
     bnd (namei old s) (\<lambda>(r, s).
     case r of None \<Rightarrow> end_with (- 1) s
     | Some ip \<Rightarrow>
       bnd (ilock ip s) (\<lambda>s.
       if i_type (icache s ! ip) = T_DIR then bnd (iunlockput ip s) (end_with (- 1))
       else bnd (add_nlink 1 ip s) (\<lambda>s.
         bnd (iunlock ip s) (\<lambda>s.
         bnd (nameiparent new (replicate DIRSIZ 0) s) (\<lambda>(r, s).
         case r of None \<Rightarrow> link_bad ip s
         | Some (dp, name) \<Rightarrow>
           bnd (ilock dp s) (\<lambda>s.
           bnd (if i_dev (icache s ! dp) \<noteq> i_dev (icache s ! ip) then Ret (- 1, s)
                else dirlink dp name (i_inum (icache s ! ip)) s) (\<lambda>(r, s).
           if r < 0 then bnd (iunlockput dp s) (link_bad ip)
           else bnd (iunlockput dp s) (\<lambda>s. bnd (iput ip s) (end_with 0))))))))))))"

text \<open>The loop of \<open>isdirempty\<close> from offset \<open>off\<close> with \<open>k\<close> entries left.\<close>

primrec isdirempty_loop :: "nat \<Rightarrow> nat \<Rightarrow> nat \<Rightarrow> 'a proc_state \<Rightarrow> (bool \<times> 'a proc_state) res" where
  "isdirempty_loop 0 off dp s = Ret (True, s)"
| "isdirempty_loop (Suc k) off dp s =
     bnd (readi no_dev_read dp off 16 s) (\<lambda>((r, bs), s).
     if r \<noteq> 16 then Panic ''isdirempty: readi''
     else if de_inum (dirent_of bs) \<noteq> 0 then Ret (False, s)
     else isdirempty_loop k (off + 16) dp s)"

definition isdirempty :: "nat \<Rightarrow> 'a proc_state \<Rightarrow> (bool \<times> 'a proc_state) res" where
  "isdirempty dp s = isdirempty_loop ((i_size (icache s ! dp) - 32 + 15) div 16) 32 dp s"

text \<open>\<open>namecmp(name, ".")\<close>; the second string is shorter than \<open>DIRSIZ\<close> but ends with a NUL.\<close>

definition is_dots :: "uchar list \<Rightarrow> bool res" where
  "is_dots name =
     bnd (namecmp name (46 # replicate 13 0)) (\<lambda>a.
     if a = 0 then Ret True else bnd (namecmp name (46 # 46 # replicate 12 0)) (\<lambda>b. Ret (b = 0)))"

definition unlink_bad :: "nat \<Rightarrow> 'a proc_state \<Rightarrow> (int \<times> 'a proc_state) res" where
  "unlink_bad dp s = bnd (iunlockput dp s) (end_with (- 1))"

definition sys_unlink :: "'a proc_state \<Rightarrow> (int \<times> 'a proc_state) res" where
  "sys_unlink s =
     bnd (argstr 0 s) (\<lambda>path.
     case path of None \<Rightarrow> Ret (- 1, s) | Some path \<Rightarrow>
     bnd (begin_op s) (\<lambda>s.
     bnd (nameiparent path (replicate DIRSIZ 0) s) (\<lambda>(r, s).
     case r of None \<Rightarrow> end_with (- 1) s
     | Some (dp, name) \<Rightarrow>
       bnd (ilock dp s) (\<lambda>s.
       bnd (is_dots name) (\<lambda>dots.
       if dots then unlink_bad dp s
       else bnd (dirlookup dp name s) (\<lambda>(r, s).
         case r of None \<Rightarrow> unlink_bad dp s
         | Some (ip, off) \<Rightarrow>
           bnd (ilock ip s) (\<lambda>s.
           if i_nlink (icache s ! ip) < 1 then Panic ''unlink: nlink < 1''
           else bnd (if i_type (icache s ! ip) = T_DIR then isdirempty ip s else Ret (True, s)) (\<lambda>(ok, s).
             if \<not> ok then bnd (iunlockput ip s) (unlink_bad dp)
             else bnd (writei no_dev_write dp (replicate 16 0) off s) (\<lambda>(r, s).
               if r \<noteq> 16 then Panic ''unlink: writei''
               else bnd (if i_type (icache s ! ip) = T_DIR then add_nlink (- 1) dp s else Ret s) (\<lambda>s.
                 bnd (iunlockput dp s) (\<lambda>s.
                 bnd (add_nlink (- 1) ip s) (\<lambda>s.
                 bnd (iunlockput ip s) (end_with 0)))))))))))))"

section \<open>Creating and opening\<close>

definition create ::
    "uchar list \<Rightarrow> int \<Rightarrow> int \<Rightarrow> int \<Rightarrow> 'a proc_state \<Rightarrow> (nat option \<times> 'a proc_state) res" where
  "create path type major minor s =
     bnd (nameiparent path (replicate DIRSIZ 0) s) (\<lambda>(r, s).
     case r of None \<Rightarrow> Ret (None, s)
     | Some (dp, name) \<Rightarrow>
       bnd (ilock dp s) (\<lambda>s.
       bnd (dirlookup dp name s) (\<lambda>(r, s).
       case r of
         Some (ip, _) \<Rightarrow>
           bnd (iunlockput dp s) (\<lambda>s.
           bnd (ilock ip s) (\<lambda>s.
           if type = T_FILE \<and> i_type (icache s ! ip) = T_FILE then Ret (Some ip, s)
           else bnd (iunlockput ip s) (\<lambda>s. Ret (None, s))))
       | None \<Rightarrow>
           bnd (ialloc (i_dev (icache s ! dp)) type s) (\<lambda>(ip, s).
           bnd (ilock ip s) (\<lambda>s.
           bnd (iupdate ip (upd_inode ip (\<lambda>x. x\<lparr>i_major := major, i_minor := minor, i_nlink := 1\<rparr>) s)) (\<lambda>s.
           bnd (if type = T_DIR
                then bnd (add_nlink 1 dp s) (\<lambda>s.
                     bnd (dirlink ip (46 # replicate 13 0) (i_inum (icache s ! ip)) s) (\<lambda>(r, s).
                     if r < 0 then Panic ''create dots''
                     else bnd (dirlink ip (46 # 46 # replicate 12 0) (i_inum (icache s ! dp)) s) (\<lambda>(r, s).
                       if r < 0 then Panic ''create dots'' else Ret s)))
                else Ret s) (\<lambda>s.
           bnd (dirlink dp name (i_inum (icache s ! ip)) s) (\<lambda>(r, s).
           if r < 0 then Panic ''create: dirlink''
           else bnd (iunlockput dp s) (\<lambda>s. Ret (Some ip, s))))))))))"

definition O_WRONLY :: uint where "O_WRONLY = 0x001"
definition O_RDWR :: uint where "O_RDWR = 0x002"
definition O_CREATE :: uint where "O_CREATE = 0x200"

definition sys_open :: "'a proc_state \<Rightarrow> (int \<times> 'a proc_state) res" where
  "sys_open s =
     bnd (argstr 0 s) (\<lambda>path.
     case path of None \<Rightarrow> Ret (- 1, s) | Some path \<Rightarrow>
     bnd (argint 1 s) (\<lambda>omode.
     case omode of None \<Rightarrow> Ret (- 1, s) | Some omode \<Rightarrow>
     bnd (begin_op s) (\<lambda>s.
     bnd (if omode AND O_CREATE \<noteq> 0 then create path T_FILE 0 0 s
          else bnd (namei path s) (\<lambda>(r, s).
            case r of None \<Rightarrow> Ret (None, s)
            | Some ip \<Rightarrow>
              bnd (ilock ip s) (\<lambda>s.
              if i_type (icache s ! ip) = T_DIR \<and> omode \<noteq> 0
              then bnd (iunlockput ip s) (\<lambda>s. Ret (None, s))
              else Ret (Some ip, s)))) (\<lambda>(r, s).
     case r of None \<Rightarrow> end_with (- 1) s
     | Some ip \<Rightarrow>
       (case filealloc s of
          (None, s) \<Rightarrow> bnd (iunlockput ip s) (end_with (- 1))
        | (Some f, s) \<Rightarrow>
            bnd (fdalloc f s) (\<lambda>(fd, s).
            if fd < 0 then bnd (fileclose f s) (\<lambda>s. bnd (iunlockput ip s) (end_with (- 1)))
            else bnd (iunlock ip s) (\<lambda>s.
              bnd (end_op s) (\<lambda>s.
              Ret (fd, upd_file f (\<lambda>x. x\<lparr>f_type := FD_INODE, f_ip := ip, f_off := 0,
                     f_readable := (omode AND O_WRONLY = 0),
                     f_writable := (omode AND O_WRONLY \<noteq> 0 \<or> omode AND O_RDWR \<noteq> 0)\<rparr>) s)))))))))"

text \<open>\<open>create\<close> for \<open>sys_mkdir\<close> and \<open>sys_mknod\<close>.\<close>

definition make_node :: "uchar list option \<Rightarrow> int \<Rightarrow> int \<Rightarrow> int \<Rightarrow> 'a proc_state \<Rightarrow> (int \<times> 'a proc_state) res" where
  "make_node path type major minor s =
     (case path of None \<Rightarrow> end_with (- 1) s
      | Some path \<Rightarrow>
        bnd (create path type major minor s) (\<lambda>(r, s).
        case r of None \<Rightarrow> end_with (- 1) s
        | Some ip \<Rightarrow> bnd (iunlockput ip s) (end_with 0)))"

definition sys_mkdir :: "'a proc_state \<Rightarrow> (int \<times> 'a proc_state) res" where
  "sys_mkdir s =
     bnd (begin_op s) (\<lambda>s. bnd (argstr 0 s) (\<lambda>path. make_node path T_DIR 0 0 s))"

text \<open>An \<open>int\<close> argument passed as a \<open>short\<close>.\<close>

definition short_of :: "uint \<Rightarrow> int" where
  "short_of w = sint (ucast w :: ushort)"

definition sys_mknod :: "'a proc_state \<Rightarrow> (int \<times> 'a proc_state) res" where
  "sys_mknod s =
     bnd (begin_op s) (\<lambda>s.
     bnd (argstr 0 s) (\<lambda>path.
     case path of None \<Rightarrow> end_with (- 1) s | Some path \<Rightarrow>
     bnd (argint 1 s) (\<lambda>major.
     case major of None \<Rightarrow> end_with (- 1) s | Some major \<Rightarrow>
     bnd (argint 2 s) (\<lambda>minor.
     case minor of None \<Rightarrow> end_with (- 1) s | Some minor \<Rightarrow>
     make_node (Some path) T_DEV (short_of major) (short_of minor) s))))"

definition sys_chdir :: "'a proc_state \<Rightarrow> (int \<times> 'a proc_state) res" where
  "sys_chdir s =
     bnd (curproc s) (\<lambda>cp.
     bnd (begin_op s) (\<lambda>s.
     bnd (argstr 0 s) (\<lambda>path.
     case path of None \<Rightarrow> end_with (- 1) s | Some path \<Rightarrow>
     bnd (namei path s) (\<lambda>(r, s).
     case r of None \<Rightarrow> end_with (- 1) s
     | Some ip \<Rightarrow>
       bnd (ilock ip s) (\<lambda>s.
       if i_type (icache s ! ip) \<noteq> T_DIR then bnd (iunlockput ip s) (end_with (- 1))
       else bnd (iunlock ip s) (\<lambda>s.
         case p_cwd (ptable s ! cp) of None \<Rightarrow> Undef
         | Some cwd \<Rightarrow>
           bnd (iput cwd s) (\<lambda>s.
           bnd (end_op s) (\<lambda>s.
           Ret (0, upd_proc cp (\<lambda>x. x\<lparr>p_cwd := Some ip\<rparr>) s)))))))))"

section \<open>Exec and pipe\<close>

text \<open>The loop of \<open>sys_exec\<close> with \<open>k\<close> entries of \<open>argv\<close> left.\<close>

primrec fetch_argv :: "nat \<Rightarrow> uint \<Rightarrow> 'a proc_state \<Rightarrow> uchar list list option res" where
  "fetch_argv 0 uargv s = Ret None"
| "fetch_argv (Suc k) uargv s =
     bnd (fetchint uargv s) (\<lambda>r.
     case r of None \<Rightarrow> Ret None
     | Some uarg \<Rightarrow>
        if uarg = 0 then Ret (Some [])
        else bnd (fetchstr uarg s) (\<lambda>r.
          case r of None \<Rightarrow> Ret None
          | Some arg \<Rightarrow> bnd (fetch_argv k (uargv + 4) s) (\<lambda>r. Ret (map_option (Cons arg) r))))"

definition sys_exec :: "'a proc_state \<Rightarrow> (int \<times> 'a proc_state) res" where
  "sys_exec s =
     bnd (argstr 0 s) (\<lambda>path.
     case path of None \<Rightarrow> Ret (- 1, s) | Some path \<Rightarrow>
     bnd (argint 1 s) (\<lambda>uargv.
     case uargv of None \<Rightarrow> Ret (- 1, s) | Some uargv \<Rightarrow>
     bnd (fetch_argv MAXARG uargv s) (\<lambda>argv.
     case argv of None \<Rightarrow> Ret (- 1, s) | Some argv \<Rightarrow> exec path argv s)))"

definition sys_pipe :: "'a proc_state \<Rightarrow> (int \<times> 'a proc_state) res" where
  "sys_pipe s =
     bnd (argptr 0 8 s) (\<lambda>fd.
     case fd of None \<Rightarrow> Ret (- 1, s) | Some fd \<Rightarrow>
     bnd (pipealloc s) (\<lambda>(r, s).
     case r of None \<Rightarrow> Ret (- 1, s)
     | Some (rfile, wfile) \<Rightarrow>
       bnd (curproc s) (\<lambda>cp.
       bnd (fdalloc rfile s) (\<lambda>(fd0, s).
       bnd (if fd0 < 0 then Ret (- 1, s) else fdalloc wfile s) (\<lambda>(fd1, s).
       if fd0 < 0 \<or> fd1 < 0
       then (let s = (if fd0 \<ge> 0 then upd_proc cp (\<lambda>x. x\<lparr>p_ofile := (p_ofile x)[nat fd0 := None]\<rparr>) s else s)
             in bnd (fileclose rfile s) (\<lambda>s. bnd (fileclose wfile s) (\<lambda>s. Ret (- 1, s))))
       else bnd (ustore_n (le_bytes 4 (nat fd0) @ le_bytes 4 (nat fd1)) (p_pgdir (ptable s ! cp)) fd s)
              (\<lambda>s. Ret (0, s)))))))"

end
