(* ===== verification/Syscall.thy ===== *)
theory Syscall
  imports Sysfile
begin

text \<open>
  The system calls on processes (\<open>sysproc.c\<close>), the dispatch table and \<open>syscall\<close> (\<open>syscall.c\<close>), and
  \<open>trap\<close> (\<open>trap.c\<close>). A call that never returns to its caller, because the process exits, has the
  outcome \<open>Gone\<close>.
\<close>

section \<open>System calls on processes\<close>

datatype 's outcome = Back int 's | Gone 's

definition backv :: "(int \<times> 's) res \<Rightarrow> 's outcome res" where
  "backv r = bnd r (\<lambda>(v, s). Ret (Back v s))"

definition sys_fork :: "uint \<Rightarrow> 'a proc_state \<Rightarrow> (int \<times> 'a proc_state) res" where
  "sys_fork forkret s = fork forkret s"

definition sys_exit :: "'a proc_state \<Rightarrow> 'a proc_state outcome res" where
  "sys_exit s = bnd (exit_proc s) (\<lambda>s. Ret (Gone s))"

definition sys_wait :: "'a proc_state \<Rightarrow> (int \<times> 'a proc_state) res" where
  "sys_wait s = wait s"

definition sys_kill :: "'a proc_state \<Rightarrow> (int \<times> 'a proc_state) res" where
  "sys_kill s =
     bnd (argint 0 s) (\<lambda>r. case r of None \<Rightarrow> Ret (- 1, s) | Some pid \<Rightarrow> Ret (kill (sint32 pid) s))"

definition sys_getpid :: "'a proc_state \<Rightarrow> (int \<times> 'a proc_state) res" where
  "sys_getpid s = bnd (mypid s) (\<lambda>pid. Ret (pid, s))"

definition sys_sbrk :: "'a proc_state \<Rightarrow> (int \<times> 'a proc_state) res" where
  "sys_sbrk s =
     bnd (argint 0 s) (\<lambda>r.
     case r of
       None \<Rightarrow> Ret (- 1, s)
     | Some n \<Rightarrow>
         bnd (curproc s) (\<lambda>p.
         let addr = sint32 (p_sz (ptable s ! p))
         in bnd (growproc (sint32 n) s) (\<lambda>(r, s). Ret (if r < 0 then - 1 else addr, s))))"

text \<open>One test of the loop of \<open>sys_sleep\<close> that started at \<open>ticks0\<close>. The comparison is unsigned.\<close>

definition sys_sleep_test :: "uint \<Rightarrow> uint \<Rightarrow> 'a proc_state \<Rightarrow> (int \<times> 'a proc_state) res" where
  "sys_sleep_test ticks0 n s =
     (if ticks s - ticks0 < n
      then bnd (mykilled s) (\<lambda>k. if k then Ret (- 1, s) else Sleep ChanTicks)
      else Ret (0, s))"

definition sys_sleep :: "'a proc_state \<Rightarrow> (int \<times> 'a proc_state) res" where
  "sys_sleep s =
     bnd (argint 0 s) (\<lambda>r. case r of None \<Rightarrow> Ret (- 1, s) | Some n \<Rightarrow> sys_sleep_test (ticks s) n s)"

definition sys_uptime :: "'a proc_state \<Rightarrow> (int \<times> 'a proc_state) res" where
  "sys_uptime s = Ret (sint32 (ticks s), s)"

text \<open>An entry of the table \<open>pstatTable\<close> in memory: \<open>sizeof(pstat_t)\<close> is 36, the last three bytes are
  padding and are not written.\<close>

definition pstat_bytes :: "pstat \<Rightarrow> uchar list" where
  "pstat_bytes e = le_bytes 4 (nat (ps_inuse e)) @ le_bytes 4 (nat (ps_tickets e mod 2 ^ 32)) @
     le_bytes 4 (nat (ps_pid e mod 2 ^ 32)) @ le_bytes 4 (nat (ps_ticks e mod 2 ^ 32)) @ ps_name e @
     [of_char (ps_state e)]"

primrec store_pstats :: "pstat list \<Rightarrow> uint \<Rightarrow> uint \<Rightarrow> 'a proc_state \<Rightarrow> 'a proc_state res" where
  "store_pstats [] pgdir p s = Ret s"
| "store_pstats (e # es) pgdir p s = bnd (ustore_n (pstat_bytes e) pgdir p s) (store_pstats es pgdir (p + 36))"

definition sys_getpinfo :: "'a proc_state \<Rightarrow> (int \<times> 'a proc_state) res" where
  "sys_getpinfo s =
     bnd (argptr 0 (int (36 * NPROC)) s) (\<lambda>r.
     case r of
       None \<Rightarrow> Ret (- 1, s)
     | Some p \<Rightarrow>
         bnd (curproc s) (\<lambda>cp.
         bnd (store_pstats (fillpstat s) (p_pgdir (ptable s ! cp)) p s) (\<lambda>s. Ret (0, s))))"

definition sys_settickets :: "'a proc_state \<Rightarrow> (int \<times> 'a proc_state) res" where
  "sys_settickets s =
     bnd (argint 0 s) (\<lambda>r. case r of None \<Rightarrow> Ret (- 1, s) | Some n \<Rightarrow> Ret (settickets (sint32 n) s))"

section \<open>Dispatch\<close>

text \<open>The table \<open>syscalls\<close> by number (\<open>syscall.h\<close>).\<close>

definition syscalls :: "uint \<Rightarrow> int \<Rightarrow> ('a proc_state \<Rightarrow> 'a proc_state outcome res) option" where
  "syscalls forkret num = map_of
     [(1, backv \<circ> sys_fork forkret), (2, sys_exit), (3, backv \<circ> sys_wait), (4, backv \<circ> sys_pipe),
      (5, backv \<circ> sys_read), (6, backv \<circ> sys_kill), (7, backv \<circ> sys_exec), (8, backv \<circ> sys_fstat),
      (9, backv \<circ> sys_chdir), (10, backv \<circ> sys_dup), (11, backv \<circ> sys_getpid), (12, backv \<circ> sys_sbrk),
      (13, backv \<circ> sys_sleep), (14, backv \<circ> sys_uptime), (15, backv \<circ> sys_open), (16, backv \<circ> sys_write),
      (17, backv \<circ> sys_mknod), (18, backv \<circ> sys_unlink), (19, backv \<circ> sys_link), (20, backv \<circ> sys_mkdir),
      (21, backv \<circ> sys_close), (22, backv \<circ> sys_getpinfo), (23, backv \<circ> sys_settickets)] num"

definition set_eax :: "nat \<Rightarrow> uint \<Rightarrow> 'a proc_state \<Rightarrow> 'a proc_state" where
  "set_eax p v s = upd_proc p (\<lambda>x. x\<lparr>p_tf := (p_tf x)\<lparr>tf_eax := v\<rparr>\<rparr>) s"

text \<open>The process name as the string \<open>%s\<close> prints.\<close>

definition name_string :: "uchar list \<Rightarrow> string" where
  "name_string nm = map (\<lambda>c. char_of (unat c)) (cstr nm)"

definition syscall :: "uint \<Rightarrow> 'a proc_state \<Rightarrow> 'a proc_state outcome res" where
  "syscall forkret s =
     bnd (curproc s) (\<lambda>p.
     let x = ptable s ! p; num = sint32 (tf_eax (p_tf x))
     in case syscalls forkret num of
          Some f \<Rightarrow>
            bnd (f s) (\<lambda>r.
            case r of Back v s \<Rightarrow> Ret (Back v (set_eax p (word_of_int v) s)) | Gone s \<Rightarrow> Ret (Gone s))
        | None \<Rightarrow>
            bnd (cprintf (''%d %s: unknown sys call %d'' @ [CHR 0x0A])
              [AInt (p_pid x), AStr (Some (name_string (p_name x))), AInt num] s) (\<lambda>s.
            Ret (Back (- 1) (set_eax p (- 1) s))))"

section \<open>Traps\<close>

definition T_SYSCALL :: uint where "T_SYSCALL = 64"
definition T_IRQ0 :: uint where "T_IRQ0 = 32"
definition IRQ_TIMER :: uint where "IRQ_TIMER = 0"
definition IRQ_KBD :: uint where "IRQ_KBD = 1"
definition IRQ_COM1 :: uint where "IRQ_COM1 = 4"
definition IRQ_IDE :: uint where "IRQ_IDE = 14"
definition IRQ_SPURIOUS :: uint where "IRQ_SPURIOUS = 31"

text \<open>What the devices have for the handlers: the characters the keyboard and the serial line
  deliver, and the register \<open>%cr2\<close>.\<close>

record devices =
  dv_kbd :: "int list"
  dv_uart :: "int list"
  dv_cr2 :: uint

text \<open>How a trap ends: back to the interrupted code, the process has exited, or it has given up the
  CPU in \<open>yield\<close> and will go on with the last check.\<close>

datatype 's trap_end = Resume 's | Exited 's | Yielded 's

definition exit_trap :: "'a proc_state \<Rightarrow> 'a proc_state trap_end res" where
  "exit_trap s = bnd (exit_proc s) (\<lambda>s. Ret (Exited s))"

text \<open>\<open>myproc() && myproc()->killed && (tf->cs&3) == DPL_USER\<close>\<close>

definition must_exit :: "trapframe \<Rightarrow> 'a proc_state \<Rightarrow> bool" where
  "must_exit tf s \<longleftrightarrow> (case cur s of None \<Rightarrow> False
     | Some p \<Rightarrow> p_killed (ptable s ! p) \<and> tf_cs tf AND 3 = word_of_nat DPL_USER)"

text \<open>A fault in the kernel: the message and the panic.\<close>

definition unexpected_trap :: "devices \<Rightarrow> nat \<Rightarrow> trapframe \<Rightarrow> 'a proc_state \<Rightarrow> 'a proc_state res" where
  "unexpected_trap dv cpuid tf s =
     bnd (cprintf (''unexpected trap %d from cpu %d eip %x (cr2=0x%x)'' @ [CHR 0x0A])
         [AInt (sint32 (tf_trapno tf)), AInt (int cpuid), AInt (uint (tf_eip tf)), AInt (uint (dv_cr2 dv))] s) (\<lambda>s.
       Panic ''trap'')"

text \<open>The device interrupts and faults, given the index \<open>cpuid()\<close> of the CPU.\<close>

definition trap_switch ::
    "devices \<Rightarrow> nat \<Rightarrow> trapframe \<Rightarrow> 'a proc_state \<Rightarrow> 'a proc_state res" where
  "trap_switch dv cpuid tf s =
     (let no = tf_trapno tf
      in if no = T_IRQ0 + IRQ_TIMER
         then Ret (if cpuid = 0 then wakeup ChanTicks (s\<lparr>ticks := ticks s + 1\<rparr>) else s)
         else if no = T_IRQ0 + IRQ_IDE \<or> no = T_IRQ0 + IRQ_IDE + 1 then Ret s
         else if no = T_IRQ0 + IRQ_KBD then bnd (consoleintr (dv_kbd dv) s) (\<lambda>(_, s). Ret s)
         else if no = T_IRQ0 + IRQ_COM1 then bnd (consoleintr (dv_uart dv) s) (\<lambda>(_, s). Ret s)
         else if no = T_IRQ0 + 7 \<or> no = T_IRQ0 + IRQ_SPURIOUS
         then cprintf (''cpu%d: spurious interrupt at %x:%x'' @ [CHR 0x0A])
                [AInt (int cpuid), AInt (uint (tf_cs tf)), AInt (uint (tf_eip tf))] s
         else (case cur s of
             Some p \<Rightarrow>
               if tf_cs tf AND 3 = 0 then unexpected_trap dv cpuid tf s
               else bnd (cprintf (''pid %d %s: trap %d err %d on cpu %d eip 0x%x addr 0x%x--kill proc'' @ [CHR 0x0A])
                   [AInt (p_pid (ptable s ! p)), AStr (Some (name_string (p_name (ptable s ! p)))),
                    AInt (sint32 no), AInt (sint32 (tf_err tf)), AInt (int cpuid), AInt (uint (tf_eip tf)),
                    AInt (uint (dv_cr2 dv))] s) (\<lambda>s.
                 Ret (upd_proc p (\<lambda>x. x\<lparr>p_killed := True\<rparr>) s))
           | None \<Rightarrow> unexpected_trap dv cpuid tf s))"

definition trap ::
    "uint \<Rightarrow> devices \<Rightarrow> nat \<Rightarrow> trapframe \<Rightarrow> 'a proc_state \<Rightarrow> 'a proc_state trap_end res" where
  "trap forkret dv cpuid tf s =
     (if tf_trapno tf = T_SYSCALL
      then bnd (curproc s) (\<lambda>p.
        if p_killed (ptable s ! p) then exit_trap s
        else bnd (syscall forkret (upd_proc p (\<lambda>x. x\<lparr>p_tf := tf\<rparr>) s)) (\<lambda>r.
          case r of
            Gone s \<Rightarrow> Ret (Exited s)
          | Back _ s \<Rightarrow> bnd (mykilled s) (\<lambda>k. if k then exit_trap s else Ret (Resume s))))
      else bnd (trap_switch dv cpuid tf s) (\<lambda>s.
        if must_exit tf s then exit_trap s
        else (case cur s of
            Some p \<Rightarrow>
              if p_state (ptable s ! p) = RUNNING \<and> tf_trapno tf = T_IRQ0 + IRQ_TIMER
              then Ret (Yielded (yield_enter p s))
              else Ret (Resume s)
          | None \<Rightarrow> Ret (Resume s))))"

text \<open>The check after \<open>yield\<close> returns.\<close>

definition trap_after_yield :: "trapframe \<Rightarrow> 'a proc_state \<Rightarrow> 'a proc_state trap_end res" where
  "trap_after_yield tf s = (if must_exit tf s then exit_trap s else Ret (Resume s))"

end
