(* ===== verification/Logging.thy ===== *)
theory Logging
  imports Bcache Log
begin

text \<open>
  The write-ahead log makes a group of system calls atomic with respect to crashes. The disk writes
  of \<open>commit\<close> are listed (\<open>commit_effect\<close>); recovery is described by \<open>recovery_spec\<close>, and
  \<open>crash_recovers\<close> says what it restores after a crash at any point of \<open>commit\<close>.
\<close>

declare One_nat_def [simp del]

section \<open>The header block\<close>

lemma length_put32 [simp]: "off + 4 \<le> length d \<Longrightarrow> length (put32 off v d) = length d"
  by (simp add: put32_def)

lemma get32_put32_same: "off + 4 \<le> length d \<Longrightarrow> get32 off (put32 off v d) = v mod 2 ^ 32"
  using slice_splice_same [of off "le_bytes 4 v" d] by (simp add: get32_def put32_def le_nat_le_bytes)

lemma slice_put32_other:
  assumes "off + 4 \<le> length d" and "o' + 4 \<le> length d" and "o' + 4 \<le> off \<or> off + 4 \<le> o'"
  shows "slice_at o' 4 (put32 off v d) = slice_at o' 4 d"
  using assms by (simp add: put32_def slice_splice_disjoint)

lemma put_head_fold:
  assumes "4 + 4 * n \<le> length d"
  shows "length (fold (\<lambda>i. put32 (4 + 4 * i) (bs ! i)) [0..<n] d) = length d"
    and "slice_at 0 4 (fold (\<lambda>i. put32 (4 + 4 * i) (bs ! i)) [0..<n] d) = slice_at 0 4 d"
    and "i < n \<Longrightarrow> get32 (4 + 4 * i) (fold (\<lambda>i. put32 (4 + 4 * i) (bs ! i)) [0..<n] d) = bs ! i mod 2 ^ 32"
  using assms
proof (induction n)
  case (Suc n)
  {
    case 1
    with Suc show ?case by simp
  next
    case 2
    with Suc show ?case by (simp add: slice_put32_other)
  next
    case 3
    show ?case
    proof (cases "i = n")
      case True
      with 3 Suc.IH(1) show ?thesis by (simp add: get32_put32_same)
    next
      case False
      with 3 Suc.IH show ?thesis by (simp add: get32_def slice_put32_other)
    qed
  }
qed simp_all

lemma put_head_length:
  assumes "4 + 4 * nat n \<le> length d"
  shows "length (put_head n bs d) = length d"
  using assms put_head_fold(1) [of "nat n" "put32 0 (nat (n mod 2 ^ 32)) d" bs] by (simp add: put_head_def)

lemma put_head_count:
  assumes "4 + 4 * nat n \<le> length d" and "0 \<le> n" and "n < 2 ^ 31"
  shows "le_int (slice_at 0 4 (put_head n bs d)) = n"
proof -
  have "slice_at 0 4 (put_head n bs d) = slice_at 0 4 (put32 0 (nat (n mod 2 ^ 32)) d)"
    using put_head_fold(2) [of "nat n" "put32 0 (nat (n mod 2 ^ 32)) d" bs] assms by (simp add: put_head_def)
  also have "\<dots> = le_bytes 4 (nat (n mod 2 ^ 32))"
    using slice_splice_same [of 0 "le_bytes 4 (nat (n mod 2 ^ 32))" d] assms by (simp add: put32_def)
  also have "le_int \<dots> = n"
    using assms by (simp add: le_int_def Let_def)
  finally show ?thesis .
qed

lemma put_head_entry:
  assumes "4 + 4 * nat n \<le> length d" and "i < nat n" and "bs ! i < 2 ^ 32"
  shows "get32 (4 + 4 * i) (put_head n bs d) = bs ! i"
  using put_head_fold(3) [of "nat n" "put32 0 (nat (n mod 2 ^ 32)) d" i bs] assms by (simp add: put_head_def)

section \<open>Copying blocks\<close>

text \<open>The log's own fields are in the frame of the cache operations.\<close>

lemma bframe_log:
  fixes s s' :: "'a log_state_scheme"
  assumes "bframe s s'"
  shows "log_start s' = log_start s" and "log_size s' = log_size s" and "log_dev s' = log_dev s"
    and "lh_n s' = lh_n s" and "lh_block s' = lh_block s" and "log_outstanding s' = log_outstanding s"
    and "log_committing s' = log_committing s"
proof -
  have "log_start (bcore t) = log_start t \<and> log_size (bcore t) = log_size t \<and> log_dev (bcore t) = log_dev t \<and>
      lh_n (bcore t) = lh_n t \<and> lh_block (bcore t) = lh_block t \<and> log_outstanding (bcore t) = log_outstanding t \<and>
      log_committing (bcore t) = log_committing t" for t :: "'a log_state_scheme"
    by (simp add: bcore_def)
  with assms show "log_start s' = log_start s" "log_size s' = log_size s" "log_dev s' = log_dev s"
    "lh_n s' = lh_n s" "lh_block s' = lh_block s" "log_outstanding s' = log_outstanding s"
    "log_committing s' = log_committing s"
    unfolding bframe_def by metis+
qed

lemma bframe_lh_n: "bframe s t \<Longrightarrow> bframe (s\<lparr>lh_n := k\<rparr>) (t\<lparr>lh_n := k\<rparr>)" for s t :: "'a log_state_scheme"
proof -
  have "bcore (u\<lparr>lh_n := k\<rparr>) = (bcore u)\<lparr>lh_n := k\<rparr>" for u :: "'a log_state_scheme" by (simp add: bcore_def)
  then show "bframe s t \<Longrightarrow> bframe (s\<lparr>lh_n := k\<rparr>) (t\<lparr>lh_n := k\<rparr>)" by (simp add: bframe_def)
qed

text \<open>Reading two blocks, writing one of the two buffers with the contents of the other, and releasing
  both: the common part of \<open>write_one\<close> and \<open>install_one\<close>.\<close>

lemma dirty_in_range:
  assumes "bio_inv s" and "b \<in> dirty s"
  shows "b < disksize s"
proof -
  from dirty_cached [OF assms(2)] obtain j where "caches s j b" by auto
  then show ?thesis using bio_invD(2) [OF assms(1), of j] by (auto simp: caches_def buf_ok_def)
qed

lemma bread2_spec:
  assumes r: "at_rest s" and b: "b < disksize s" and c: "c < disksize s" and ne: "b \<noteq> c"
    and room: "c \<in> dirty s \<or> card (dirty s) + 1 < NBUF"
  obtains i s1 j s2 where "bread 1 b s = Ret (i, s1)" and "bread 1 c s1 = Ret (j, s2)" and "bio_inv s2"
    and "holds s2 i b" and "holds s2 j c" and "i \<noteq> j" and "view s2 = view s" and "held s2 = {b, c}"
    and "dirty s2 = dirty s" and "disk s2 = disk s" and "dwrites s2 = dwrites s" and "bframe s s1" and "bframe s1 s2"
proof -
  have inv: "bio_inv s" and hd: "held s = {}" and cd: "card (dirty s) < NBUF" using r by (auto simp: at_rest_def)
  obtain i s1 where 1: "bread 1 b s = Ret (i, s1)" "bio_inv s1" "holds s1 i b" "view s1 = view s"
    "held s1 = insert b (held s)" "dirty s1 = dirty s" "disk s1 = disk s" "dwrites s1 = dwrites s" "bframe s s1"
    by (rule bread_spec [OF inv b]) (use hd cd in auto)
  have rm: "(\<exists>i. caches s1 i c) \<or> card (held s1 \<union> dirty s1) < NBUF"
    using room 1(5,6) hd dirty_cached [of c s1] card_insert_less [of "dirty s"] by auto
  have c1: "c < disksize s1" "c \<notin> held s1" using c ne hd 1(5) bframe_simps [OF 1(9)] by auto
  obtain j s2 where 2: "bread 1 c s1 = Ret (j, s2)" "bio_inv s2" "holds s2 j c" "view s2 = view s1"
    "held s2 = insert c (held s1)" "dirty s2 = dirty s1" "disk s2 = disk s1" "dwrites s2 = dwrites s1" "bframe s1 s2"
    "\<And>k d. holds s1 k d \<Longrightarrow> holds s2 k d \<and> k \<noteq> j"
    by (rule bread_spec [OF 1(2) c1 rm]) blast
  show ?thesis
    by (rule that [OF 1(1) 2(1,2)]) (use 1 2 2(10) [OF 1(3)] hd in auto)
qed

lemma copy_bwrite_spec:
  assumes inv: "bio_inv s" and h: "holds s to b" "holds s from c"
  obtains s' where "bwrite to (copy_buf to from s) = Ret s'" and "bio_inv s'" and "view s' = (view s)(b := view s c)"
    and "held s' = held s" and "dirty s' = dirty s - {b}" and "disk s' = (disk s)(b := view s c)"
    and "dwrites s' = dwrites s @ [(b, view s c)]" and "bframe s s'" and "\<And>k d. holds s' k d \<longleftrightarrow> holds s k d"
proof -
  note hd = holds_data [OF inv h(2)]
  have e: "copy_buf to from s = upd_buf to (\<lambda>x. x\<lparr>b_data := view s c\<rparr>) s" by (simp add: copy_buf_def hd)
  note 1 = setdata_spec [OF inv h(1) hd(4) e]
  have hh: "holds (copy_buf to from s) to b" using 1(8) h by simp
  obtain s' where 2: "bwrite to (copy_buf to from s) = Ret s'" "bio_inv s'" "view s' = view (copy_buf to from s)"
    "held s' = held (copy_buf to from s)" "dirty s' = dirty (copy_buf to from s) - {b}"
    "disk s' = (disk (copy_buf to from s))(b := view (copy_buf to from s) b)"
    "dwrites s' = dwrites (copy_buf to from s) @ [(b, view (copy_buf to from s) b)]"
    "bframe (copy_buf to from s) s'" "\<And>j d. holds s' j d \<longleftrightarrow> holds (copy_buf to from s) j d"
    by (rule bwrite_spec [OF 1(1) hh]) blast
  show ?thesis
    by (rule that [OF 2(1,2)]) (use 1 2 bframe_trans [OF 1(7) 2(8)] in auto)
qed

lemma brelse2_spec:
  assumes inv: "bio_inv s" and h: "holds s i b" "holds s j c" "i \<noteq> j"
    and cl: "b \<in> dirty s \<or> view s b = disk s b" "c \<in> dirty s \<or> view s c = disk s c"
  obtains s1 s2 where "brelse i s = Ret s1" and "brelse j s1 = Ret s2" and "bio_inv s2" and "view s2 = view s"
    and "held s2 = held s - {b, c}" and "dirty s2 = dirty s" and "disk s2 = disk s" and "dwrites s2 = dwrites s"
    and "bframe s s2"
proof -
  obtain s1 where 1: "brelse i s = Ret s1" "bio_inv s1" "view s1 = view s" "held s1 = held s - {b}"
    "dirty s1 = dirty s" "disk s1 = disk s" "dwrites s1 = dwrites s" "bframe s s1" "holds s1 j c"
    by (rule brelse_spec [OF inv h(1) cl(1)]) (use h in blast)
  obtain s2 where 2: "brelse j s1 = Ret s2" "bio_inv s2" "view s2 = view s1" "held s2 = held s1 - {c}"
    "dirty s2 = dirty s1" "disk s2 = disk s1" "dwrites s2 = dwrites s1" "bframe s1 s2"
    by (rule brelse_spec [OF 1(2,9)]) (use cl 1 in auto)
  show ?thesis
    by (rule that [OF 1(1) 2(1,2)]) (use 1 2 bframe_trans in auto)
qed

text \<open>\<open>write_one\<close> copies a modified block to its place in the log.\<close>

lemma write_one_spec:
  assumes r: "at_rest s" and dev: "log_dev s = 1" and t: "tail < length (lh_block s)"
    and b: "lh_block s ! tail \<in> dirty s" and L: "log_start s + tail + 1 < disksize s"
    and Ld: "log_start s + tail + 1 \<notin> dirty s"
  obtains s' where "write_one tail s = Ret s'" and "at_rest s'" and "bframe s s'" and "dirty s' = dirty s"
    and "view s' = (view s)(log_start s + tail + 1 := view s (lh_block s ! tail))"
    and "disk s' = (disk s)(log_start s + tail + 1 := view s (lh_block s ! tail))"
    and "dwrites s' = dwrites s @ [(log_start s + tail + 1, view s (lh_block s ! tail))]"
proof -
  let ?L = "log_start s + tail + 1" and ?b = "lh_block s ! tail"
  have inv: "bio_inv s" and cd: "card (dirty s) < NBUF" using r by (auto simp: at_rest_def)
  obtain i s1 j s2 where 2: "bread 1 ?L s = Ret (i, s1)" "bread 1 ?b s1 = Ret (j, s2)" "bio_inv s2"
    "holds s2 i ?L" "holds s2 j ?b" "i \<noteq> j" "view s2 = view s" "held s2 = {?L, ?b}" "dirty s2 = dirty s"
    "disk s2 = disk s" "dwrites s2 = dwrites s" "bframe s s1" "bframe s1 s2"
    by (rule bread2_spec [OF r L dirty_in_range [OF inv b]]) (use b Ld in auto)
  obtain s4 where 4: "bwrite i (copy_buf i j s2) = Ret s4" "bio_inv s4" "view s4 = (view s2)(?L := view s2 ?b)"
    "held s4 = held s2" "dirty s4 = dirty s2 - {?L}" "disk s4 = (disk s2)(?L := view s2 ?b)"
    "dwrites s4 = dwrites s2 @ [(?L, view s2 ?b)]" "bframe s2 s4" "\<And>k d. holds s4 k d \<longleftrightarrow> holds s2 k d"
    by (rule copy_bwrite_spec [OF 2(3-5)]) blast
  have d4: "dirty s4 = dirty s" using 4(5) 2(9) Ld by auto
  obtain s5 s6 where 6: "brelse j s4 = Ret s5" "brelse i s5 = Ret s6" "bio_inv s6" "view s6 = view s4"
    "held s6 = held s4 - {?b, ?L}" "dirty s6 = dirty s4" "disk s6 = disk s4" "dwrites s6 = dwrites s4" "bframe s4 s6"
    by (rule brelse2_spec [OF 4(2), of j ?b i ?L]) (use 4 2 d4 b in auto)
  show ?thesis
  proof (rule that)
    show "write_one tail s = Ret s6"
      using t dev 2(1,2) 4(1) 6(1,2) bframe_log [OF 2(12)] bframe_log [OF 2(13)] by (simp add: write_one_def)
    show "at_rest s6" using 6 d4 4(4) 2(8) cd by (auto simp: at_rest_def)
    show "bframe s s6" using 2(12,13) 4(8) 6(9) by (blast intro: bframe_trans)
  qed (use 6 4 2 d4 in auto)
qed

text \<open>\<open>install_one\<close> copies a block from the log to its home.\<close>

lemma install_one_spec:
  assumes r: "at_rest s" and dev: "log_dev s = 1" and t: "tail < length (lh_block s)"
    and b: "lh_block s ! tail < disksize s" and L: "log_start s + tail + 1 < disksize s"
    and Ld: "log_start s + tail + 1 \<notin> dirty s" and ne: "lh_block s ! tail \<noteq> log_start s + tail + 1"
    and room: "lh_block s ! tail \<in> dirty s \<or> card (dirty s) + 1 < NBUF"
  obtains s' where "install_one tail s = Ret s'" and "at_rest s'" and "bframe s s'"
    and "dirty s' = dirty s - {lh_block s ! tail}"
    and "view s' = (view s)(lh_block s ! tail := view s (log_start s + tail + 1))"
    and "disk s' = (disk s)(lh_block s ! tail := view s (log_start s + tail + 1))"
    and "dwrites s' = dwrites s @ [(lh_block s ! tail, view s (log_start s + tail + 1))]"
proof -
  let ?L = "log_start s + tail + 1" and ?b = "lh_block s ! tail"
  have inv: "bio_inv s" and cd: "card (dirty s) < NBUF" using r by (auto simp: at_rest_def)
  obtain i s1 j s2 where 2: "bread 1 ?L s = Ret (i, s1)" "bread 1 ?b s1 = Ret (j, s2)" "bio_inv s2"
    "holds s2 i ?L" "holds s2 j ?b" "i \<noteq> j" "view s2 = view s" "held s2 = {?L, ?b}" "dirty s2 = dirty s"
    "disk s2 = disk s" "dwrites s2 = dwrites s" "bframe s s1" "bframe s1 s2"
    by (rule bread2_spec [OF r L b ne [symmetric] room]) blast
  obtain s4 where 4: "bwrite j (copy_buf j i s2) = Ret s4" "bio_inv s4" "view s4 = (view s2)(?b := view s2 ?L)"
    "held s4 = held s2" "dirty s4 = dirty s2 - {?b}" "disk s4 = (disk s2)(?b := view s2 ?L)"
    "dwrites s4 = dwrites s2 @ [(?b, view s2 ?L)]" "bframe s2 s4" "\<And>k d. holds s4 k d \<longleftrightarrow> holds s2 k d"
    by (rule copy_bwrite_spec [OF 2(3,5,4)]) blast
  obtain s5 s6 where 6: "brelse i s4 = Ret s5" "brelse j s5 = Ret s6" "bio_inv s6" "view s6 = view s4"
    "held s6 = held s4 - {?L, ?b}" "dirty s6 = dirty s4" "disk s6 = disk s4" "dwrites s6 = dwrites s4" "bframe s4 s6"
    by (rule brelse2_spec [OF 4(2), of i ?L j ?b]) (use 4 2 at_rest_clean [OF r Ld] in auto)
  have "card (dirty s - {?b}) \<le> card (dirty s)" by (rule card_mono) auto
  then have "card (dirty s - {?b}) < NBUF" using cd by linarith
  show ?thesis
  proof (rule that)
    show "install_one tail s = Ret s6"
      using t dev 2(1,2) 4(1) 6(1,2) bframe_log [OF 2(12)] bframe_log [OF 2(13)] by (simp add: install_one_def)
    show "at_rest s6" using 6 4(4,5) 2(8,9) \<open>card (dirty s - {?b}) < NBUF\<close> by (auto simp: at_rest_def)
    show "bframe s s6" using 2(12,13) 4(8) 6(9) by (blast intro: bframe_trans)
  qed (use 6 4 2 in auto)
qed

section \<open>The loops\<close>

definition apply_writes :: "(nat \<times> uchar list) list \<Rightarrow> (nat \<Rightarrow> uchar list) \<Rightarrow> nat \<Rightarrow> uchar list" where
  "apply_writes ws d = fold (\<lambda>(b, x) d. d(b := x)) ws d"

lemma apply_writes_simps [simp]:
  "apply_writes [] d = d" "apply_writes ((b, x) # ws) d = apply_writes ws (d(b := x))"
  "apply_writes (ws @ ws') d = apply_writes ws' (apply_writes ws d)"
  by (simp_all add: apply_writes_def)

lemma apply_writes_other: "b \<notin> fst ` set ws \<Longrightarrow> apply_writes ws d b = d b"
  by (induction ws arbitrary: d) auto

lemma apply_writes_distinct:
  assumes "distinct (map fst ws)" and "(b, x) \<in> set ws"
  shows "apply_writes ws d b = x"
  using assms
proof (induction ws arbitrary: d)
  case (Cons w ws)
  then show ?case
    by (cases w) (auto simp: apply_writes_other)
qed simp

text \<open>The blocks of the log on disk; the blocks logged by the current group of operations.\<close>

definition log_area :: "'a log_state_scheme \<Rightarrow> nat set" where
  "log_area s = {log_start s ..< log_start s + nat (log_size s)}"

definition logged :: "'a log_state_scheme \<Rightarrow> nat list" where
  "logged s = take (nat (lh_n s)) (lh_block s)"

definition log_wf :: "'a log_state_scheme \<Rightarrow> bool" where
  "log_wf s \<longleftrightarrow> log_dev s = 1 \<and> length (lh_block s) = LOGSIZE \<and> 0 \<le> lh_n s \<and> lh_n s < log_size s \<and>
     log_size s \<le> int LOGSIZE \<and> log_start s + nat (log_size s) \<le> disksize s \<and>
     (\<forall>b \<in> set (logged s). b < disksize s \<and> b < 2 ^ 32 \<and> b \<notin> log_area s)"

lemma log_wf_bframe:
  fixes s s' :: "'a log_state_scheme"
  assumes "bframe s s'"
  shows "logged s' = logged s" and "log_area s' = log_area s" and "log_wf s' = log_wf s"
proof -
  note f = bframe_log [OF assms] bframe_simps(1) [OF assms]
  show 1: "logged s' = logged s" and 2: "log_area s' = log_area s" using f by (simp_all add: logged_def log_area_def)
  show "log_wf s' = log_wf s" unfolding log_wf_def 1 2 f ..
qed

lemma logged_nth:
  assumes "log_wf s" and "i < nat (lh_n s)"
  shows "i < length (lh_block s)" and "lh_block s ! i \<in> set (logged s)" and "log_start s + i + 1 \<in> log_area s"
    and "log_start s + i + 1 < disksize s"
proof -
  have l: "i < length (lh_block s)" "int i < lh_n s" "lh_n s < log_size s" using assms by (auto simp: log_wf_def)
  then show "i < length (lh_block s)" by simp
  have "lh_block s ! i = logged s ! i" "i < length (logged s)" using l assms(2) by (simp_all add: logged_def)
  then show "lh_block s ! i \<in> set (logged s)" by simp
  show "log_start s + i + 1 \<in> log_area s" using l by (simp add: log_area_def)
  then show "log_start s + i + 1 < disksize s" using assms(1) by (auto simp: log_wf_def log_area_def)
qed

lemma length_logged: "log_wf s \<Longrightarrow> length (logged s) = nat (lh_n s)"
  by (auto simp: log_wf_def logged_def)

lemma write_loop_spec:
  assumes "at_rest s" and "log_wf s" and "tail + k \<le> nat (lh_n s)" and "set (logged s) \<subseteq> dirty s"
    and "log_area s \<inter> dirty s = {}"
  shows "\<exists>s'. write_loop k tail s = Ret s' \<and> at_rest s' \<and> bframe s s' \<and> dirty s' = dirty s \<and>
    (let ws = map (\<lambda>i. (log_start s + i + 1, view s (lh_block s ! i))) [tail..<tail + k]
     in view s' = apply_writes ws (view s) \<and> disk s' = apply_writes ws (disk s) \<and> dwrites s' = dwrites s @ ws)"
  using assms
proof (induction k arbitrary: tail s)
  case 0
  then show ?case by simp
next
  case (Suc k)
  have wf: "log_wf s" and t: "tail < nat (lh_n s)" using Suc.prems by simp_all
  note ln = logged_nth [OF wf t]
  obtain s1 where 1: "write_one tail s = Ret s1" "at_rest s1" "bframe s s1" "dirty s1 = dirty s"
    "view s1 = (view s)(log_start s + tail + 1 := view s (lh_block s ! tail))"
    "disk s1 = (disk s)(log_start s + tail + 1 := view s (lh_block s ! tail))"
    "dwrites s1 = dwrites s @ [(log_start s + tail + 1, view s (lh_block s ! tail))]"
    by (rule write_one_spec [OF Suc.prems(1) _ ln(1) _ ln(4)]) (use Suc.prems ln in \<open>auto simp: log_wf_def\<close>)
  note f = bframe_log [OF 1(3)] log_wf_bframe [OF 1(3)]
  obtain s' where 2: "write_loop k (Suc tail) s1 = Ret s'" "at_rest s'" "bframe s1 s'" "dirty s' = dirty s1"
    "let ws = map (\<lambda>i. (log_start s1 + i + 1, view s1 (lh_block s1 ! i))) [Suc tail..<Suc tail + k]
     in view s' = apply_writes ws (view s1) \<and> disk s' = apply_writes ws (disk s1) \<and> dwrites s' = dwrites s1 @ ws"
    using Suc.IH [of s1 "Suc tail"] Suc.prems 1(2,4) f by auto
  have v: "view s1 (lh_block s ! i) = view s (lh_block s ! i)" if "i < tail + Suc k" for i
    using that Suc.prems(3) logged_nth [OF wf, of i] ln(3) wf by (auto simp: 1(5) log_wf_def)
  have ws: "map (\<lambda>i. (log_start s1 + i + 1, view s1 (lh_block s1 ! i))) [Suc tail..<Suc tail + k] =
      map (\<lambda>i. (log_start s + i + 1, view s (lh_block s ! i))) [Suc tail..<tail + Suc k]"
    using v f by (auto intro!: map_cong)
  have up: "[tail..<tail + Suc k] = tail # [Suc tail..<tail + Suc k]" by (simp add: upt_conv_Cons)
  show ?case
    using 1(1) 2(1,2,4) 1(4) bframe_trans [OF 1(3) 2(3)] 2(5) [unfolded ws]
    unfolding up by (simp add: Let_def 1(5-7))
qed

lemma install_loop_spec:
  assumes "at_rest s" and "log_wf s" and "tail + k \<le> nat (lh_n s)" and "log_area s \<inter> dirty s = {}"
    and "0 < k \<Longrightarrow> lh_block s ! tail \<in> dirty s \<or> card (dirty s) + 1 < NBUF"
  shows "\<exists>s'. install_loop k tail s = Ret s' \<and> at_rest s' \<and> bframe s s' \<and>
    dirty s' = dirty s - (\<lambda>i. lh_block s ! i) ` {tail..<tail + k} \<and>
    (let ws = map (\<lambda>i. (lh_block s ! i, view s (log_start s + i + 1))) [tail..<tail + k]
     in view s' = apply_writes ws (view s) \<and> disk s' = apply_writes ws (disk s) \<and> dwrites s' = dwrites s @ ws)"
  using assms
proof (induction k arbitrary: tail s)
  case 0
  then show ?case by simp
next
  case (Suc k)
  have wf: "log_wf s" and t: "tail < nat (lh_n s)" using Suc.prems by simp_all
  note ln = logged_nth [OF wf t]
  have b: "lh_block s ! tail < disksize s" "lh_block s ! tail \<noteq> log_start s + tail + 1" "log_dev s = 1"
    using wf ln by (auto simp: log_wf_def)
  obtain s1 where 1: "install_one tail s = Ret s1" "at_rest s1" "bframe s s1" "dirty s1 = dirty s - {lh_block s ! tail}"
    "view s1 = (view s)(lh_block s ! tail := view s (log_start s + tail + 1))"
    "disk s1 = (disk s)(lh_block s ! tail := view s (log_start s + tail + 1))"
    "dwrites s1 = dwrites s @ [(lh_block s ! tail, view s (log_start s + tail + 1))]"
    by (rule install_one_spec [OF Suc.prems(1) b(3) ln(1) b(1) ln(4) _ b(2)])
      (use Suc.prems(4,5) ln in auto)
  have "card (dirty s1) + 1 < NBUF"
  proof (cases "lh_block s ! tail \<in> dirty s")
    case True
    then have "card (dirty s1) + 1 = card (dirty s)" using 1(4) card_Suc_Diff1 [OF finite_dirty True] by simp
    then show ?thesis using Suc.prems(1) by (simp add: at_rest_def)
  next
    case False
    then show ?thesis using 1(4) Suc.prems(5) by simp
  qed
  note f = bframe_log [OF 1(3)] log_wf_bframe [OF 1(3)]
  obtain s' where 2: "install_loop k (Suc tail) s1 = Ret s'" "at_rest s'" "bframe s1 s'"
    "dirty s' = dirty s1 - (\<lambda>i. lh_block s1 ! i) ` {Suc tail..<Suc tail + k}"
    "let ws = map (\<lambda>i. (lh_block s1 ! i, view s1 (log_start s1 + i + 1))) [Suc tail..<Suc tail + k]
     in view s' = apply_writes ws (view s1) \<and> disk s' = apply_writes ws (disk s1) \<and> dwrites s' = dwrites s1 @ ws"
    using Suc.IH [of s1 "Suc tail"] Suc.prems(2-4) 1(2,4) f \<open>card (dirty s1) + 1 < NBUF\<close> by auto
  have v: "view s1 (log_start s + i + 1) = view s (log_start s + i + 1)" if "i < tail + Suc k" for i
  proof -
    have "log_start s + i + 1 \<in> log_area s" using that Suc.prems(3) logged_nth(3) [OF wf, of i] by simp
    moreover have "lh_block s ! tail \<notin> log_area s" using wf ln(2) by (auto simp: log_wf_def)
    ultimately show ?thesis by (auto simp: 1(5))
  qed
  have ws: "map (\<lambda>i. (lh_block s1 ! i, view s1 (log_start s1 + i + 1))) [Suc tail..<Suc tail + k] =
      map (\<lambda>i. (lh_block s ! i, view s (log_start s + i + 1))) [Suc tail..<tail + Suc k]"
    using v f by (auto intro!: map_cong)
  have up: "[tail..<tail + Suc k] = tail # [Suc tail..<tail + Suc k]" by (simp add: upt_conv_Cons)
  have im: "{tail..<tail + Suc k} = insert tail {Suc tail..<Suc tail + k}" by auto
  show ?case
    using 1(1) 2(1,2) bframe_trans [OF 1(3) 2(3)] 2(4) 1(4) f(5) 2(5) [unfolded ws]
    unfolding up im by (auto simp: Let_def 1(5-7))
qed

section \<open>The header on disk\<close>

lemma write_head_spec:
  assumes r: "at_rest s" and dev: "log_dev s = 1" and n: "length (lh_block s) = LOGSIZE" "lh_n s \<le> int LOGSIZE"
    and st: "log_start s < disksize s" "log_start s \<notin> dirty s" and l: "length (view s (log_start s)) = BSIZE"
  obtains s' where "write_head s = Ret s'" and "at_rest s'" and "dirty s' = dirty s" and "bframe s s'"
    and "view s' = (view s)(log_start s := put_head (lh_n s) (lh_block s) (view s (log_start s)))"
    and "disk s' = (disk s)(log_start s := put_head (lh_n s) (lh_block s) (view s (log_start s)))"
    and "dwrites s' = dwrites s @ [(log_start s, put_head (lh_n s) (lh_block s) (view s (log_start s)))]"
proof -
  let ?g = "put_head (lh_n s) (lh_block s)"
  have "4 + 4 * nat (lh_n s) \<le> BSIZE" using n(2) by (simp add: BSIZE_def LOGSIZE_def MAXOPBLOCKS_def)
  then have lg: "length (?g (view s (log_start s))) = BSIZE" using put_head_length [of "lh_n s"] l by simp
  obtain i s1 s2 s3 where 1: "bread 1 (log_start s) s = Ret (i, s1)"
    "bwrite i (upd_buf i (\<lambda>x. x\<lparr>b_data := ?g (b_data x)\<rparr>) s1) = Ret s2" "brelse i s2 = Ret s3"
    "at_rest s3" "view s3 = (view s)(log_start s := ?g (view s (log_start s)))" "dirty s3 = dirty s"
    "disk s3 = (disk s)(log_start s := ?g (view s (log_start s)))"
    "dwrites s3 = dwrites s @ [(log_start s, ?g (view s (log_start s)))]" "bframe s s1" "bframe s1 s3"
    by (rule change_block_spec [of s "log_start s" ?g, OF r st lg]) blast
  show ?thesis
  proof (rule that)
    show "write_head s = Ret s3"
      using 1(1-3) dev n bframe_log [OF 1(9)] by (simp add: write_head_def)
    show "bframe s s3" using 1(9,10) by (rule bframe_trans)
  qed (use 1 in auto)
qed

section \<open>Commit\<close>

text \<open>The state in which \<open>commit\<close> is called: the modified blocks are exactly those in the log header.\<close>

definition tx_ready :: "'a log_state_scheme \<Rightarrow> bool" where
  "tx_ready s \<longleftrightarrow> at_rest s \<and> log_wf s \<and> set (logged s) = dirty s \<and> distinct (logged s)"

lemma tx_readyD:
  assumes "tx_ready s"
  shows "at_rest s" and "log_wf s" and "set (logged s) = dirty s" and "distinct (logged s)"
    and "log_area s \<inter> dirty s = {}" and "log_start s < disksize s" and "log_start s \<in> log_area s"
    and "length (view s (log_start s)) = BSIZE" and "view s (log_start s) = disk s (log_start s)"
    and "length (lh_block s) = LOGSIZE" and "lh_n s \<le> int LOGSIZE" and "log_dev s = 1"
proof -
  show r: "at_rest s" and wf: "log_wf s" and d: "set (logged s) = dirty s" "distinct (logged s)"
    using assms by (auto simp: tx_ready_def)
  show a: "log_area s \<inter> dirty s = {}" using d wf by (auto simp: log_wf_def)
  show b: "log_start s < disksize s" and c: "log_start s \<in> log_area s" using wf by (auto simp: log_wf_def log_area_def)
  show e: "view s (log_start s) = disk s (log_start s)" by (rule at_rest_clean [OF r]) (use a c in auto)
  show "length (view s (log_start s)) = BSIZE" using r b e bio_invD(6) by (auto simp: at_rest_def)
  show "length (lh_block s) = LOGSIZE" "lh_n s \<le> int LOGSIZE" "log_dev s = 1" using wf by (auto simp: log_wf_def)
qed

definition log_writes :: "'a log_state_scheme \<Rightarrow> (nat \<times> uchar list) list" where
  "log_writes s = map (\<lambda>i. (log_start s + i + 1, view s (lh_block s ! i))) [0..<nat (lh_n s)]"

definition home_writes :: "'a log_state_scheme \<Rightarrow> (nat \<times> uchar list) list" where
  "home_writes s = map (\<lambda>b. (b, view s b)) (logged s)"

definition full_head :: "'a log_state_scheme \<Rightarrow> uchar list" where
  "full_head s = put_head (lh_n s) (lh_block s) (disk s (log_start s))"

lemma fst_log_writes: "log_wf s \<Longrightarrow> fst ` set (log_writes s) \<subseteq> log_area s - {log_start s}"
  using logged_nth(3) [of s] by (auto simp: log_writes_def)

lemma log_writes_read:
  assumes "i < nat (lh_n s)"
  shows "apply_writes (log_writes s) d (log_start s + i + 1) = view s (lh_block s ! i)"
  by (rule apply_writes_distinct)
    (use assms in \<open>auto simp: log_writes_def comp_def distinct_map inj_on_def\<close>)

lemma home_writes_alt:
  assumes "log_wf s"
  shows "home_writes s = map (\<lambda>i. (lh_block s ! i, view s (lh_block s ! i))) [0..<nat (lh_n s)]"
  by (rule nth_equalityI) (use assms in \<open>auto simp: home_writes_def logged_def log_wf_def\<close>)

lemma logged_image:
  assumes "log_wf s"
  shows "(\<lambda>i. lh_block s ! i) ` {0..<nat (lh_n s)} = set (logged s)"
proof -
  have "nat (lh_n s) \<le> length (lh_block s)" using assms by (auto simp: log_wf_def)
  then show ?thesis unfolding logged_def by (rule nth_image)
qed

text \<open>Installing the logged blocks and clearing the header: the second half of \<open>commit\<close> and of
  \<open>recover_from_log\<close>.\<close>

definition install_writes :: "'a log_state_scheme \<Rightarrow> (nat \<times> uchar list) list" where
  "install_writes s = map (\<lambda>i. (lh_block s ! i, view s (log_start s + i + 1))) [0..<nat (lh_n s)]"

lemma fst_install_writes: "log_wf s \<Longrightarrow> fst ` set (install_writes s) = set (logged s)"
  using logged_image [of s] by (auto simp: install_writes_def image_image)

lemma install_clear_spec:
  assumes r: "at_rest s" and wf: "log_wf s" and d: "dirty s \<subseteq> set (logged s)"
    and rm: "0 < lh_n s \<Longrightarrow> lh_block s ! 0 \<in> dirty s \<or> card (dirty s) + 1 < NBUF"
  obtains s' where "bnd (install_trans s) (\<lambda>s. write_head (s\<lparr>lh_n := 0\<rparr>)) = Ret s'" and "at_rest s'" and "dirty s' = {}"
    and "bframe (s\<lparr>lh_n := 0\<rparr>) s'"
    and "dwrites s' = dwrites s @ install_writes s @ [(log_start s, put_head 0 (lh_block s) (view s (log_start s)))]"
    and "disk s' = apply_writes (install_writes s @ [(log_start s, put_head 0 (lh_block s) (view s (log_start s)))]) (disk s)"
proof -
  let ?st = "log_start s"
  have a: "log_area s \<inter> dirty s = {}" "?st \<in> log_area s" "?st < disksize s"
    using d wf by (auto simp: log_wf_def log_area_def)
  obtain s3 where 3: "install_trans s = Ret s3" "at_rest s3" "bframe s s3" "dirty s3 = {}"
    "view s3 = apply_writes (install_writes s) (view s)" "disk s3 = apply_writes (install_writes s) (disk s)"
    "dwrites s3 = dwrites s @ install_writes s"
    using install_loop_spec [OF r wf, of 0 "nat (lh_n s)"] a(1) rm d logged_image [OF wf]
    by (auto simp: install_trans_def install_writes_def Let_def)
  note f3 = bframe_log [OF 3(3)] bframe_simps(1) [OF 3(3)]
  let ?t = "s3\<lparr>lh_n := 0\<rparr>"
  have C: "at_rest ?t = at_rest s3" "view ?t = view s3" "dirty ?t = dirty s3"
    by (rule cache_cong; simp)+
  have v3: "view s3 ?st = view s ?st"
    using fst_install_writes [OF wf] wf a by (auto simp: 3(5) log_wf_def intro!: apply_writes_other)
  have l: "length (view s ?st) = BSIZE"
  proof -
    have "?st \<notin> dirty s" using a by auto
    with at_rest_clean [OF r] a(3) r bio_invD(6) [of s ?st] show ?thesis by (simp add: at_rest_def)
  qed
  have W: "log_dev s = 1" "length (lh_block s) = LOGSIZE" using wf by (auto simp: log_wf_def)
  obtain s' where 4: "write_head ?t = Ret s'" "at_rest s'" "dirty s' = dirty ?t" "bframe ?t s'"
    "disk s' = (disk ?t)(log_start ?t := put_head (lh_n ?t) (lh_block ?t) (view ?t (log_start ?t)))"
    "dwrites s' = dwrites ?t @ [(log_start ?t, put_head (lh_n ?t) (lh_block ?t) (view ?t (log_start ?t)))]"
    by (rule write_head_spec [of ?t]) (use C 3(2,4) f3 a v3 l W in auto)
  have "bframe (s\<lparr>lh_n := 0\<rparr>) ?t" using 3(3) by (rule bframe_lh_n)
  then have "bframe (s\<lparr>lh_n := 0\<rparr>) s'" using 4(4) by (rule bframe_trans)
  then show ?thesis
    using 3 4 C f3 v3 by (intro that [of s']) simp_all
qed

lemma commit_spec:
  assumes tx: "tx_ready s" and pos: "0 < lh_n s"
  obtains s' where "commit s = Ret s'" and "at_rest s'" and "dirty s' = {}" and "bframe (s\<lparr>lh_n := 0\<rparr>) s'"
    and "dwrites s' = dwrites s @ log_writes s @ [(log_start s, full_head s)] @ home_writes s @
          [(log_start s, put_head 0 (lh_block s) (full_head s))]"
    and "disk s' = apply_writes (log_writes s @ [(log_start s, full_head s)] @ home_writes s @
          [(log_start s, put_head 0 (lh_block s) (full_head s))]) (disk s)"
proof -
  note T = tx_readyD [OF tx]
  let ?n = "nat (lh_n s)" and ?st = "log_start s" and ?H = "full_head s"
  obtain s1 where 1: "write_log s = Ret s1" "at_rest s1" "bframe s s1" "dirty s1 = dirty s"
    "view s1 = apply_writes (log_writes s) (view s)" "disk s1 = apply_writes (log_writes s) (disk s)"
    "dwrites s1 = dwrites s @ log_writes s"
    using write_loop_spec [OF T(1,2), of 0 ?n] T(3,5) by (auto simp: write_log_def log_writes_def Let_def)
  note f1 = bframe_log [OF 1(3)] log_wf_bframe [OF 1(3)] bframe_simps(1) [OF 1(3)]
  have v1: "view s1 ?st = view s ?st" using fst_log_writes [OF T(2)] by (auto simp: 1(5) intro: apply_writes_other)
  obtain s2 where 2: "write_head s1 = Ret s2" "at_rest s2" "dirty s2 = dirty s" "bframe s1 s2"
    "view s2 = (view s1)(?st := ?H)" "disk s2 = (disk s1)(?st := ?H)" "dwrites s2 = dwrites s1 @ [(?st, ?H)]"
    by (rule write_head_spec [OF 1(2), unfolded f1 1(4) v1])
      (use T in \<open>auto simp: full_head_def\<close>)
  note f2 = bframe_log [OF 2(4), unfolded f1] log_wf_bframe [OF 2(4), unfolded f1]
  have v2: "view s2 (?st + i + 1) = view s (lh_block s ! i)" if "i < ?n" for i
    using log_writes_read [OF that, of "view s"] by (simp add: 2(5) 1(5))
  have hw: "install_writes s2 = home_writes s"
    unfolding home_writes_alt [OF T(2)] install_writes_def f2 using v2 by simp
  have rm: "lh_block s2 ! 0 \<in> dirty s2 \<or> card (dirty s2) + 1 < NBUF"
    using logged_nth(2) [OF T(2), of 0] pos T(3) 2(3) f2 by simp
  obtain s' where 3: "bnd (install_trans s2) (\<lambda>s. write_head (s\<lparr>lh_n := 0\<rparr>)) = Ret s'" "at_rest s'" "dirty s' = {}"
    "bframe (s2\<lparr>lh_n := 0\<rparr>) s'" "dwrites s' = dwrites s2 @ home_writes s @ [(?st, put_head 0 (lh_block s) ?H)]"
    "disk s' = apply_writes (home_writes s @ [(?st, put_head 0 (lh_block s) ?H)]) (disk s2)"
    by (rule install_clear_spec [OF 2(2)]) (use f2 T(2,3) 2(3,5) rm hw in auto)
  have "bframe s s2" using 1(3) 2(4) by (rule bframe_trans)
  then have "bframe (s\<lparr>lh_n := 0\<rparr>) (s2\<lparr>lh_n := 0\<rparr>)" by (rule bframe_lh_n)
  then have bf: "bframe (s\<lparr>lh_n := 0\<rparr>) s'" using 3(4) by (rule bframe_trans)
  have "commit s = Ret s'" using pos 1(1) 2(1) 3(1) by (simp add: commit_def)
  then show ?thesis
    by (rule that) (use 3 2 1 bf in simp_all)
qed

section \<open>Recovery\<close>

text \<open>The state of a kernel that has just initialised its buffer cache.\<close>

definition fresh :: "'a log_state_scheme \<Rightarrow> bool" where
  "fresh t \<longleftrightarrow> bio_inv t \<and> (\<forall>i < NBUF. b_dev (bufs t ! i) \<noteq> 1) \<and> length (lh_block t) = LOGSIZE"

text \<open>The header a block of the disk holds.\<close>

definition disk_head :: "uchar list \<Rightarrow> int \<times> nat list" where
  "disk_head d = (le_int (slice_at 0 4 d), map (\<lambda>i. get32 (4 + 4 * i) d) [0..<nat (le_int (slice_at 0 4 d))])"

lemma fresh_at_rest:
  assumes "fresh t"
  shows "at_rest t" and "dirty t = {}" and "view t = disk t"
proof -
  from assms have n: "\<nexists>i. caches t i b" for b by (auto simp: fresh_def caches_def)
  show "dirty t = {}" using n by (auto simp: dirty_def)
  moreover have "held t = {}" using n by (auto simp: held_def)
  ultimately show "at_rest t" using assms by (simp add: at_rest_def fresh_def NBUF_def MAXOPBLOCKS_def)
  show "view t = disk t" using n assms by (auto simp: fresh_def intro: view_uncached)
qed

lemma get32_less: "get32 off d < 2 ^ 32"
proof -
  have "length (slice_at off 4 d) \<le> 4" by (simp add: slice_at_def)
  then have "(256 :: nat) ^ length (slice_at off 4 d) \<le> 256 ^ 4" by (rule power_increasing) simp
  with le_nat_bound [of "slice_at off 4 d"] show ?thesis by (simp add: get32_def)
qed

text \<open>Recovery copies the blocks the header names from the log to their homes and clears the header.\<close>

lemma recovery_spec:
  assumes t: "fresh t" and sb: "superblock_of (disk t 1) = S" and geo: "sb_logstart S + sb_nlog S \<le> disksize t"
      "sb_nlog S \<le> LOGSIZE" "1 < disksize t"
    and h: "disk_head (disk t (sb_logstart S)) = (n, bs)" and n: "0 \<le> n" "n < int (sb_nlog S)"
    and bs: "\<And>b. b \<in> set bs \<Longrightarrow> b < disksize t \<and> b \<notin> {sb_logstart S ..< sb_logstart S + sb_nlog S}"
  obtains t' where "initlog 1 t = Ret t'" and "at_rest t'" and "dirty t' = {}" and "log_wf t'" and "lh_n t' = 0"
    and "\<And>b. b \<notin> {sb_logstart S ..< sb_logstart S + sb_nlog S} \<Longrightarrow> disk t' b =
      apply_writes (map (\<lambda>i. (bs ! i, disk t (sb_logstart S + i + 1))) [0..<nat n]) (disk t) b"
    and "le_int (slice_at 0 4 (disk t' (sb_logstart S))) = 0"
proof -
  let ?st = "sb_logstart S"
  have lb: "length bs = nat n" and bs32: "b \<in> set bs \<Longrightarrow> b < 2 ^ 32" for b
    using h get32_less by (auto simp: disk_head_def)
  note F = fresh_at_rest [OF t]
  obtain i t1 t2 where 1: "bread 1 1 t = Ret (i, t1)" "b_data (bufs t1 ! i) = view t 1" "brelse i t1 = Ret t2"
    "at_rest t2" "view t2 = view t" "dirty t2 = dirty t" "disk t2 = disk t" "bframe t t1" "bframe t1 t2"
    by (rule read_block_spec [OF F(1) geo(3)]) blast
  have rsb: "readsb 1 t = Ret (S, t2)" using 1(1-3) F(3) sb by (simp add: readsb_def)
  have b2: "bframe t t2" using 1(8,9) by (rule bframe_trans)
  let ?u = "t2\<lparr>log_start := ?st, log_size := int (sb_nlog S), log_dev := 1\<rparr>"
  have U: "at_rest ?u = at_rest t2" "view ?u = view t2" "dirty ?u = dirty t2"
    by (rule cache_cong; simp)+
  have du: "?st < disksize ?u" "lh_block ?u = lh_block t" using geo n bframe_simps(1) [OF b2] bframe_log(5) [OF b2] by auto
  obtain j u1 u2 where 2: "bread 1 ?st ?u = Ret (j, u1)" "b_data (bufs u1 ! j) = view ?u ?st" "bframe ?u u1"
    "bio_inv u1" "holds u1 j ?st" "view u1 = view ?u" "held u1 = {?st}" "dirty u1 = dirty ?u" "disk u1 = disk ?u"
    by (rule read_block_spec [of ?u ?st]) (use U 1(4) du in auto)
  let ?v = "u1\<lparr>lh_n := n, lh_block := bs @ drop (nat n) (lh_block u1)\<rparr>"
  have V: "bio_inv ?v = bio_inv u1" "view ?v = view u1" "dirty ?v = dirty u1" "held ?v = held u1" "holds ?v = holds u1"
    by (rule cache_cong; simp)+
  obtain v' where 3: "brelse j ?v = Ret v'" "bio_inv v'" "view v' = view ?v" "held v' = held ?v - {?st}"
    "dirty v' = dirty ?v" "disk v' = disk ?v" "bframe ?v v'"
    by (rule brelse_spec [of ?v j ?st]) (use V 2 U 1 F in auto)
  note f2 = bframe_log [OF 2(3)] bframe_simps(1) [OF 2(3)]
  note f3 = bframe_log [OF 3(7)] bframe_simps(1) [OF 3(7)]
  have ll: "length (lh_block t) = LOGSIZE" "nat n \<le> LOGSIZE" using t geo n by (auto simp: fresh_def)
  have rh: "read_head ?u = Ret v'"
    using h 2(1,2) 3(1) U(2) 1(5) F(3) f2 du ll n
    by (auto simp: read_head_def disk_head_def Let_def)
  have ar: "at_rest v'" "dirty v' = {}" "view v' = disk t" "disk v' = disk t"
    using 3 V 2 U 1 F by (auto simp: at_rest_def NBUF_def MAXOPBLOCKS_def)
  have lv: "lh_n v' = n" "log_start v' = ?st" "log_size v' = int (sb_nlog S)" "log_dev v' = 1" "disksize v' = disksize t"
    "lh_block v' = bs @ drop (nat n) (lh_block t)"
    using f3 f2 du bframe_simps(1) [OF b2] by simp_all
  have lg: "logged v' = bs" "log_area v' = {?st ..< ?st + sb_nlog S}" using lv lb by (simp_all add: logged_def log_area_def)
  have wf: "log_wf v'"
    using lv ll geo n bs bs32 lb unfolding log_wf_def lg by auto
  have iw: "install_writes v' = map (\<lambda>i. (bs ! i, disk t (?st + i + 1))) [0..<nat n]"
    using lv lb ar by (simp add: install_writes_def nth_append)
  obtain t' where 4: "bnd (install_trans v') (\<lambda>s. write_head (s\<lparr>lh_n := 0\<rparr>)) = Ret t'" "at_rest t'" "dirty t' = {}"
    "bframe (v'\<lparr>lh_n := 0\<rparr>) t'"
    "disk t' = apply_writes (install_writes v' @ [(log_start v', put_head 0 (lh_block v') (view v' (log_start v')))]) (disk v')"
    by (rule install_clear_spec [OF ar(1) wf]) (use ar(2) in \<open>auto simp: NBUF_def MAXOPBLOCKS_def\<close>)
  have "initlog 1 t = Ret t'"
    using rsb rh 4(1) by (simp add: initlog_def recover_from_log_def BSIZE_def LOGSIZE_def MAXOPBLOCKS_def)
  moreover have "length (disk t ?st) = BSIZE" using t geo n bio_invD(6) [of t ?st] by (auto simp: fresh_def)
  then have "le_int (slice_at 0 4 (disk t' ?st)) = 0"
    using put_head_count [of 0 "disk t ?st"] 4(5) lv ar by (simp add: BSIZE_def)
  moreover have "log_wf t'"
    using wf bframe_log [OF 4(4)] bframe_simps(1) [OF 4(4)] by (simp add: log_wf_def logged_def log_area_def)
  moreover have "disk t' b = apply_writes (map (\<lambda>i. (bs ! i, disk t (?st + i + 1))) [0..<nat n]) (disk t) b"
    if "b \<notin> {?st ..< ?st + sb_nlog S}" for b
    using that 4(5) iw ar lv n by auto
  ultimately show ?thesis
    using 4(2,3) bframe_log(4) [OF 4(4)] by (intro that [of t']) simp_all
qed

section \<open>Crash safety\<close>

definition commit_writes :: "'a log_state_scheme \<Rightarrow> (nat \<times> uchar list) list" where
  "commit_writes s = (if lh_n s > 0
     then log_writes s @ [(log_start s, full_head s)] @ home_writes s @ [(log_start s, put_head 0 (lh_block s) (full_head s))]
     else [])"

text \<open>The disk when the machine stops after \<open>k\<close> of the block writes of \<open>commit\<close>.\<close>

definition crash_disk :: "nat \<Rightarrow> 'a log_state_scheme \<Rightarrow> nat \<Rightarrow> uchar list" where
  "crash_disk k s = apply_writes (take k (commit_writes s)) (disk s)"

lemma set_commit_writes:
  assumes "tx_ready s"
  shows "fst ` set (commit_writes s) \<subseteq> log_area s \<union> set (logged s)"
  using fst_log_writes [OF tx_readyD(2) [OF assms]] tx_readyD(7) [OF assms]
  by (auto simp: commit_writes_def home_writes_def)

lemma crash_disk_other:
  assumes "tx_ready s" and "b \<notin> log_area s" and "b \<notin> set (logged s)"
  shows "crash_disk k s b = disk s b"
  unfolding crash_disk_def
proof (rule apply_writes_other)
  show "b \<notin> fst ` set (take k (commit_writes s))"
    using set_commit_writes [OF assms(1)] assms(2,3) set_take_subset [of k "commit_writes s"] by auto
qed

lemma length_log_writes [simp]: "length (log_writes s) = nat (lh_n s)"
  by (simp add: log_writes_def)

lemma crash_early:
  assumes tx: "tx_ready s" and k: "k \<le> nat (lh_n s)" and b: "b \<notin> log_area s \<or> b = log_start s"
  shows "crash_disk k s b = disk s b"
  unfolding crash_disk_def
proof (rule apply_writes_other)
  have "take k (commit_writes s) = take k (log_writes s)" using k by (auto simp: commit_writes_def log_writes_def)
  then show "b \<notin> fst ` set (take k (commit_writes s))"
    using fst_log_writes [OF tx_readyD(2) [OF tx]] b set_take_subset [of k "log_writes s"] by auto
qed

lemma crash_late:
  assumes tx: "tx_ready s" and pos: "0 < lh_n s" and k: "nat (lh_n s) < k"
  shows "i < nat (lh_n s) \<Longrightarrow> crash_disk k s (log_start s + i + 1) = view s (lh_block s ! i)"
    and "crash_disk k s (log_start s) = (if k \<le> 2 * nat (lh_n s) + 1 then full_head s else put_head 0 (lh_block s) (full_head s))"
    and "2 * nat (lh_n s) + 1 < k \<Longrightarrow> b \<in> set (logged s) \<Longrightarrow> crash_disk k s b = view s b"
proof -
  note T = tx_readyD [OF tx]
  let ?n = "nat (lh_n s)" and ?st = "log_start s"
  let ?d = "(apply_writes (log_writes s) (disk s))(?st := full_head s)"
  define m where "m = k - Suc ?n"
  have lw: "length (home_writes s) = ?n" using length_logged [OF T(2)] by (simp add: home_writes_def)
  have k': "k = Suc (?n + m)" using k by (simp add: m_def)
  have tk: "take k (commit_writes s) =
      log_writes s @ [(?st, full_head s)] @ take m (home_writes s @ [(?st, put_head 0 (lh_block s) (full_head s))])"
    using pos by (simp add: commit_writes_def k' Suc_diff_le)
  have cd: "crash_disk k s = apply_writes (take m (home_writes s @ [(?st, put_head 0 (lh_block s) (full_head s))])) ?d"
    by (simp only: crash_disk_def tk apply_writes_simps)
  have hb: "fst ` set (take j (home_writes s)) \<subseteq> set (logged s)" for j
    using set_take_subset [of j "home_writes s"] by (auto simp: home_writes_def)
  have no: "b \<in> log_area s \<Longrightarrow> b \<notin> set (logged s)" for b using T(3,5) by auto
  show "crash_disk k s (?st + i + 1) = view s (lh_block s ! i)" if "i < ?n"
  proof -
    have "?st + i + 1 \<notin> fst ` set (take m (home_writes s @ [(?st, put_head 0 (lh_block s) (full_head s))]))"
      using no [OF logged_nth(3) [OF T(2) that]] hb [of m] by (auto dest: in_set_takeD simp: image_iff)
    then have "crash_disk k s (?st + i + 1) = ?d (?st + i + 1)" unfolding cd by (rule apply_writes_other)
    then show ?thesis using log_writes_read [OF that] by simp
  qed
  have st: "?st \<notin> fst ` set (take j (home_writes s))" for j using no [OF T(7)] hb by auto
  show "crash_disk k s ?st = (if k \<le> 2 * ?n + 1 then full_head s else put_head 0 (lh_block s) (full_head s))"
  proof (cases "m \<le> ?n")
    case True
    then have "crash_disk k s = apply_writes (take m (home_writes s)) ?d" using lw by (simp add: cd)
    then show ?thesis using True st [of m] by (simp add: k' apply_writes_other)
  next
    case False
    then have "crash_disk k s = (apply_writes (home_writes s) ?d)(?st := put_head 0 (lh_block s) (full_head s))"
      using lw by (simp add: cd)
    then show ?thesis using False by (simp add: k')
  qed
  show "crash_disk k s b = view s b" if "2 * ?n + 1 < k" "b \<in> set (logged s)"
  proof -
    have "?n < m" using that(1) k' by simp
    then have "crash_disk k s = (apply_writes (home_writes s) ?d)(?st := put_head 0 (lh_block s) (full_head s))"
      using lw by (simp add: cd)
    moreover have "apply_writes (home_writes s) ?d b = view s b"
      by (rule apply_writes_distinct) (use that T(4) in \<open>auto simp: home_writes_def comp_def\<close>)
    ultimately show ?thesis using that no [OF T(7)] by auto
  qed
qed

lemma full_head_disk_head:
  assumes tx: "tx_ready s"
  shows "disk_head (full_head s) = (lh_n s, logged s)"
    and "disk_head (put_head 0 (lh_block s) (full_head s)) = (0, [])"
proof -
  note T = tx_readyD [OF tx]
  have n: "0 \<le> lh_n s" "lh_n s \<le> 30" "length (lh_block s) = 30"
    using T(2) by (auto simp: log_wf_def LOGSIZE_def MAXOPBLOCKS_def)
  have l: "length (disk s (log_start s)) = 512" using T(8,9) by (simp add: BSIZE_def)
  have c: "le_int (slice_at 0 4 (full_head s)) = lh_n s"
    using put_head_count [of "lh_n s" "disk s (log_start s)"] n l by (simp add: full_head_def)
  have "get32 (4 + 4 * i) (full_head s) = lh_block s ! i" if "i < nat (lh_n s)" for i
    using that put_head_entry [of "lh_n s" "disk s (log_start s)" i "lh_block s"] n l logged_nth(2) [OF T(2) that] T(2)
    by (auto simp: full_head_def log_wf_def)
  then have "map (\<lambda>i. get32 (4 + 4 * i) (full_head s)) [0..<nat (lh_n s)] = logged s"
    using n by (auto intro!: nth_equalityI simp: logged_def)
  with c show "disk_head (full_head s) = (lh_n s, logged s)" by (simp add: disk_head_def)
  have "length (full_head s) = 512" using put_head_length [of "lh_n s" "disk s (log_start s)"] n l by (simp add: full_head_def)
  then show "disk_head (put_head 0 (lh_block s) (full_head s)) = (0, [])"
    using put_head_count [of 0 "full_head s"] by (simp add: disk_head_def)
qed

text \<open>The header found after a crash, and the disk after recovery.\<close>

lemma crash_recovers:
  fixes s t :: "'a log_state_scheme"
  assumes tx: "tx_ready s" and clear: "le_int (slice_at 0 4 (disk s (log_start s))) = 0"
    and sb: "sb_logstart (superblock_of (disk s 1)) = log_start s" "int (sb_nlog (superblock_of (disk s 1))) = log_size s"
      "1 \<notin> log_area s" "1 \<notin> dirty s" "1 < disksize s"
    and t: "fresh t" "disksize t = disksize s" "disk t = crash_disk k s"
  shows "\<exists>t'. initlog 1 t = Ret t' \<and> at_rest t' \<and> log_wf t' \<and> lh_n t' = 0 \<and>
    (\<forall>b. b \<notin> log_area s \<longrightarrow> disk t' b = (if k \<le> nat (lh_n s) then disk s b else view s b))"
proof -
  note T = tx_readyD [OF tx]
  let ?S = "superblock_of (disk s 1)" and ?n = "nat (lh_n s)" and ?st = "log_start s"
  have S: "sb_nlog ?S = nat (log_size s)" using sb(2) by linarith
  have la: "{?st ..< ?st + nat (log_size s)} = log_area s" by (simp add: log_area_def)
  have S1: "superblock_of (disk t 1) = ?S" using crash_disk_other [OF tx sb(3)] T(3) sb(4) t(3) by simp
  have geo: "?st + sb_nlog ?S \<le> disksize t" "sb_nlog ?S \<le> LOGSIZE" "1 < disksize t" "0 < sb_nlog ?S"
    using T(2) S sb(5) t(2) by (auto simp: log_wf_def)
  define h where "h = (if k \<le> ?n \<or> 2 * ?n + 1 < k then (0, []) else (lh_n s, logged s))"
  have n0: "0 \<le> lh_n s" "lh_n s < log_size s" using T(2) by (auto simp: log_wf_def)
  have h: "disk_head (disk t ?st) = h"
  proof (cases "k \<le> ?n")
    case True
    then show ?thesis using crash_early [OF tx True, of ?st] clear t(3) by (simp add: h_def disk_head_def)
  next
    case False
    show ?thesis
    proof (cases "lh_n s = 0")
      case True
      then show ?thesis using clear t(3) by (simp add: h_def disk_head_def crash_disk_def commit_writes_def logged_def)
    next
      case nz: False
      then show ?thesis using crash_late(2) [OF tx, of k] False n0 full_head_disk_head [OF tx] t(3) by (auto simp: h_def)
    qed
  qed
  have hn: "0 \<le> fst h" "fst h < int (sb_nlog ?S)" using n0 sb(2) geo(4) by (auto simp: h_def)
  have hb: "b < disksize t \<and> b \<notin> log_area s" if "b \<in> set (snd h)" for b
    using that T(2) t(2) by (auto simp: h_def log_wf_def split: if_splits)
  obtain t' where R: "initlog 1 t = Ret t'" "at_rest t'" "log_wf t'" "lh_n t' = 0"
    "\<And>b. b \<notin> log_area s \<Longrightarrow> disk t' b =
        apply_writes (map (\<lambda>i. (snd h ! i, disk t (?st + i + 1))) [0..<nat (fst h)]) (disk t) b"
    by (rule recovery_spec [OF t(1) S1, unfolded sb(1), OF geo(1-3), of "fst h" "snd h", unfolded S la])
      (use h hn hb S in auto)
  have "disk t' b = (if k \<le> ?n then disk s b else view s b)" if b: "b \<notin> log_area s" for b
  proof (cases "k \<le> ?n")
    case True
    then show ?thesis using R(5) [OF b] crash_early [OF tx True, of b] b t(3) by (simp add: h_def)
  next
    case late: False
    consider (full) "0 < lh_n s" "k \<le> 2 * ?n + 1" | (clr) "0 < lh_n s" "2 * ?n + 1 < k" | (none) "lh_n s = 0"
      using n0(1) by linarith
    then show ?thesis
    proof cases
      case full
      then have e: "map (\<lambda>i. (snd h ! i, disk t (?st + i + 1))) [0..<nat (fst h)] = home_writes s"
        using late crash_late(1) [OF tx full(1), of k] t(3) length_logged [OF T(2)] unfolding home_writes_alt [OF T(2)]
        by (auto simp: h_def logged_def)
      show ?thesis
      proof (cases "b \<in> set (logged s)")
        case True
        have "apply_writes (home_writes s) (disk t) b = view s b"
          by (rule apply_writes_distinct) (use True T(4) in \<open>auto simp: home_writes_def comp_def\<close>)
        then show ?thesis using R(5) [OF b] e late by simp
      next
        case False
        then have "apply_writes (home_writes s) (disk t) b = disk t b"
          by (intro apply_writes_other) (auto simp: home_writes_def)
        then show ?thesis
          using R(5) [OF b] e late crash_disk_other [OF tx b False] at_rest_clean [OF T(1), of b] False T(3) t(3) by simp
      qed
    next
      case clr
      then show ?thesis
        using R(5) [OF b] late crash_late(3) [OF tx, of k b] crash_disk_other [OF tx b] at_rest_clean [OF T(1), of b] T(3) t(3)
        by (cases "b \<in> set (logged s)") (auto simp: h_def)
    next
      case none
      then show ?thesis
        using R(5) [OF b] late crash_disk_other [OF tx b] at_rest_clean [OF T(1), of b] T(3) t(3)
        by (auto simp: h_def logged_def)
    qed
  qed
  with R show ?thesis by blast
qed

text \<open>The effect of \<open>commit\<close>, empty or not.\<close>

lemma commit_effect:
  fixes s :: "'a log_state_scheme"
  assumes tx: "tx_ready s" and clear: "le_int (slice_at 0 4 (disk s (log_start s))) = 0"
  obtains s' where "commit s = Ret s'" and "at_rest s'" and "dirty s' = {}" and "bframe (s\<lparr>lh_n := 0\<rparr>) s'"
    and "dwrites s' = dwrites s @ commit_writes s" and "disk s' = apply_writes (commit_writes s) (disk s)"
    and "\<And>b. b \<notin> log_area s \<Longrightarrow> disk s' b = view s b" and "le_int (slice_at 0 4 (disk s' (log_start s))) = 0"
proof (cases "0 < lh_n s")
  case pos: True
  note T = tx_readyD [OF tx]
  obtain s' where c: "commit s = Ret s'" "at_rest s'" "dirty s' = {}" "bframe (s\<lparr>lh_n := 0\<rparr>) s'"
    "dwrites s' = dwrites s @ log_writes s @ [(log_start s, full_head s)] @ home_writes s @
        [(log_start s, put_head 0 (lh_block s) (full_head s))]"
    "disk s' = apply_writes (log_writes s @ [(log_start s, full_head s)] @ home_writes s @
        [(log_start s, put_head 0 (lh_block s) (full_head s))]) (disk s)"
    by (rule commit_spec [OF tx pos])
  have w: "dwrites s' = dwrites s @ commit_writes s" "disk s' = apply_writes (commit_writes s) (disk s)"
    using c(5,6) pos by (simp_all add: commit_writes_def)
  let ?k = "length (commit_writes s)"
  have k: "?k = 2 * nat (lh_n s) + 2"
    using pos length_logged [OF T(2)] by (simp add: commit_writes_def home_writes_def)
  have d: "disk s' = crash_disk ?k s" by (simp add: w crash_disk_def)
  have "disk s' b = view s b" if "b \<notin> log_area s" for b
    using crash_late(3) [OF tx pos, of ?k b] k crash_disk_other [OF tx that] at_rest_clean [OF T(1), of b] T(3) d
    by (cases "b \<in> set (logged s)") auto
  moreover have "le_int (slice_at 0 4 (disk s' (log_start s))) = 0"
    using crash_late(2) [OF tx pos, of ?k] k d full_head_disk_head(2) [OF tx] by (simp add: disk_head_def)
  ultimately show ?thesis using that [OF c(1-4) w] by blast
next
  case False
  note T = tx_readyD [OF tx]
  from False have n: "lh_n s = 0" using T(2) by (simp add: log_wf_def)
  then have "dirty s = {}" using T(3) by (simp add: logged_def)
  moreover have "s\<lparr>lh_n := lh_n s\<rparr> = s" by simp
  then have "bframe (s\<lparr>lh_n := 0\<rparr>) s" unfolding n by simp
  ultimately show ?thesis
    using T(1) n clear at_rest_clean [OF T(1)] by (intro that [of s]) (simp_all add: commit_def commit_writes_def)
qed

text \<open>A machine with 100 blocks, a log of 30 blocks at block 2.\<close>

definition bss_log :: "(nat \<Rightarrow> uchar list) \<Rightarrow> nat \<Rightarrow> log_state" where
  "bss_log d n = bio_state.extend (bss_bio d n) (log_state.fields 0 0 0 False 0 0 (replicate LOGSIZE 0))"

definition demo_disk :: "nat \<Rightarrow> uchar list" where
  "demo_disk b = (if b = 1 then concat (map (le_bytes 4) [100, 41, 200, 30, 2, 32, 58]) @ replicate 484 0
     else replicate BSIZE 0)"

lemmas bss_log_simps = bss_log_def log_state.defs bss_simps

lemma fresh_bss_log:
  assumes "\<And>b. b < n \<Longrightarrow> length (d b) = BSIZE"
  shows "fresh (binit (bss_log d n))" and "disk (binit (bss_log d n)) = d" and "disksize (binit (bss_log d n)) = n"
proof -
  have b: "bufs (bss_log d n) = replicate NBUF zero_buf" "disk (bss_log d n) = d" "disksize (bss_log d n) = n"
    "length (lh_block (bss_log d n)) = LOGSIZE"
    by (simp_all add: bss_log_simps)
  have r: "running (bss_log d n)" by (simp add: running_def cur_def bss_log_simps NPROC_def)
  have l: "\<And>b. b < disksize (bss_log d n) \<Longrightarrow> length (disk (bss_log d n) b) = BSIZE" using assms b by simp
  note B = binit_spec [OF b(1) r l]
  show "fresh (binit (bss_log d n))" using B(1,2) bframe_log(5) [OF B(3)] b by (simp add: fresh_def)
  show "disk (binit (bss_log d n)) = d" "disksize (binit (bss_log d n)) = n"
    using B(4) bframe_simps(1) [OF B(3)] b by simp_all
qed

end
