(* ===== verification/Transaction.thy ===== *)
theory Transaction
  imports Logging
begin

text \<open>
  File system operations inside a transaction. \<open>tx_inv k\<close> is the invariant between \<open>begin_op\<close> and
  \<open>end_op\<close> with room for \<open>k\<close> more logged blocks: the dirty buffers are exactly the blocks listed in the
  header in memory. \<open>log_write_spec\<close> describes \<open>log_write\<close>; the idiom of the file system, \<open>bread\<close>, change
  the data, \<open>log_write\<close>, \<open>brelse\<close>, is a store of blocks (\<open>block_store\<close>); a transaction is a group of such
  operations followed by \<open>end_op\<close>.
\<close>

section \<open>The invariant of a transaction\<close>

definition tx_inv :: "nat \<Rightarrow> 'a log_state_scheme \<Rightarrow> bool" where
  "tx_inv k s \<longleftrightarrow> bio_inv s \<and> log_wf s \<and> set (logged s) = dirty s \<and> distinct (logged s) \<and>
     1 \<le> log_outstanding s \<and> \<not> log_committing s \<and> lh_n s + int k < log_size s"

text \<open>What operations inside a transaction leave alone.\<close>

definition tcore :: "'a log_state_scheme \<Rightarrow> 'a log_state_scheme" where
  "tcore s = (bcore s)\<lparr>lh_n := 0, lh_block := []\<rparr>"

definition tframe :: "'a log_state_scheme \<Rightarrow> 'a log_state_scheme \<Rightarrow> bool" where
  "tframe s s' \<longleftrightarrow> tcore s' = tcore s \<and> map p_pid (ptable s') = map p_pid (ptable s)"

lemma tframe_refl [simp]: "tframe s s"
  by (simp add: tframe_def)

lemma tframe_trans [trans]: "tframe s t \<Longrightarrow> tframe t u \<Longrightarrow> tframe s u"
  by (simp add: tframe_def)

lemma bframe_tframe: "bframe s t \<Longrightarrow> tframe s t"
  by (simp add: tframe_def bframe_def tcore_def)

lemma tframe_simps:
  fixes s s' :: "'a log_state_scheme"
  assumes "tframe s s'"
  shows "log_start s' = log_start s" and "log_size s' = log_size s" and "log_dev s' = log_dev s"
    and "log_outstanding s' = log_outstanding s" and "log_committing s' = log_committing s"
    and "disksize s' = disksize s" and "log_area s' = log_area s"
proof -
  have "log_start (tcore t) = log_start t \<and> log_size (tcore t) = log_size t \<and> log_dev (tcore t) = log_dev t \<and>
      log_outstanding (tcore t) = log_outstanding t \<and> log_committing (tcore t) = log_committing t \<and>
      disksize (tcore t) = disksize t" for t :: "'a log_state_scheme"
    by (simp add: tcore_def bcore_def)
  with assms show 1: "log_start s' = log_start s" "log_size s' = log_size s" "log_dev s' = log_dev s"
    "log_outstanding s' = log_outstanding s" "log_committing s' = log_committing s" "disksize s' = disksize s"
    unfolding tframe_def by metis+
  show "log_area s' = log_area s" using 1 by (simp add: log_area_def)
qed

lemma tx_invD:
  assumes "tx_inv k s"
  shows "bio_inv s" and "log_wf s" and "set (logged s) = dirty s" and "distinct (logged s)" and "1 \<le> log_outstanding s"
    and "\<not> log_committing s" and "lh_n s + int k < log_size s" and "card (dirty s) = nat (lh_n s)"
    and "card (dirty s) + k < NBUF"
proof -
  show 1: "bio_inv s" "log_wf s" "set (logged s) = dirty s" "distinct (logged s)" "1 \<le> log_outstanding s"
    "\<not> log_committing s" "lh_n s + int k < log_size s"
    using assms by (auto simp: tx_inv_def)
  show c: "card (dirty s) = nat (lh_n s)"
    using distinct_card [OF 1(4)] length_logged [OF 1(2)] 1(3) by simp
  show "card (dirty s) + k < NBUF"
    using c 1(2,7) by (auto simp: log_wf_def LOGSIZE_def NBUF_def MAXOPBLOCKS_def)
qed

lemma tx_inv_mono: "tx_inv k s \<Longrightarrow> j \<le> k \<Longrightarrow> tx_inv j s"
  by (auto simp: tx_inv_def)

text \<open>Operations on the cache that do not change the set of dirty blocks keep the invariant.\<close>

lemma tx_inv_bframe:
  fixes s s' :: "'a log_state_scheme"
  assumes "tx_inv k s" and "bframe s s'" and "bio_inv s'" and "dirty s' = dirty s"
  shows "tx_inv k s'"
  using assms bframe_log [OF assms(2)] log_wf_bframe [OF assms(2)] by (simp add: tx_inv_def)

section \<open>Logging a block\<close>

lemma log_write_spec:
  fixes s :: "'a log_state_scheme"
  assumes tx: "tx_inv (Suc k) s" and h: "holds s i b" and b: "b < 2 ^ 32" "b \<notin> log_area s"
  obtains s' where "log_write i s = Ret s'" and "tx_inv k s'" and "view s' = view s" and "held s' = held s"
    and "dirty s' = insert b (dirty s)" and "disk s' = disk s" and "dwrites s' = dwrites s" and "tframe s s'"
    and "\<And>j c. holds s' j c \<longleftrightarrow> holds s j c"
proof -
  note T = tx_invD [OF tx]
  have bn: "b_blockno (bufs s ! i) = b" using h by (simp add: holds_def caches_def)
  have n: "0 \<le> lh_n s" "lh_n s + 1 < log_size s" "nat (lh_n s) < length (lh_block s)" "lh_n s < int LOGSIZE"
    using T(2,7) by (auto simp: log_wf_def)
  define bs where "bs = (if b \<in> set (logged s) then lh_block s else (lh_block s)[nat (lh_n s) := b])"
  define m where "m = (if b \<in> set (logged s) then lh_n s else lh_n s + 1)"
  let ?t = "s\<lparr>lh_block := bs, lh_n := m\<rparr>"
  have e: "log_write i s = Ret (upd_buf i (\<lambda>x. x\<lparr>b_dirty := True\<rparr>) ?t)"
  proof (cases "find_idx (\<lambda>x. x = b) (take (nat (lh_n s)) (lh_block s))")
    case None
    then have "b \<notin> set (logged s)" by (auto simp: logged_def find_idx_None_iff)
    with None n T(5) bn show ?thesis by (simp add: log_write_def bs_def m_def)
  next
    case (Some j)
    note S = find_idx_SomeD [OF Some]
    have j: "j < nat (lh_n s)" "lh_block s ! j = b" "b \<in> set (logged s)"
      using S(1,2) n(3) by (auto simp: logged_def in_set_conv_nth)
    then have "(lh_block s)[j := b] = lh_block s" "int j \<noteq> lh_n s" by auto
    with Some n T(5) bn j show ?thesis by (simp add: log_write_def bs_def m_def)
  qed
  have C: "bio_inv ?t = bio_inv s" "view ?t = view s" "held ?t = held s" "dirty ?t = dirty s" "holds ?t = holds s"
    by (rule cache_cong; simp)+
  let ?s = "upd_buf i (\<lambda>x. x\<lparr>b_dirty := True\<rparr>) ?t"
  note D = setdirty_spec [of ?t i b ?s, unfolded C, OF T(1) h refl]
  have lg: "logged ?s = (if b \<in> set (logged s) then logged s else logged s @ [b])"
  proof (cases "b \<in> set (logged s)")
    case False
    have "nat (lh_n s + 1) = Suc (nat (lh_n s))" using n(1) by simp
    with False n(3) show ?thesis by (simp add: logged_def upd_buf_def bs_def m_def take_Suc_conv_app_nth)
  qed (simp add: logged_def upd_buf_def bs_def m_def)
  have f: "log_area ?s = log_area s" "log_size ?s = log_size s" "log_start ?s = log_start s" "log_dev ?s = log_dev s"
    "length (lh_block ?s) = length (lh_block s)" "disksize ?s = disksize s" "lh_n ?s = m"
    "log_outstanding ?s = log_outstanding s" "log_committing ?s = log_committing s"
    by (simp_all add: upd_buf_def log_area_def bs_def)
  have bd: "b < disksize s" using holds_data(2) [OF T(1) h] .
  have wf: "log_wf ?s"
    using T(2) n(1,2) b bd unfolding log_wf_def lg f by (auto simp: m_def)
  have "tx_inv k ?s"
    unfolding tx_inv_def f lg D(4) using D(1) wf T(3-7) by (auto simp: m_def)
  moreover have "tframe s ?s"
    using bframe_tframe [OF D(7)] by (simp add: tframe_def tcore_def bcore_def upd_buf_def)
  ultimately show ?thesis
    by (intro that [OF e]) (use D in \<open>auto simp: upd_buf_def\<close>)
qed

section \<open>Reading and changing a block\<close>

lemma tx_room:
  assumes "tx_inv k s" and "card (held s) \<le> k"
  shows "card (held s \<union> dirty s) < NBUF"
proof -
  have "card (held s \<union> dirty s) \<le> card (held s) + card (dirty s)" by (rule card_Un_le)
  with tx_invD(9) [OF assms(1)] assms(2) show ?thesis by linarith
qed

text \<open>Reading a block: the state while its buffer is held, and after it is released.\<close>

lemma tx_bread_spec:
  fixes s :: "'a log_state_scheme"
  assumes tx: "tx_inv k s" and b: "b < disksize s" "b \<notin> held s" and room: "card (held s) \<le> k"
  obtains i s' where "bread 1 b s = Ret (i, s')" and "tx_inv k s'" and "holds s' i b" and "b_data (bufs s' ! i) = view s b"
    and "view s' = view s" and "held s' = insert b (held s)" and "dirty s' = dirty s" and "disk s' = disk s"
    and "dwrites s' = dwrites s" and "tframe s s'" and "\<And>j c. holds s j c \<Longrightarrow> holds s' j c \<and> j \<noteq> i"
proof -
  note T = tx_invD [OF tx]
  obtain i s' where 1: "bread 1 b s = Ret (i, s')" "bio_inv s'" "holds s' i b" "view s' = view s"
    "held s' = insert b (held s)" "dirty s' = dirty s" "disk s' = disk s" "dwrites s' = dwrites s" "bframe s s'"
    "\<And>j c. holds s j c \<Longrightarrow> holds s' j c \<and> j \<noteq> i"
    by (rule bread_spec [OF T(1) b]) (use tx_room [OF tx room] in blast)+
  show ?thesis
    by (rule that [OF 1(1) tx_inv_bframe [OF tx 1(9,2,6)] 1(3)])
      (use 1 holds_data(1) [OF 1(2,3)] bframe_tframe [OF 1(9)] in auto)
qed

lemma tx_brelse_spec:
  fixes s :: "'a log_state_scheme"
  assumes tx: "tx_inv k s" and h: "holds s i b" and cl: "b \<in> dirty s \<or> view s b = disk s b"
  obtains s' where "brelse i s = Ret s'" and "tx_inv k s'" and "view s' = view s" and "held s' = held s - {b}"
    and "dirty s' = dirty s" and "disk s' = disk s" and "dwrites s' = dwrites s" and "tframe s s'"
    and "\<And>j c. holds s' j c \<longleftrightarrow> holds s j c \<and> j \<noteq> i"
proof -
  obtain s' where 1: "brelse i s = Ret s'" "bio_inv s'" "view s' = view s" "held s' = held s - {b}"
    "dirty s' = dirty s" "disk s' = disk s" "dwrites s' = dwrites s" "bframe s s'"
    "\<And>j c. holds s' j c \<longleftrightarrow> holds s j c \<and> j \<noteq> i"
    by (rule brelse_spec [OF tx_invD(1) [OF tx] h cl]) blast
  show ?thesis
    by (rule that [OF 1(1) tx_inv_bframe [OF tx 1(8,2,5)]]) (use 1 bframe_tframe [OF 1(8)] in auto)
qed

lemma tx_setdata_spec:
  fixes s :: "'a log_state_scheme"
  assumes tx: "tx_inv k s" and h: "holds s i b" and l: "length d = BSIZE"
    and s': "s' = upd_buf i (\<lambda>x. x\<lparr>b_data := d\<rparr>) s"
  shows "tx_inv k s'" and "view s' = (view s)(b := d)" and "held s' = held s" and "dirty s' = dirty s"
    and "disk s' = disk s" and "dwrites s' = dwrites s" and "tframe s s'" and "holds s' j c \<longleftrightarrow> holds s j c"
proof -
  note D = setdata_spec [OF tx_invD(1) [OF tx] h l s']
  show "tx_inv k s'" by (rule tx_inv_bframe [OF tx D(7,1,4)])
  show "view s' = (view s)(b := d)" and "held s' = held s" and "dirty s' = dirty s"
    and "disk s' = disk s" and "dwrites s' = dwrites s" and "tframe s s'" and "holds s' j c \<longleftrightarrow> holds s j c"
    by (rule D bframe_tframe [OF D(7)])+
qed

lemma tx_read_spec:
  fixes s :: "'a log_state_scheme"
  assumes tx: "tx_inv k s" and b: "b < disksize s" "b \<notin> held s" and room: "card (held s) \<le> k"
  obtains i s1 s2 where "bread 1 b s = Ret (i, s1)" and "b_data (bufs s1 ! i) = view s b" and "brelse i s1 = Ret s2"
    and "tx_inv k s2" and "view s2 = view s" and "held s2 = held s" and "dirty s2 = dirty s" and "disk s2 = disk s"
    and "dwrites s2 = dwrites s" and "tframe s s1" and "tframe s1 s2" and "\<And>j c. holds s j c \<Longrightarrow> holds s2 j c"
proof -
  obtain i s1 where 1: "bread 1 b s = Ret (i, s1)" "tx_inv k s1" "holds s1 i b" "b_data (bufs s1 ! i) = view s b"
    "view s1 = view s" "held s1 = insert b (held s)" "dirty s1 = dirty s" "disk s1 = disk s" "dwrites s1 = dwrites s"
    "tframe s s1" "\<And>j c. holds s j c \<Longrightarrow> holds s1 j c \<and> j \<noteq> i"
    by (rule tx_bread_spec [OF tx b room]) blast
  have "b \<in> dirty s1 \<or> view s1 b = disk s1 b"
    using unheld_clean [OF tx_invD(1) [OF tx] b(2)] 1 by auto
  then obtain s2 where 2: "brelse i s1 = Ret s2" "tx_inv k s2" "view s2 = view s1" "held s2 = held s1 - {b}"
    "dirty s2 = dirty s1" "disk s2 = disk s1" "dwrites s2 = dwrites s1" "tframe s1 s2"
    "\<And>j c. holds s2 j c \<longleftrightarrow> holds s1 j c \<and> j \<noteq> i"
    by (rule tx_brelse_spec [OF 1(2,3)]) blast
  show ?thesis
    by (rule that [OF 1(1,4) 2(1,2)]) (use 1 2 b in auto)
qed

lemma tx_update_spec:
  fixes s :: "'a log_state_scheme"
  assumes tx: "tx_inv (Suc k) s" and b: "b < disksize s" "b \<notin> held s" "b < 2 ^ 32" "b \<notin> log_area s"
    and room: "card (held s) \<le> k" and l: "length (g (view s b)) = BSIZE"
  obtains i s1 s2 s3 where "bread 1 b s = Ret (i, s1)" and "b_data (bufs s1 ! i) = view s b"
    and "log_write i (upd_buf i (\<lambda>x. x\<lparr>b_data := g (b_data x)\<rparr>) s1) = Ret s2" and "brelse i s2 = Ret s3"
    and "tx_inv k s3" and "view s3 = (view s)(b := g (view s b))" and "held s3 = held s" and "dirty s3 = insert b (dirty s)"
    and "disk s3 = disk s" and "dwrites s3 = dwrites s" and "tframe s s1" and "tframe s1 s3"
    and "\<And>j c. holds s j c \<Longrightarrow> holds s3 j c"
proof -
  obtain i s1 where 1: "bread 1 b s = Ret (i, s1)" "tx_inv (Suc k) s1" "holds s1 i b" "b_data (bufs s1 ! i) = view s b"
    "view s1 = view s" "held s1 = insert b (held s)" "dirty s1 = dirty s" "disk s1 = disk s" "dwrites s1 = dwrites s"
    "tframe s s1" "\<And>j c. holds s j c \<Longrightarrow> holds s1 j c \<and> j \<noteq> i"
    by (rule tx_bread_spec [OF tx b(1,2)]) (use room in auto)
  let ?s = "upd_buf i (\<lambda>x. x\<lparr>b_data := g (b_data x)\<rparr>) s1"
  have e: "?s = upd_buf i (\<lambda>x. x\<lparr>b_data := g (view s b)\<rparr>) s1" by (simp add: upd_buf_def 1(4))
  note 2 = tx_setdata_spec [OF 1(2,3) l e]
  have h2: "holds ?s i b" using 2(8) 1(3) by simp
  have la: "b \<notin> log_area ?s" using b(4) tframe_simps(7) [OF 2(7)] tframe_simps(7) [OF 1(10)] by simp
  obtain s2 where 3: "log_write i ?s = Ret s2" "tx_inv k s2" "view s2 = view ?s" "held s2 = held ?s"
    "dirty s2 = insert b (dirty ?s)" "disk s2 = disk ?s" "dwrites s2 = dwrites ?s" "tframe ?s s2"
    "\<And>j c. holds s2 j c \<longleftrightarrow> holds ?s j c"
    by (rule log_write_spec [OF 2(1) h2 b(3) la]) blast
  have h3: "holds s2 i b" using 3(9) h2 by simp
  obtain s3 where 4: "brelse i s2 = Ret s3" "tx_inv k s3" "view s3 = view s2" "held s3 = held s2 - {b}"
    "dirty s3 = dirty s2" "disk s3 = disk s2" "dwrites s3 = dwrites s2" "tframe s2 s3"
    "\<And>j c. holds s3 j c \<longleftrightarrow> holds s2 j c \<and> j \<noteq> i"
    by (rule tx_brelse_spec [OF 3(2) h3]) (use 3 in auto)
  show ?thesis
  proof (rule that [OF 1(1,4) 3(1) 4(1,2)])
    show "tframe s1 s3" using 2(7) 3(8) 4(8) by (blast intro: tframe_trans)
    show "\<And>j c. holds s j c \<Longrightarrow> holds s3 j c" using 1(11) 2(8) 3(9) 4(9) by blast
  qed (use 1 2 3 4 b in auto)
qed

section \<open>A transaction\<close>

text \<open>The idiom of the file system for changing a block.\<close>

definition log_block :: "nat \<Rightarrow> uchar list \<Rightarrow> 'a log_state_scheme \<Rightarrow> 'a log_state_scheme res" where
  "log_block b d s =
     bnd (bread 1 b s) (\<lambda>(i, s). bnd (log_write i (upd_buf i (\<lambda>x. x\<lparr>b_data := d\<rparr>) s)) (brelse i))"

definition tx_usable :: "'a log_state_scheme \<Rightarrow> nat \<Rightarrow> bool" where
  "tx_usable s b \<longleftrightarrow> b < disksize s \<and> b < 2 ^ 32 \<and> b \<notin> log_area s \<and> b \<noteq> 1"

lemma tx_usable_tframe: "tframe s s' \<Longrightarrow> tx_usable s' = tx_usable s"
  by (simp add: tx_usable_def tframe_simps fun_eq_iff)

definition tx_base :: "'a log_state_scheme \<Rightarrow> 'a log_state_scheme \<Rightarrow> bool" where
  "tx_base s0 s \<longleftrightarrow> held s = {} \<and> disk s = disk s0 \<and> dwrites s = dwrites s0 \<and> tframe s0 s \<and> 1 \<notin> dirty s"

interpretation tx_store: block_store get_block log_block view "\<lambda>n s. tx_inv n s \<and> tx_base s0 s" tx_usable
  for s0 :: "'a log_state_scheme"
proof
  fix n and s :: "'a log_state_scheme" and b
  assume a: "tx_inv n s \<and> tx_base s0 s" and b: "tx_usable s b"
  obtain i s1 s2 where 1: "bread 1 b s = Ret (i, s1)" "b_data (bufs s1 ! i) = view s b" "brelse i s1 = Ret s2"
    "tx_inv n s2" "view s2 = view s" "held s2 = held s" "dirty s2 = dirty s" "disk s2 = disk s"
    "dwrites s2 = dwrites s" "tframe s s1" "tframe s1 s2"
    by (rule tx_read_spec [of n s b]) (use a b in \<open>auto simp: tx_base_def tx_usable_def\<close>)
  have f: "tframe s s2" using 1(10,11) by (rule tframe_trans)
  have "tx_base s0 s2" using a 1(6-9) f by (auto simp: tx_base_def intro: tframe_trans)
  then show "\<exists>s'. get_block b s = Ret (view s b, s') \<and> (tx_inv n s' \<and> tx_base s0 s') \<and> view s' = view s \<and>
      tx_usable s' = tx_usable s"
    using 1 tx_usable_tframe [OF f] by (simp add: get_block_def)
next
  fix n and s :: "'a log_state_scheme" and b and d :: "uchar list"
  assume a: "tx_inv (Suc n) s \<and> tx_base s0 s" and b: "tx_usable s b" and l: "length d = BSIZE"
  obtain i s1 s2 s3 where 1: "bread 1 b s = Ret (i, s1)" "log_write i (upd_buf i (\<lambda>x. x\<lparr>b_data := d\<rparr>) s1) = Ret s2"
    "brelse i s2 = Ret s3" "tx_inv n s3" "view s3 = (view s)(b := d)" "held s3 = held s" "dirty s3 = insert b (dirty s)"
    "disk s3 = disk s" "dwrites s3 = dwrites s" "tframe s s1" "tframe s1 s3"
    by (rule tx_update_spec [of n s b "\<lambda>_. d"]) (use a b l in \<open>auto simp: tx_base_def tx_usable_def\<close>)
  have f: "tframe s s3" using 1(10,11) by (rule tframe_trans)
  have "tx_base s0 s3" using a b 1(6-9) f by (auto simp: tx_base_def tx_usable_def intro: tframe_trans)
  then show "\<exists>s'. log_block b d s = Ret s' \<and> (tx_inv n s' \<and> tx_base s0 s') \<and> view s' = (view s)(b := d) \<and>
      tx_usable s' = tx_usable s"
    using 1 tx_usable_tframe [OF f] by (simp add: log_block_def)
qed

text \<open>The state between transactions: nothing is dirty, the log is empty in memory and on disk, and the
  super block describes the log.\<close>

definition quiet :: "'a log_state_scheme \<Rightarrow> bool" where
  "quiet s \<longleftrightarrow> at_rest s \<and> dirty s = {} \<and> log_wf s \<and> lh_n s = 0 \<and> log_outstanding s = 0 \<and> \<not> log_committing s \<and>
     int MAXOPBLOCKS < log_size s \<and> le_int (slice_at 0 4 (disk s (log_start s))) = 0 \<and>
     sb_logstart (superblock_of (disk s 1)) = log_start s \<and> int (sb_nlog (superblock_of (disk s 1))) = log_size s \<and>
     1 \<notin> log_area s \<and> 1 < disksize s"

lemma begin_op_quiet:
  assumes "quiet s"
  obtains s1 where "begin_op s = Ret s1" and "s1 = s\<lparr>log_outstanding := 1\<rparr>" and "tx_inv MAXOPBLOCKS s1"
    and "held s1 = {}" and "view s1 = disk s" and "tx_usable s1 = tx_usable s" and "1 \<notin> dirty s1"
proof -
  let ?s = "s\<lparr>log_outstanding := 1\<rparr>"
  have C: "bio_inv ?s = bio_inv s" "view ?s = view s" "held ?s = held s" "dirty ?s = dirty s"
    by (rule cache_cong; simp)+
  have "logged s = []" using assms by (simp add: quiet_def logged_def)
  then have "tx_inv MAXOPBLOCKS ?s"
    using assms C by (auto simp: tx_inv_def quiet_def at_rest_def log_wf_def logged_def log_area_def)
  moreover have "view ?s = disk s" using C(2) at_rest_clean [of s] assms by (auto simp: quiet_def)
  ultimately show ?thesis
    using assms C by (intro that [of ?s])
      (auto simp: begin_op_def quiet_def at_rest_def LOGSIZE_def tx_usable_def log_area_def fun_eq_iff)
qed

lemma end_op_spec:
  fixes s0 s :: "'a log_state_scheme"
  assumes q: "quiet s0" and tx: "tx_inv 0 s" and b: "tx_base (s0\<lparr>log_outstanding := 1\<rparr>) s"
  obtains s' and u :: "'a log_state_scheme" where "end_op s = Ret s'" and "quiet s'" and "\<And>b. b \<notin> log_area s0 \<Longrightarrow> disk s' b = view s b"
    and "tx_ready u" and "disk u = disk s0" and "log_start u = log_start s0" and "log_size u = log_size s0"
    and "disksize u = disksize s0" and "view u = view s" and "1 \<notin> dirty u"
    and "dwrites s' = dwrites s0 @ commit_writes u"
proof -
  note T = tx_invD [OF tx]
  have tf: "tframe (s0\<lparr>log_outstanding := 1\<rparr>) s" and hd: "held s = {}" "disk s = disk s0" "dwrites s = dwrites s0" "1 \<notin> dirty s"
    using b by (auto simp: tx_base_def)
  note F = tframe_simps [OF tf, simplified]
  have la: "log_area s = log_area s0" using F(1,2) by (simp add: log_area_def)
  let ?u = "s\<lparr>log_outstanding := 0, log_committing := True\<rparr>"
  have C: "bio_inv ?u = bio_inv s" "view ?u = view s" "held ?u = held s" "dirty ?u = dirty s" "at_rest ?u = at_rest s"
    by (rule cache_cong; simp)+
  have u: "tx_ready ?u"
    using T C hd tx_invD(9) [OF tx] by (auto simp: tx_ready_def at_rest_def log_wf_def logged_def log_area_def)
  have uf: "log_start ?u = log_start s0" "log_size ?u = log_size s0" "disksize ?u = disksize s0" "disk ?u = disk s0"
    "log_area ?u = log_area s0" "dwrites ?u = dwrites s0"
    using F hd by (simp_all add: log_area_def)
  have clr: "le_int (slice_at 0 4 (disk ?u (log_start ?u))) = 0" using q uf by (simp add: quiet_def)
  obtain s1 where 1: "commit ?u = Ret s1" "at_rest s1" "dirty s1 = {}" "bframe (?u\<lparr>lh_n := 0\<rparr>) s1"
    "dwrites s1 = dwrites ?u @ commit_writes ?u" "\<And>b. b \<notin> log_area ?u \<Longrightarrow> disk s1 b = view ?u b"
    "le_int (slice_at 0 4 (disk s1 (log_start ?u))) = 0"
    by (rule commit_effect [OF u clr]) blast
  note f1 = bframe_log [OF 1(4), simplified] bframe_simps(1) [OF 1(4), simplified]
  let ?s = "wakeup ChanLog (s1\<lparr>log_committing := False\<rparr>)"
  have bf: "bframe (s1\<lparr>log_committing := False\<rparr>) ?s" by (simp add: bframe_def)
  note f2 = bframe_log [OF bf, simplified, unfolded f1] bframe_simps(1) [OF bf, simplified, unfolded f1]
  have "at_rest (s1\<lparr>log_committing := False\<rparr>) = at_rest s1" "dirty (s1\<lparr>log_committing := False\<rparr>) = dirty s1"
    by (rule cache_cong; simp)+
  then have r: "at_rest ?s" "dirty ?s = {}"
    using cache_wakeup(3,5) [where c = ChanLog and s = "s1\<lparr>log_committing := False\<rparr>"] 1(2,3) by simp_all
  have d1: "disk s1 1 = disk s0 1"
    using 1(6) [of 1] q uf(5) unheld_clean [OF T(1), of 1] hd C(2) by (auto simp: quiet_def)
  have "quiet ?s"
    using q r f2 uf F d1 1(7) T(2) by (auto simp: quiet_def log_wf_def logged_def log_area_def)
  moreover have "end_op s = Ret ?s"
    using T(5,6) F(4) 1(1) by (simp add: end_op_def)
  ultimately show ?thesis
    using u uf C hd 1(5,6) by (intro that [of ?s ?u]) simp_all
qed

text \<open>C2. A transaction is atomic. From a state between transactions, \<open>begin_op\<close> admits an operation; any
  sequence of at most \<open>MAXOPBLOCKS\<close> block changes through \<open>log_write\<close>, with reads between them, reads its own
  writes; \<open>end_op\<close> commits and leaves the log empty, with exactly these changes on the disk. If the machine
  stops after \<open>k\<close> of the block writes this takes and reboots, \<open>initlog\<close> returns with an empty log; there is
  a point \<open>c\<close> such that none of the changes is then on the disk if \<open>k \<le> c\<close>, and all of them if \<open>k > c\<close>.\<close>

theorem transaction_atomic:
  fixes s :: "'a log_state_scheme"
  assumes q: "quiet s" and ps: "list_all (bop_ok (tx_usable s)) ps" and w: "writes_in ps \<le> MAXOPBLOCKS"
  shows "\<exists>s1 s2 s' ws c. begin_op s = Ret s1 \<and>
    run_bops get_block log_block ps s1 = Ret (fst (spec_bops ps (disk s)), s2) \<and> end_op s2 = Ret s' \<and> quiet s' \<and>
    (\<forall>b. b \<notin> log_area s \<longrightarrow> disk s' b = snd (spec_bops ps (disk s)) b) \<and> dwrites s' = dwrites s @ ws \<and>
    (\<forall>k (t :: 'a log_state_scheme). fresh t \<and> disksize t = disksize s \<and> disk t = apply_writes (take k ws) (disk s) \<longrightarrow>
      (\<exists>t'. initlog 1 t = Ret t' \<and> at_rest t' \<and> lh_n t' = 0 \<and>
        (\<forall>b. b \<notin> log_area s \<longrightarrow> disk t' b = (if k \<le> c then disk s b else snd (spec_bops ps (disk s)) b))))"
proof -
  obtain s1 where 1: "begin_op s = Ret s1" "s1 = s\<lparr>log_outstanding := 1\<rparr>" "tx_inv MAXOPBLOCKS s1" "held s1 = {}"
    "view s1 = disk s" "tx_usable s1 = tx_usable s" "1 \<notin> dirty s1"
    by (rule begin_op_quiet [OF q]) blast
  have "tx_inv (0 + writes_in ps) s1" using tx_inv_mono [OF 1(3)] w by simp
  moreover have "tx_base s1 s1" using 1(4,7) by (simp add: tx_base_def)
  ultimately obtain s2 where 2: "run_bops get_block log_block ps s1 = Ret (fst (spec_bops ps (disk s)), s2)"
    "tx_inv 0 s2" "tx_base s1 s2" "view s2 = snd (spec_bops ps (disk s))"
    using tx_store.run_refines [of 0 ps s1 s1] ps 1(5,6) by auto
  obtain s' and u :: "'a log_state_scheme" where 3: "end_op s2 = Ret s'" "quiet s'" "\<And>b. b \<notin> log_area s \<Longrightarrow> disk s' b = view s2 b"
    "tx_ready u" "disk u = disk s" "log_start u = log_start s" "log_size u = log_size s"
    "disksize u = disksize s" "view u = view s2" "1 \<notin> dirty u" "dwrites s' = dwrites s @ commit_writes u"
    by (rule end_op_spec [OF q 2(2) 2(3) [unfolded 1(2)]]) blast
  have la: "log_area u = log_area s" using 3(6,7) by (simp add: log_area_def)
  have "\<exists>t'. initlog 1 t = Ret t' \<and> at_rest t' \<and> lh_n t' = 0 \<and>
      (\<forall>b. b \<notin> log_area s \<longrightarrow> disk t' b = (if k \<le> nat (lh_n u) then disk s b else view s2 b))"
    if t: "fresh t" "disksize t = disksize s" "disk t = apply_writes (take k (commit_writes u)) (disk s)"
    for k and t :: "'a log_state_scheme"
  proof -
    have "\<exists>t'. initlog 1 t = Ret t' \<and> at_rest t' \<and> log_wf t' \<and> lh_n t' = 0 \<and>
        (\<forall>b. b \<notin> log_area u \<longrightarrow> disk t' b = (if k \<le> nat (lh_n u) then disk u b else view u b))"
      by (rule crash_recovers [OF 3(4)]) (use q t 3 la in \<open>auto simp: quiet_def crash_disk_def\<close>)
    then show ?thesis unfolding la 3(5,9) by blast
  qed
  with 1(1) 2(1) 3(1-3,11) show ?thesis unfolding 2(4) by blast
qed

definition idle_log :: log_state where
  "idle_log = (binit (bss_log demo_disk 100))\<lparr>log_start := 2, log_size := 30, log_dev := 1\<rparr>"

lemma quiet_idle_log: "quiet idle_log" "disk idle_log = demo_disk" "log_area idle_log = {2..<32}" "disksize idle_log = 100"
proof -
  have l: "\<And>b. b < 100 \<Longrightarrow> length (demo_disk b) = BSIZE" by (simp add: demo_disk_def BSIZE_def)
  note F = fresh_bss_log [OF l]
  note R = fresh_at_rest [OF F(1)]
  have C: "at_rest idle_log = at_rest (binit (bss_log demo_disk 100))" "dirty idle_log = dirty (binit (bss_log demo_disk 100))"
    unfolding idle_log_def by (rule cache_cong; simp)+
  have b: "bufs (bss_log demo_disk 100) = replicate NBUF zero_buf" "running (bss_log demo_disk 100)"
    by (simp_all add: running_def cur_def bss_log_simps NPROC_def)
  have ld: "\<And>b. b < disksize (bss_log demo_disk 100) \<Longrightarrow> length (disk (bss_log demo_disk 100) b) = BSIZE"
    using l by (simp add: bss_log_simps)
  note f = bframe_log [OF binit_spec(3) [OF b ld]]
  show d: "disk idle_log = demo_disk" "disksize idle_log = 100" using F(2,3) by (simp_all add: idle_log_def)
  show la: "log_area idle_log = {2..<32}" by (auto simp: log_area_def idle_log_def)
  have h: "lh_n idle_log = 0" "log_outstanding idle_log = 0" "\<not> log_committing idle_log" "length (lh_block idle_log) = LOGSIZE"
    "log_dev idle_log = 1" "log_size idle_log = 30" "log_start idle_log = 2"
    using f by (simp_all add: idle_log_def bss_log_simps)
  have wf: "log_wf idle_log" using h d by (simp add: log_wf_def logged_def LOGSIZE_def MAXOPBLOCKS_def)
  have sb: "sb_logstart (superblock_of (demo_disk 1)) = 2" "sb_nlog (superblock_of (demo_disk 1)) = 30"
    "le_int (slice_at 0 4 (demo_disk 2)) = 0"
    by code_simp+
  show "quiet idle_log"
    using R(1,2) C h d la wf sb by (simp add: quiet_def MAXOPBLOCKS_def)
qed

theorem transaction_atomic_witness:
  "\<exists>s1 s2 s' t'. begin_op idle_log = Ret s1 \<and>
    run_bops get_block log_block [Rd 60, Wr 60 (replicate BSIZE 7), Wr 61 (replicate BSIZE 8), Rd 60] s1 =
      Ret ([replicate BSIZE 0, replicate BSIZE 7], s2) \<and> end_op s2 = Ret s' \<and>
    disk s' 60 = replicate BSIZE 7 \<and> disk s' 61 = replicate BSIZE 8 \<and>
    initlog 1 (binit (bss_log demo_disk 100)) = Ret t' \<and> disk t' 60 = replicate BSIZE 0"
proof -
  note Q = quiet_idle_log
  let ?ps = "[Rd 60, Wr 60 (replicate BSIZE 7), Wr 61 (replicate BSIZE 8), Rd 60]"
  have u: "list_all (bop_ok (tx_usable idle_log)) ?ps" by (simp add: tx_usable_def Q)
  have w: "writes_in ?ps \<le> MAXOPBLOCKS" by (simp add: MAXOPBLOCKS_def)
  have dd: "demo_disk 60 = replicate BSIZE 0" by (simp add: demo_disk_def)
  obtain s1 s2 s' ws c where T: "begin_op idle_log = Ret s1"
    "run_bops get_block log_block ?ps s1 = Ret (fst (spec_bops ?ps (disk idle_log)), s2)" "end_op s2 = Ret s'"
    "\<forall>b. b \<notin> log_area idle_log \<longrightarrow> disk s' b = snd (spec_bops ?ps (disk idle_log)) b"
    "\<forall>k (t :: log_state). fresh t \<and> disksize t = disksize idle_log \<and> disk t = apply_writes (take k ws) (disk idle_log) \<longrightarrow>
      (\<exists>t'. initlog 1 t = Ret t' \<and> at_rest t' \<and> lh_n t' = 0 \<and>
        (\<forall>b. b \<notin> log_area idle_log \<longrightarrow> disk t' b = (if k \<le> c then disk idle_log b else snd (spec_bops ?ps (disk idle_log)) b)))"
    using transaction_atomic [OF Q(1) u w] by blast
  have l: "\<And>b. b < 100 \<Longrightarrow> length (demo_disk b) = BSIZE" by (simp add: demo_disk_def BSIZE_def)
  note F = fresh_bss_log [OF l]
  have "\<exists>t'. initlog 1 (binit (bss_log demo_disk 100)) = Ret t' \<and> disk t' 60 = replicate BSIZE 0"
    using T(5) [rule_format, of "binit (bss_log demo_disk 100)" 0] F Q dd by auto
  moreover have "disk s' 60 = replicate BSIZE 7" "disk s' 61 = replicate BSIZE 8" using T(4) Q(3) by simp_all
  ultimately show ?thesis using T(1-3) Q(2) dd by auto
qed

section \<open>The size of the log\<close>

lemma log_blocks_spec:
  fixes s :: "'a log_state_scheme"
  assumes "tx_inv (length bs + k) s" and "held s = {}" and "\<And>b. b \<in> set bs \<Longrightarrow> tx_usable s b" and "length d = BSIZE"
  shows "\<exists>s'. run_bops get_block log_block (map (\<lambda>b. Wr b d) bs) s = Ret ([], s') \<and> tx_inv k s' \<and> held s' = {} \<and>
    dirty s' = dirty s \<union> set bs \<and> tframe s s' \<and> view s' = (\<lambda>b. if b \<in> set bs then d else view s b)"
  using assms
proof (induction bs arbitrary: s)
  case (Cons b bs)
  obtain i s1 s2 s3 where 1: "bread 1 b s = Ret (i, s1)" "log_write i (upd_buf i (\<lambda>x. x\<lparr>b_data := d\<rparr>) s1) = Ret s2"
    "brelse i s2 = Ret s3" "tx_inv (length bs + k) s3" "held s3 = held s" "dirty s3 = insert b (dirty s)"
    "tframe s s1" "tframe s1 s3" "view s3 = (view s)(b := d)"
    by (rule tx_update_spec [of "length bs + k" s b "\<lambda>_. d"]) (use Cons.prems in \<open>auto simp: tx_usable_def\<close>)
  have f: "tframe s s3" using 1(7,8) by (rule tframe_trans)
  obtain s' where 2: "run_bops get_block log_block (map (\<lambda>b. Wr b d) bs) s3 = Ret ([], s')" "tx_inv k s'" "held s' = {}"
    "dirty s' = dirty s3 \<union> set bs" "tframe s3 s'" "view s' = (\<lambda>b. if b \<in> set bs then d else view s3 b)"
    using Cons.IH [of s3] Cons.prems 1(4,5) tx_usable_tframe [OF f] by auto
  have "log_block b d s = Ret s3" using 1(1-3) by (simp add: log_block_def)
  moreover have "view s' = (\<lambda>x. if x \<in> set (b # bs) then d else view s x)" using 2(6) 1(9) by (auto simp: fun_eq_iff)
  ultimately show ?case using 2(1-4) 1(6) tframe_trans [OF f 2(5)] by auto
qed simp

lemma log_write_full:
  assumes "lh_n s \<ge> log_size s - 1"
  shows "log_write i s = Panic ''too big a transaction''"
  using assms by (simp add: log_write_def)

text \<open>C8. The reservation of \<open>begin_op\<close> is one block too generous for \<open>log_write\<close>. On a disk whose log has the \<open>LOGSIZE\<close>
  blocks that \<open>mkfs\<close> gives it, \<open>begin_op\<close> admits three operations at once and lets a fourth wait. When the three log
  \<open>MAXOPBLOCKS\<close> distinct blocks each, as they may, all but the last of these writes succeed and are recorded, which fills
  the log to \<open>LOGSIZE - 1\<close> blocks, and the last \<open>log_write\<close> panics.\<close>

theorem log_overflow_admitted:
  fixes s :: "'a log_state_scheme"
  assumes q: "quiet s" and size: "log_size s = int LOGSIZE" and bs: "\<And>b. b \<in> set bs \<Longrightarrow> tx_usable s b" "distinct bs"
      "length bs = 3 * MAXOPBLOCKS" and d: "length d = BSIZE"
  shows "\<exists>s3 s' i s''. bnd (bnd (begin_op s) begin_op) begin_op = Ret s3 \<and> begin_op s3 = Sleep ChanLog \<and>
    run_bops get_block log_block (map (\<lambda>b. Wr b d) (butlast bs)) s3 = Ret ([], s') \<and> lh_n s' = int LOGSIZE - 1 \<and>
    set (logged s') = set (butlast bs) \<and> (\<forall>b \<in> set (butlast bs). view s' b = d) \<and>
    bread 1 (last bs) s' = Ret (i, s'') \<and>
    log_write i (upd_buf i (\<lambda>x. x\<lparr>b_data := d\<rparr>) s'') = Panic ''too big a transaction''"
proof -
  let ?s = "s\<lparr>log_outstanding := 3\<rparr>"
  have C: "bio_inv ?s = bio_inv s" "view ?s = view s" "held ?s = held s" "dirty ?s = dirty s"
    by (rule cache_cong; simp)+
  have lg: "logged s = []" using q by (simp add: quiet_def logged_def)
  have tx: "tx_inv 29 ?s"
    using q C lg size by (auto simp: tx_inv_def quiet_def at_rest_def log_wf_def logged_def log_area_def LOGSIZE_def MAXOPBLOCKS_def)
  have b: "bnd (bnd (begin_op s) begin_op) begin_op = Ret ?s"
    using q by (simp add: begin_op_def quiet_def LOGSIZE_def MAXOPBLOCKS_def)
  have w: "begin_op ?s = Sleep ChanLog" using q by (simp add: begin_op_def quiet_def LOGSIZE_def MAXOPBLOCKS_def)
  let ?cs = "butlast bs" and ?c = "last bs"
  have ne: "bs \<noteq> []" using bs(3) by (auto simp: MAXOPBLOCKS_def)
  have cs: "length ?cs = 29" "set ?cs \<subseteq> set bs" "?c \<in> set bs"
    using bs(3) last_in_set [OF ne] by (auto simp: MAXOPBLOCKS_def dest: in_set_butlastD)
  have us: "tx_usable ?s x" if "x \<in> set bs" for x using bs(1) [OF that] by (simp add: tx_usable_def log_area_def)
  obtain s' where 1: "run_bops get_block log_block (map (\<lambda>b. Wr b d) ?cs) ?s = Ret ([], s')" "tx_inv 0 s'" "held s' = {}"
    "dirty s' = dirty ?s \<union> set ?cs" "tframe ?s s'" "view s' = (\<lambda>b. if b \<in> set ?cs then d else view ?s b)"
    using log_blocks_spec [of ?cs 0 ?s d] tx cs us C q d by (auto simp: quiet_def at_rest_def)
  have dr: "dirty s' = set ?cs" using 1(4) C q by (simp add: quiet_def)
  then have "card (dirty s') = 29" using cs(1) distinct_card [of ?cs] distinct_butlast [OF bs(2)] by simp
  then have n: "lh_n s' = 29" using tx_invD(2,8) [OF 1(2)] by (auto simp: log_wf_def)
  obtain i s'' where 2: "bread 1 ?c s' = Ret (i, s'')" "tframe s' s''" "lh_n s'' = lh_n s'"
  proof -
    obtain i s'' where "bread 1 ?c s' = Ret (i, s'')" "bframe s' s''"
      by (rule bread_spec [OF tx_invD(1) [OF 1(2)], of ?c])
        (use 1(3) us [OF cs(3)] tframe_simps(6) [OF 1(5)] tx_room [OF 1(2)] in \<open>auto simp: tx_usable_def\<close>)
    then show ?thesis using bframe_log(4) [of s' s''] bframe_tframe [of s' s''] by (intro that [of i s'']) simp_all
  qed
  have "log_size s'' = 30" using tframe_simps(2) [OF 2(2)] tframe_simps(2) [OF 1(5)] size
    by (simp add: LOGSIZE_def MAXOPBLOCKS_def)
  then have "log_write i (upd_buf i (\<lambda>x. x\<lparr>b_data := d\<rparr>) s'') = Panic ''too big a transaction''"
    using 2(3) n log_write_full [of "upd_buf i (\<lambda>x. x\<lparr>b_data := d\<rparr>) s''" i] by (simp add: upd_buf_def)
  moreover have "lh_n s' = int LOGSIZE - 1" using n by (simp add: LOGSIZE_def MAXOPBLOCKS_def)
  moreover have "\<forall>b \<in> set ?cs. view s' b = d" using 1(6) by simp
  moreover have "set (logged s') = set ?cs" using tx_invD(3) [OF 1(2)] dr by simp
  ultimately show ?thesis using b w 1(1) 2(1) by blast
qed

theorem log_overflow_admitted_witness:
  "\<exists>s3 s' i s''. bnd (bnd (begin_op idle_log) begin_op) begin_op = Ret s3 \<and> begin_op s3 = Sleep ChanLog \<and>
    run_bops get_block log_block (map (\<lambda>b. Wr b (replicate BSIZE 7)) [60..<89]) s3 = Ret ([], s') \<and> lh_n s' = 29 \<and>
    bread 1 89 s' = Ret (i, s'') \<and>
    log_write i (upd_buf i (\<lambda>x. x\<lparr>b_data := replicate BSIZE 7\<rparr>) s'') = Panic ''too big a transaction''"
proof -
  have u: "tx_usable idle_log b" if "b \<in> set [60..<90]" for b
  proof -
    have "60 \<le> b" "b < 90" using that unfolding set_upt by simp_all
    then show ?thesis using quiet_idle_log by (simp add: tx_usable_def)
  qed
  have l: "length [60..<90] = 3 * MAXOPBLOCKS" "log_size idle_log = int LOGSIZE" "length (replicate BSIZE 7) = BSIZE"
    by (simp_all add: MAXOPBLOCKS_def LOGSIZE_def idle_log_def)
  have "butlast [60..<90] = [60..<89 :: nat]" "last [60..<90] = (89 :: nat)" by simp_all
  then show ?thesis
    using log_overflow_admitted [OF quiet_idle_log(1) l(2) u distinct_upt l(1), of "replicate BSIZE 7"]
    by (simp add: LOGSIZE_def MAXOPBLOCKS_def) blast
qed

end
