(* ===== verification/Fsblock.thy ===== *)
theory Fsblock
  imports Fs Transaction
begin

text \<open>
  The free map of the file system (\<open>bzero\<close>, \<open>balloc\<close> and \<open>bfree\<close> of \<open>fs.c\<close>), inside a transaction.

  \<open>budget m T s\<close> is the invariant of a transaction that may still dirty the blocks of \<open>T\<close> and \<open>m\<close> others. It is
  what bounds the use of the log: a block is counted once however often it is written. \<open>fs_inv\<close> describes the
  layout of the disk and says that the free map marks the blocks of the layout as used.
\<close>

unbundle bit_operations_syntax

declare One_nat_def [simp del]

section \<open>Frames\<close>

text \<open>What file system routines leave alone: all but the cache, the header in memory and the inode cache.\<close>

definition fframe :: "'a fs_state_scheme \<Rightarrow> 'a fs_state_scheme \<Rightarrow> bool" where
  "fframe s s' \<longleftrightarrow> tframe (s\<lparr>icache := []\<rparr>) (s'\<lparr>icache := []\<rparr>)"

lemma fframe_refl [simp]: "fframe s s"
  by (simp add: fframe_def)

lemma fframe_trans [trans]: "fframe s t \<Longrightarrow> fframe t u \<Longrightarrow> fframe s u"
  unfolding fframe_def by (rule tframe_trans)

lemma tcore_icache: "tcore (s\<lparr>icache := X\<rparr>) = (tcore s)\<lparr>icache := X\<rparr>" for s :: "'a fs_state_scheme"
  by (simp add: tcore_def bcore_def)

lemma tcore_fs [simp]: "icache (tcore s) = icache s" "sb (tcore s) = sb s" for s :: "'a fs_state_scheme"
  by (simp_all add: tcore_def bcore_def)

lemma tframe_fframe:
  fixes s s' :: "'a fs_state_scheme"
  assumes "tframe s s'"
  shows "fframe s s'" and "icache s' = icache s" and "sb s' = sb s"
proof -
  from assms have t: "tcore s' = tcore s" and p: "map p_pid (ptable s') = map p_pid (ptable s)" by (simp_all add: tframe_def)
  then show "fframe s s'" by (simp add: fframe_def tframe_def tcore_icache)
  from t have "icache (tcore s') = icache (tcore s)" "sb (tcore s') = sb (tcore s)" by simp_all
  then show "icache s' = icache s" "sb s' = sb s" by simp_all
qed

lemma fframe_upd_inode [simp]: "fframe s (upd_inode ip f s)"
  by (simp add: fframe_def upd_inode_def)

lemma log_area_icache [simp]: "log_area (s\<lparr>icache := X\<rparr>) = log_area s" for s :: "'a fs_state_scheme"
  by (simp add: log_area_def)

lemma fframe_simps:
  fixes s s' :: "'a fs_state_scheme"
  assumes "fframe s s'"
  shows "sb s' = sb s" and "disksize s' = disksize s" and "log_area s' = log_area s" and "log_size s' = log_size s"
    and "map p_pid (ptable s') = map p_pid (ptable s)"
proof -
  note t = tframe_simps [OF assms [unfolded fframe_def]] tframe_fframe(3) [OF assms [unfolded fframe_def]]
  from t show "sb s' = sb s" "disksize s' = disksize s" "log_area s' = log_area s" "log_size s' = log_size s" by simp_all
  from assms show "map p_pid (ptable s') = map p_pid (ptable s)" by (simp add: fframe_def tframe_def)
qed

lemma icache_cache:
  fixes s :: "'a fs_state_scheme"
  shows "bio_inv (s\<lparr>icache := X\<rparr>) = bio_inv s" and "view (s\<lparr>icache := X\<rparr>) = view s"
    and "held (s\<lparr>icache := X\<rparr>) = held s" and "dirty (s\<lparr>icache := X\<rparr>) = dirty s" and "holds (s\<lparr>icache := X\<rparr>) = holds s"
  by (rule cache_cong; simp)+

lemma icache_tx [simp]: "tx_inv k (s\<lparr>icache := X\<rparr>) = tx_inv k s" for s :: "'a fs_state_scheme"
  by (simp add: tx_inv_def icache_cache log_wf_def logged_def)

section \<open>Log budget\<close>

definition budget :: "nat \<Rightarrow> nat set \<Rightarrow> 'a log_state_scheme \<Rightarrow> bool" where
  "budget m T s \<longleftrightarrow> tx_inv 0 s \<and> finite T \<and> dirty s \<subseteq> T \<and> int (card T + m + 2) < log_size s"

lemma budget_tx:
  assumes "budget m T s"
  shows "tx_inv (m + 2) s"
proof -
  from assms have t: "tx_inv 0 s" "card (dirty s) \<le> card T" "int (card T + m + 2) < log_size s"
    by (auto simp: budget_def card_mono)
  moreover have "0 \<le> lh_n s" using tx_invD(2) [OF t(1)] by (simp add: log_wf_def)
  ultimately have "lh_n s \<le> int (card T)" using tx_invD(8) [OF t(1)] by linarith
  with t show ?thesis by (simp add: tx_inv_def)
qed

lemma budget_widen: "budget (Suc m) T s \<Longrightarrow> budget m (insert b T) s"
  by (auto simp: budget_def card_insert_if)

lemma budget_less: "budget m T s \<Longrightarrow> j \<le> m \<Longrightarrow> budget j T s"
  by (auto simp: budget_def)

lemma budget_in: "budget m T s \<Longrightarrow> b \<in> T \<Longrightarrow> budget m (insert b T) s"
  by (simp add: insert_absorb)

lemma budget_upd_inode [simp]: "budget m T (upd_inode ip f s) = budget m T s"
  by (simp add: budget_def upd_inode_def icache_cache)

lemma upd_inode_cache [simp]:
  "view (upd_inode ip f s) = view s" "held (upd_inode ip f s) = held s" "dirty (upd_inode ip f s) = dirty s"
  "holds (upd_inode ip f s) = holds s" "disk (upd_inode ip f s) = disk s" "dwrites (upd_inode ip f s) = dwrites s"
  by (simp_all add: upd_inode_def icache_cache)

text \<open>What an operation of a transaction does besides changing the contents of blocks.\<close>

definition runs_to :: "nat \<Rightarrow> nat set \<Rightarrow> 'a fs_state_scheme \<Rightarrow> 'a fs_state_scheme \<Rightarrow> bool" where
  "runs_to m T s s' \<longleftrightarrow> budget m T s' \<and> held s' = held s \<and> disk s' = disk s \<and> dwrites s' = dwrites s \<and> fframe s s' \<and>
     (\<forall>i b. holds s i b \<longrightarrow> holds s' i b)"

lemma runs_toD:
  assumes "runs_to m T s s'"
  shows "budget m T s'" and "held s' = held s" and "disk s' = disk s" and "dwrites s' = dwrites s" and "fframe s s'"
    and "\<And>i b. holds s i b \<Longrightarrow> holds s' i b" and "sb s' = sb s" and "disksize s' = disksize s"
    and "log_area s' = log_area s"
  using assms fframe_simps [of s s'] by (auto simp: runs_to_def)

lemma runs_to_trans [trans]:
  assumes "runs_to m T s t" and "runs_to n U t u"
  shows "runs_to n U s u"
  using assms fframe_trans [of s t u] by (auto simp: runs_to_def)

lemma budget_update:
  fixes s :: "'a fs_state_scheme"
  assumes bu: "budget m T s" and b: "b \<in> T" "b < disksize s" "b \<notin> held s" "b < 2 ^ 32" "b \<notin> log_area s"
    and room: "card (held s) \<le> 1" and l: "length (g (view s b)) = BSIZE"
  obtains i s1 s2 s3 where "bread 1 b s = Ret (i, s1)" and "b_data (bufs s1 ! i) = view s b"
    and "log_write i (set_data i g s1) = Ret s2" and "brelse i s2 = Ret s3"
    and "runs_to m T s s3" and "view s3 = (view s)(b := g (view s b))" and "icache s1 = icache s" and "icache s3 = icache s"
    and "sb s1 = sb s" and "sb s2 = sb s"
proof -
  have tx: "tx_inv (Suc (m + 1)) s" using budget_tx [OF bu] by (simp add: One_nat_def)
  have room': "card (held s) \<le> m + 1" using room by simp
  obtain i s1 s2 s3 where r: "bread 1 b s = Ret (i, s1)"
    "b_data (bufs s1 ! i) = view s b"
    "log_write i (upd_buf i (\<lambda>x. x\<lparr>b_data := g (b_data x)\<rparr>) s1) = Ret s2" "brelse i s2 = Ret s3"
    "tx_inv (m + 1) s3" "view s3 = (view s)(b := g (view s b))" "held s3 = held s" "dirty s3 = insert b (dirty s)"
    "disk s3 = disk s" "dwrites s3 = dwrites s" "tframe s s1" "tframe s1 s3" "\<And>j c. holds s j c \<Longrightarrow> holds s3 j c"
    by (rule tx_update_spec [where g = g, OF tx b(2-5) room' l]) blast
  have "tframe s s3" by (rule tframe_trans [OF r(11,12)])
  then have f: "fframe s s3" "icache s3 = icache s" "log_size s3 = log_size s"
    using tframe_fframe tframe_simps by blast+
  have "budget m T s3" using bu r(5,8) b(1) f(3) tx_inv_mono [OF r(5), of 0] by (auto simp: budget_def)
  with r f(1) have "runs_to m T s s3" by (simp add: runs_to_def)
  moreover have "sb s2 = sb s" using r(3,11) tframe_fframe(3) [OF r(11)]
    by (auto simp: log_write_def Let_def upd_buf_def split: if_splits option.splits)
  ultimately show thesis
    by (rule that [OF r(1,2) r(3) [folded set_data_def] r(4) _ r(6) tframe_fframe(2) [OF r(11)] f(2) tframe_fframe(3) [OF r(11)]])
qed

lemma budget_read:
  fixes s :: "'a fs_state_scheme"
  assumes bu: "budget m T s" and b: "b < disksize s" "b \<notin> held s" and room: "card (held s) \<le> 2"
  obtains i s1 s2 where "bread 1 b s = Ret (i, s1)" and "b_data (bufs s1 ! i) = view s b" and "brelse i s1 = Ret s2"
    and "runs_to m T s s2" and "view s2 = view s" and "icache s1 = icache s" and "icache s2 = icache s" and "sb s1 = sb s"
proof -
  have tx: "tx_inv (m + 2) s" using budget_tx [OF bu] by simp
  have room': "card (held s) \<le> m + 2" using room by simp
  obtain i s1 s2 where r: "bread 1 b s = Ret (i, s1)"
    "b_data (bufs s1 ! i) = view s b" "brelse i s1 = Ret s2"
    "tx_inv (m + 2) s2" "view s2 = view s" "held s2 = held s" "dirty s2 = dirty s"
    "disk s2 = disk s" "dwrites s2 = dwrites s" "tframe s s1" "tframe s1 s2" "\<And>j c. holds s j c \<Longrightarrow> holds s2 j c"
    by (rule tx_read_spec [OF tx b(1,2) room']) blast
  have "tframe s s2" by (rule tframe_trans [OF r(10,11)])
  then have f: "fframe s s2" "icache s2 = icache s" "log_size s2 = log_size s"
    using tframe_fframe tframe_simps by blast+
  have "budget m T s2" using bu r(4,7) f(3) tx_inv_mono [OF r(4), of 0] by (auto simp: budget_def)
  with r f(1) have "runs_to m T s s2" by (simp add: runs_to_def)
  then show thesis by (rule that [OF r(1-3) _ r(5) tframe_fframe(2) [OF r(10)] f(2) tframe_fframe(3) [OF r(10)]])
qed

section \<open>The free map\<close>

definition used :: "(nat \<Rightarrow> uchar list) \<Rightarrow> superblock \<Rightarrow> nat \<Rightarrow> bool" where
  "used V super b \<longleftrightarrow> bit_set (V (BBLOCK b super)) (b mod BPB)"

definition bmaps :: "superblock \<Rightarrow> nat set" where
  "bmaps super = (\<lambda>b. BBLOCK b super) ` {..<sb_size super}"

definition iblocks :: "superblock \<Rightarrow> nat set" where
  "iblocks super = (\<lambda>i. IBLOCK i super) ` {..<sb_ninodes super}"

text \<open>The boot block, the super block, the log, the inodes and the free map.\<close>

definition meta :: "'a fs_state_scheme \<Rightarrow> nat set" where
  "meta s = {0, 1} \<union> log_area s \<union> iblocks (sb s) \<union> bmaps (sb s)"

definition fs_inv :: "'a fs_state_scheme \<Rightarrow> bool" where
  "fs_inv s \<longleftrightarrow> sb_size (sb s) \<le> disksize s \<and> sb_size (sb s) < 2 ^ 32 \<and> meta s \<subseteq> {..<sb_size (sb s)} \<and>
     1 \<notin> log_area s \<and> (iblocks (sb s) \<union> bmaps (sb s)) \<inter> ({0, 1} \<union> log_area s) = {} \<and>
     iblocks (sb s) \<inter> bmaps (sb s) = {} \<and>
     superblock_of (view s 1) = sb s \<and> (\<forall>b \<in> meta s. used (view s) (sb s) b)"

definition free_blocks :: "'a fs_state_scheme \<Rightarrow> nat set" where
  "free_blocks s = {b. b < sb_size (sb s) \<and> \<not> used (view s) (sb s) b}"

lemma BPB_pos: "0 < BPB" "BPB = 8 * BSIZE" "0 < BSIZE"
  by (simp_all add: BPB_def BSIZE_def)

lemma bit_set_bit: "bit_set d i \<longleftrightarrow> bit (d ! (i div 8)) (i mod 8)"
  by (simp add: bit_set_def push_bit_eq_mult and_exp_eq_0_iff_not_bit)

lemma bit_one_shift: "bit (2 ^ m :: uchar) n \<longleftrightarrow> m = n \<and> n < 8"
  by (auto simp: bit_exp_iff)

lemma div_mod_8: "i = j \<longleftrightarrow> i div 8 = j div 8 \<and> i mod 8 = j mod 8" for i j :: nat
  by (metis div_mult_mod_eq)

lemma bit_set_mark:
  assumes "i < 8 * length d" "j < 8 * length d"
  shows "bit_set (mark_bit i d) j \<longleftrightarrow> j = i \<or> bit_set d j"
  using assms div_mod_8 [of i j]
  by (cases "i div 8 = j div 8") (auto simp: bit_set_bit mark_bit_def bit_or_iff bit_one_shift)

lemma bit_set_clear:
  assumes "i < 8 * length d" "j < 8 * length d"
  shows "bit_set (clear_bit i d) j \<longleftrightarrow> j \<noteq> i \<and> bit_set d j"
  using assms div_mod_8 [of i j]
  by (cases "i div 8 = j div 8") (auto simp: bit_set_bit clear_bit_def bit_and_iff bit_not_iff bit_one_shift dest: bit_imp_le_length)

lemma mark_clear_length [simp]: "length (mark_bit i d) = length d" "length (clear_bit i d) = length d"
  by (simp_all add: mark_bit_def clear_bit_def)

lemma fs_invD:
  assumes "fs_inv s"
  shows "sb_size (sb s) \<le> disksize s" and "sb_size (sb s) < 2 ^ 32" and "\<And>b. b \<in> meta s \<Longrightarrow> b < sb_size (sb s)"
    and "1 \<notin> log_area s" and "superblock_of (view s 1) = sb s" and "\<And>b. b \<in> meta s \<Longrightarrow> used (view s) (sb s) b"
    and "\<And>b. b \<in> bmaps (sb s) \<Longrightarrow> b \<in> meta s \<and> b \<notin> log_area s \<and> b \<noteq> 0 \<and> b \<noteq> 1 \<and> b \<notin> iblocks (sb s)"
    and "\<And>b. b \<in> iblocks (sb s) \<Longrightarrow> b \<in> meta s \<and> b \<notin> log_area s \<and> b \<noteq> 0 \<and> b \<noteq> 1 \<and> b \<notin> bmaps (sb s)"
  using assms by (auto simp: fs_inv_def meta_def)

lemma view_length:
  assumes "bio_inv s" and "b < disksize s"
  shows "length (view s b) = BSIZE"
proof (cases "\<exists>i. caches s i b")
  case True
  then obtain i where i: "caches s i b" ..
  then have "buf_ok (me s) (disksize s) (disk s) (bufs s ! i)" using bio_invD(2) [OF assms(1)] by (simp add: caches_def)
  then show ?thesis using view_cached [OF assms(1) i] by (simp add: buf_ok_def)
next
  case False
  then show ?thesis using view_uncached [OF assms(1) False] bio_invD(6) [OF assms] by simp
qed

lemma budget_view_length: "budget m T s \<Longrightarrow> b < disksize s \<Longrightarrow> length (view s b) = BSIZE"
  by (rule view_length [OF tx_invD(1)]) (auto simp: budget_def)

lemma used_cong: "V (BBLOCK b super) = V' (BBLOCK b super) \<Longrightarrow> used V super b = used V' super b"
  by (simp add: used_def)

text \<open>Changing blocks outside the layout keeps the invariant and the set of free blocks.\<close>

lemma fs_inv_frame:
  assumes "fs_inv s" and "fframe s s'" and "\<And>b. b \<in> bmaps (sb s) \<Longrightarrow> view s' b = view s b" and "view s' 1 = view s 1"
  shows "fs_inv s'" and "free_blocks s' = free_blocks s"
proof -
  note f = fframe_simps [OF assms(2)]
  have m: "meta s' = meta s" by (simp add: meta_def f)
  have u: "used (view s') (sb s) b = used (view s) (sb s) b" if "b < sb_size (sb s)" for b
    using that assms(3) [of "BBLOCK b (sb s)"] by (intro used_cong) (simp add: bmaps_def)
  show "fs_inv s'" using assms(1) u unfolding fs_inv_def m f assms(4) by auto
  show "free_blocks s' = free_blocks s" using u by (auto simp: free_blocks_def f)
qed

text \<open>Setting the bit of a block.\<close>

lemma used_mark:
  assumes "b < sb_size super" "c < sb_size super" "length (V (BBLOCK b super)) = BSIZE"
  shows "used (V(BBLOCK b super := mark_bit (b mod BPB) (V (BBLOCK b super)))) super c \<longleftrightarrow> c = b \<or> used V super c"
    and "used (V(BBLOCK b super := clear_bit (b mod BPB) (V (BBLOCK b super)))) super c \<longleftrightarrow> c \<noteq> b \<and> used V super c"
proof -
  have m: "x mod BPB < 8 * length (V (BBLOCK b super))" for x using BPB_pos assms(3) by (metis mod_less_divisor)
  have e: "c = b \<longleftrightarrow> c div BPB = b div BPB \<and> c mod BPB = b mod BPB" by (metis div_mult_mod_eq)
  show "used (V(BBLOCK b super := mark_bit (b mod BPB) (V (BBLOCK b super)))) super c \<longleftrightarrow> c = b \<or> used V super c"
    using e bit_set_mark [OF m m, of b c] by (cases "BBLOCK c super = BBLOCK b super") (auto simp: used_def BBLOCK_def)
  show "used (V(BBLOCK b super := clear_bit (b mod BPB) (V (BBLOCK b super)))) super c \<longleftrightarrow> c \<noteq> b \<and> used V super c"
    using e bit_set_clear [OF m m, of b c] by (cases "BBLOCK c super = BBLOCK b super") (auto simp: used_def BBLOCK_def)
qed

section \<open>Allocation\<close>

text \<open>The blocks an operation may touch: not held by the caller.\<close>

lemma bzero_spec:
  fixes s :: "'a fs_state_scheme"
  assumes "budget m T s" "b \<in> T" "b < disksize s" "b \<notin> held s" "b < 2 ^ 32" "b \<notin> log_area s" "card (held s) \<le> 1"
  obtains s' where "bzero 1 b s = Ret s'" and "runs_to m T s s'" and "view s' = (view s)(b := replicate BSIZE 0)"
    and "icache s' = icache s"
proof -
  obtain i s1 s2 s3 where r: "bread 1 b s = Ret (i, s1)" "log_write i (set_data i (\<lambda>_. replicate BSIZE 0) s1) = Ret s2"
    "brelse i s2 = Ret s3" "runs_to m T s s3" "view s3 = (view s)(b := replicate BSIZE 0)" "icache s3 = icache s"
    by (rule budget_update [where g = "\<lambda>_. replicate BSIZE 0", OF assms(1-7) length_replicate]) blast
  then have "bzero 1 b s = Ret s3" by (simp add: bzero_def)
  with r(4-6) show thesis using that by blast
qed

definition alloc_view :: "superblock \<Rightarrow> nat \<Rightarrow> (nat \<Rightarrow> uchar list) \<Rightarrow> nat \<Rightarrow> uchar list" where
  "alloc_view super b V =
     V(BBLOCK b super := mark_bit (b mod BPB) (V (BBLOCK b super)), b := replicate BSIZE 0)"

lemma BBLOCK_same: "b mod BPB = 0 \<Longrightarrow> bi < BPB \<Longrightarrow> BBLOCK (b + bi) super = BBLOCK b super"
  by (auto simp: BBLOCK_def dest!: mod_0_exists)

lemma mod_offset: "b mod BPB = 0 \<Longrightarrow> bi < BPB \<Longrightarrow> (b + bi) mod BPB = bi"
  by (auto dest!: mod_0_exists)

lemma free_not_meta: "fs_inv s \<Longrightarrow> b \<in> free_blocks s \<Longrightarrow> b \<notin> meta s"
  using fs_invD(6) by (auto simp: free_blocks_def)

lemma fs_inv_alloc:
  assumes inv: "fs_inv s" and b: "b \<in> free_blocks s" and f: "fframe s s'" and v: "view s' = alloc_view (sb s) b (view s)"
    and l: "length (view s (BBLOCK b (sb s))) = BSIZE"
  shows "fs_inv s'" and "free_blocks s' = free_blocks s - {b}"
proof -
  note fs = fframe_simps [OF f]
  have m: "meta s' = meta s" by (simp add: meta_def fs)
  have bm: "b \<notin> meta s" "b < sb_size (sb s)" using free_not_meta [OF inv b] b by (auto simp: free_blocks_def)
  have nb: "b \<notin> bmaps (sb s)" using bm(1) by (simp add: meta_def)
  have u: "used (view s') (sb s) c \<longleftrightarrow> c = b \<or> used (view s) (sb s) c" if "c < sb_size (sb s)" for c
  proof -
    have "BBLOCK c (sb s) \<noteq> b" using nb that by (auto simp: bmaps_def)
    then have "used (view s') (sb s) c =
        used ((view s)(BBLOCK b (sb s) := mark_bit (b mod BPB) (view s (BBLOCK b (sb s))))) (sb s) c"
      by (intro used_cong) (simp add: v alloc_view_def)
    with used_mark(1) [where V = "view s", OF bm(2) that l] show ?thesis by simp
  qed
  have "BBLOCK b (sb s) \<in> bmaps (sb s)" using bm(2) by (simp add: bmaps_def)
  then have "BBLOCK b (sb s) \<noteq> 1" using fs_invD(7) [OF inv] by blast
  moreover have "b \<noteq> 1" using bm(1) by (auto simp: meta_def)
  ultimately have "view s' 1 = view s 1" by (simp add: v alloc_view_def)
  with inv u show "fs_inv s'" unfolding fs_inv_def m fs by auto
  show "free_blocks s' = free_blocks s - {b}" using u by (auto simp: free_blocks_def fs)
qed

lemma balloc_loop_spec:
  fixes s :: "'a fs_state_scheme"
  assumes "fs_inv s" "budget m T s" "held s \<inter> (bmaps (sb s) \<union> free_blocks s) = {}" "card (held s) \<le> 1"
    "insert (Min (free_blocks s)) (bmaps (sb s)) \<subseteq> T" "b mod BPB = 0" "\<And>c. c < b \<Longrightarrow> c \<notin> free_blocks s"
    "sb_size (sb s) \<le> b + k * BPB" "free_blocks s \<noteq> {}"
  shows "\<exists>s'. balloc_loop k 1 b s = Ret (Min (free_blocks s), s') \<and> runs_to m T s s' \<and>
    view s' = alloc_view (sb s) (Min (free_blocks s)) (view s) \<and> icache s' = icache s"
  using assms
proof (induction k arbitrary: b s)
  case 0
  then show ?case by (auto simp: free_blocks_def)
next
  case (Suc k)
  let ?f = "Min (free_blocks s)"
  have fin: "finite (free_blocks s)" by (rule finite_subset [of _ "{..<sb_size (sb s)}"]) (auto simp: free_blocks_def)
  then have f: "?f \<in> free_blocks s" using Suc.prems(9) by (rule Min_in)
  have fb: "b \<le> ?f" using f Suc.prems(7) by (meson not_less)
  have fz: "?f < sb_size (sb s)" "\<not> used (view s) (sb s) ?f" using f by (auto simp: free_blocks_def)
  let ?bb = "BBLOCK b (sb s)"
  have bz: "b < sb_size (sb s)" using fb fz by simp
  then have bb: "?bb \<in> bmaps (sb s)" by (simp add: bmaps_def)
  note bd = fs_invD(7) [OF Suc.prems(1) bb] fs_invD(3) [OF Suc.prems(1), of ?bb] fs_invD(1,2) [OF Suc.prems(1)]
  have bt: "?bb \<in> T" "?bb < disksize s" "?bb \<notin> held s" "?bb < 2 ^ 32" "?bb \<notin> log_area s"
    using bb bd Suc.prems(3,5) by auto
  let ?d = "view s ?bb"
  have l: "length ?d = BSIZE" using bt(2) Suc.prems(2) budget_view_length by blast
  let ?bis = "[0..<min BPB (sb_size (sb s) - b)]"
  let ?P = "\<lambda>bi. \<not> bit_set ?d bi"
  have us: "used (view s) (sb s) (b + bi) = bit_set ?d bi" if "bi < BPB" for bi
    using that Suc.prems(6) by (simp add: used_def BBLOCK_same mod_offset)
  show ?case
  proof (cases "find_idx ?P ?bis")
    case (Some bi)
    then have bi: "bi < BPB" "b + bi < sb_size (sb s)" "\<not> bit_set ?d bi" "\<And>j. j < bi \<Longrightarrow> bit_set ?d j"
      using find_idx_SomeD [OF Some] by auto
    have fe: "b + bi = ?f"
    proof (rule antisym)
      have "c \<notin> free_blocks s" if c: "c < b + bi" for c
      proof (cases "c < b")
        case False
        then have "c = b + (c - b)" "c - b < bi" using c by auto
        with bi(1) bi(4) [of "c - b"] us [of "c - b"] show ?thesis by (simp add: free_blocks_def)
      qed (use Suc.prems(7) in simp)
      then show "b + bi \<le> ?f" using f by (meson not_less)
      have "b + bi \<in> free_blocks s" using bi us [of bi] by (simp add: free_blocks_def)
      then show "?f \<le> b + bi" using fin by simp
    qed
    obtain i s1 s2 s3 where r: "bread 1 ?bb s = Ret (i, s1)" "b_data (bufs s1 ! i) = ?d"
      "log_write i (set_data i (mark_bit bi) s1) = Ret s2" "brelse i s2 = Ret s3" "runs_to m T s s3"
      "view s3 = (view s)(?bb := mark_bit bi ?d)" "icache s3 = icache s" "sb s1 = sb s"
      by (rule budget_update [where g = "mark_bit bi", OF Suc.prems(2) bt Suc.prems(4)]) (simp add: l, blast)
    note rs = runs_toD [OF r(5)]
    have fm: "?f \<notin> meta s" by (rule free_not_meta [OF Suc.prems(1) f])
    have ft: "?f \<in> T" "?f < disksize s3" "?f \<notin> held s3" "?f < 2 ^ 32" "?f \<notin> log_area s3" "card (held s3) \<le> 1"
      using Suc.prems(3-5) f fz bd fm by (auto simp: rs meta_def)
    obtain s4 where z: "bzero 1 ?f s3 = Ret s4" "runs_to m T s3 s4" "view s4 = (view s3)(?f := replicate BSIZE 0)"
      "icache s4 = icache s3" by (rule bzero_spec [OF rs(1) ft])
    have "balloc_loop (Suc k) 1 b s = Ret (?f, s4)"
      using Some by (simp add: r z fe)
    moreover have "runs_to m T s s4" by (rule runs_to_trans [OF r(5) z(2)])
    moreover have "view s4 = alloc_view (sb s) ?f (view s)"
      using Suc.prems(6) bi(1) by (simp add: z(3) r(6) alloc_view_def fe [symmetric] BBLOCK_same mod_offset)
    ultimately show ?thesis using z(4) r(7) by auto
  next
    case None
    then have n: "\<And>bi. bi < BPB \<Longrightarrow> b + bi < sb_size (sb s) \<Longrightarrow> bit_set ?d bi" by (auto simp: find_idx_None_iff)
    obtain i s1 s2 where r: "bread 1 ?bb s = Ret (i, s1)" "b_data (bufs s1 ! i) = ?d" "brelse i s1 = Ret s2"
      "runs_to m T s s2" "view s2 = view s" "icache s2 = icache s" "sb s1 = sb s"
      by (rule budget_read [OF Suc.prems(2) bt(2,3)]) (use Suc.prems(4) in simp, blast)
    note rs = runs_toD [OF r(4)]
    have e: "fs_inv s2" "free_blocks s2 = free_blocks s" using fs_inv_frame [OF Suc.prems(1) rs(5)] r(5) by auto
    have "c \<notin> free_blocks s" if c: "c < b + BPB" for c
    proof (cases "c < b")
      case False
      then have "c = b + (c - b)" "c - b < BPB" using c by auto
      with n [of "c - b"] us [of "c - b"] show ?thesis by (simp add: free_blocks_def)
    qed (use Suc.prems(7) in simp)
    then have "\<exists>s'. balloc_loop k 1 (b + BPB) s2 = Ret (Min (free_blocks s2), s') \<and> runs_to m T s2 s' \<and>
        view s' = alloc_view (sb s2) (Min (free_blocks s2)) (view s2) \<and> icache s' = icache s2"
      using Suc.prems e rs by (intro Suc.IH) (auto simp: algebra_simps)
    then obtain s' where s': "balloc_loop k 1 (b + BPB) s2 = Ret (?f, s')" "runs_to m T s2 s'"
      "view s' = alloc_view (sb s) ?f (view s)" "icache s' = icache s" using e rs r by auto
    have "balloc_loop (Suc k) 1 b s = Ret (?f, s')" using None by (simp add: r s')
    with s' runs_to_trans [OF r(4) s'(2)] show ?thesis by auto
  qed
qed

lemma balloc_rounds: "n \<le> ((n + BPB - 1) div BPB) * BPB"
proof -
  have "(n + BPB - 1) mod BPB < BPB" using BPB_pos by simp
  then show ?thesis using div_mult_mod_eq [of "n + BPB - 1" BPB] BPB_pos(1) by linarith
qed

lemma balloc_spec:
  fixes s :: "'a fs_state_scheme"
  assumes "fs_inv s" "budget m T s" "held s \<inter> (bmaps (sb s) \<union> free_blocks s) = {}" "card (held s) \<le> 1"
    "insert (Min (free_blocks s)) (bmaps (sb s)) \<subseteq> T" "free_blocks s \<noteq> {}"
  obtains s' where "balloc 1 s = Ret (Min (free_blocks s), s')" and "runs_to m T s s'"
    and "view s' = alloc_view (sb s) (Min (free_blocks s)) (view s)" and "icache s' = icache s"
    and "fs_inv s'" and "free_blocks s' = free_blocks s - {Min (free_blocks s)}"
proof -
  let ?f = "Min (free_blocks s)"
  have "\<exists>s'. balloc_loop ((sb_size (sb s) + BPB - 1) div BPB) 1 0 s = Ret (?f, s') \<and> runs_to m T s s' \<and>
      view s' = alloc_view (sb s) ?f (view s) \<and> icache s' = icache s"
    by (rule balloc_loop_spec [OF assms(1-5)]) (simp_all add: balloc_rounds assms(6))
  then obtain s' where r: "balloc 1 s = Ret (?f, s')" "runs_to m T s s'" "view s' = alloc_view (sb s) ?f (view s)"
    "icache s' = icache s" by (auto simp: balloc_def)
  have "finite (free_blocks s)" by (rule finite_subset [of _ "{..<sb_size (sb s)}"]) (auto simp: free_blocks_def)
  then have f: "?f \<in> free_blocks s" using assms(6) by (rule Min_in)
  then have "BBLOCK ?f (sb s) \<in> bmaps (sb s)" by (simp add: bmaps_def free_blocks_def)
  then have "BBLOCK ?f (sb s) < disksize s" using fs_invD(7,3,1) [OF assms(1)] by (meson less_le_trans)
  then have "length (view s (BBLOCK ?f (sb s))) = BSIZE" by (rule budget_view_length [OF assms(2)])
  note i = fs_inv_alloc [OF assms(1) f runs_toD(5) [OF r(2)] r(3) this]
  show thesis by (rule that [OF r i])
qed

lemma balloc_loop_full:
  fixes s :: "'a fs_state_scheme"
  assumes "fs_inv s" "budget m T s" "held s \<inter> bmaps (sb s) = {}" "card (held s) \<le> 2"
    "b mod BPB = 0" "free_blocks s = {}" "b + k * BPB < sb_size (sb s) + BPB"
  shows "balloc_loop k 1 b s = Panic ''balloc: out of blocks''"
  using assms
proof (induction k arbitrary: b s)
  case 0
  then show ?case by simp
next
  case (Suc k)
  let ?bb = "BBLOCK b (sb s)"
  have bz: "b < sb_size (sb s)" using Suc.prems(7) by simp
  then have bb: "?bb \<in> bmaps (sb s)" by (simp add: bmaps_def)
  then have bt: "?bb < disksize s" "?bb \<notin> held s"
    using fs_invD(7,3,1) [OF Suc.prems(1)] Suc.prems(3) by (meson less_le_trans, blast)
  have "bit_set (view s ?bb) bi" if "bi < BPB" "b + bi < sb_size (sb s)" for bi
  proof -
    have "b + bi \<notin> free_blocks s" using Suc.prems(6) by simp
    with that Suc.prems(5) show ?thesis by (simp add: free_blocks_def used_def BBLOCK_same mod_offset)
  qed
  then have n: "find_idx (\<lambda>bi. \<not> bit_set (view s ?bb) bi) [0..<min BPB (sb_size (sb s) - b)] = None"
    by (auto simp: find_idx_None_iff)
  obtain i s1 s2 where r: "bread 1 ?bb s = Ret (i, s1)" "b_data (bufs s1 ! i) = view s ?bb" "brelse i s1 = Ret s2"
    "runs_to m T s s2" "view s2 = view s" "sb s1 = sb s"
    by (rule budget_read [OF Suc.prems(2) bt Suc.prems(4)]) blast
  note rs = runs_toD [OF r(4)]
  have e: "fs_inv s2" "free_blocks s2 = free_blocks s" using fs_inv_frame [OF Suc.prems(1) rs(5)] r(5) by auto
  have "balloc_loop k 1 (b + BPB) s2 = Panic ''balloc: out of blocks''"
    using Suc.prems e rs by (intro Suc.IH) (auto simp: algebra_simps)
  then show ?case by (simp add: r n)
qed

lemma balloc_full:
  fixes s :: "'a fs_state_scheme"
  assumes "fs_inv s" "budget m T s" "held s \<inter> bmaps (sb s) = {}" "card (held s) \<le> 2" "free_blocks s = {}"
  shows "balloc 1 s = Panic ''balloc: out of blocks''"
proof -
  have "0 < sb_size (sb s)" using fs_invD(3) [OF assms(1), of 0] by (simp add: meta_def)
  moreover have "(n + BPB - 1) div BPB * BPB \<le> n + BPB - 1" for n by (rule div_times_less_eq_dividend)
  ultimately have "0 + (sb_size (sb s) + BPB - 1) div BPB * BPB < sb_size (sb s) + BPB"
    by (metis add_0 add_gr_0 diff_less le_less_trans less_numeral_extra(1))
  then show ?thesis unfolding balloc_def by (intro balloc_loop_full [OF assms(1-4) _ assms(5)]) simp_all
qed

section \<open>Release\<close>

lemma readsb_spec:
  fixes s :: "'a fs_state_scheme"
  assumes "fs_inv s" "budget m T s" "1 \<notin> held s" "card (held s) \<le> 2"
  obtains s' where "readsb 1 s = Ret (sb s, s')" and "runs_to m T s s'" and "view s' = view s" and "icache s' = icache s"
proof -
  have "1 < disksize s" using fs_invD(3) [OF assms(1), of 1] fs_invD(1) [OF assms(1)] by (simp add: meta_def)
  then obtain i s1 s2 where r: "bread 1 1 s = Ret (i, s1)" "b_data (bufs s1 ! i) = view s 1" "brelse i s1 = Ret s2"
    "runs_to m T s s2" "view s2 = view s" "icache s2 = icache s"
    by (rule budget_read [OF assms(2) _ assms(3,4)]) blast
  then have "readsb 1 s = Ret (sb s, s2)" using fs_invD(5) [OF assms(1)] by (simp add: readsb_def)
  then show thesis using r(4-6) by (rule that)
qed

definition free_view :: "superblock \<Rightarrow> nat \<Rightarrow> (nat \<Rightarrow> uchar list) \<Rightarrow> nat \<Rightarrow> uchar list" where
  "free_view super b V = V(BBLOCK b super := clear_bit (b mod BPB) (V (BBLOCK b super)))"

lemma fs_inv_free:
  assumes inv: "fs_inv s" and b: "b \<notin> meta s" "b < sb_size (sb s)" and f: "fframe s s'"
    and v: "view s' = free_view (sb s) b (view s)" and l: "length (view s (BBLOCK b (sb s))) = BSIZE"
  shows "fs_inv s'" and "free_blocks s' = insert b (free_blocks s)"
proof -
  note fs = fframe_simps [OF f]
  have m: "meta s' = meta s" by (simp add: meta_def fs)
  have u: "used (view s') (sb s) c \<longleftrightarrow> c \<noteq> b \<and> used (view s) (sb s) c" if "c < sb_size (sb s)" for c
    unfolding v free_view_def by (rule used_mark(2) [where V = "view s", OF b(2) that l])
  have "BBLOCK b (sb s) \<in> bmaps (sb s)" using b(2) by (simp add: bmaps_def)
  then have "BBLOCK b (sb s) \<noteq> 1" using fs_invD(7) [OF inv] by blast
  then have "view s' 1 = view s 1" by (simp add: v free_view_def)
  with inv u b(1) show "fs_inv s'" unfolding fs_inv_def m fs by auto
  show "free_blocks s' = insert b (free_blocks s)" using u b(2) by (auto simp: free_blocks_def fs)
qed

lemma bfree_spec:
  fixes s :: "'a fs_state_scheme"
  assumes inv: "fs_inv s" and bu: "budget m T s" and h: "held s \<inter> insert 1 (bmaps (sb s)) = {}" "card (held s) \<le> 1"
    and b: "b < sb_size (sb s)" "b \<notin> meta s" "b \<notin> free_blocks s" "BBLOCK b (sb s) \<in> T"
  obtains s' where "bfree 1 b s = Ret s'" and "runs_to m T s s'" and "view s' = free_view (sb s) b (view s)"
    and "icache s' = icache s" and "fs_inv s'" and "free_blocks s' = insert b (free_blocks s)"
proof -
  let ?bb = "BBLOCK b (sb s)"
  have bb: "?bb \<in> bmaps (sb s)" using b(1) by (simp add: bmaps_def)
  note bd = fs_invD(7) [OF inv bb] fs_invD(3) [OF inv, of ?bb] fs_invD(1,2) [OF inv]
  obtain s1 where r1: "readsb 1 s = Ret (sb s, s1)" "runs_to m T s s1" "view s1 = view s" "icache s1 = icache s"
    by (rule readsb_spec [OF inv bu]) (use h in auto)
  note rs = runs_toD [OF r1(2)]
  have e: "s1\<lparr>sb := sb s\<rparr> = s1" using rs(7) by (cases s1) simp
  have bt: "?bb \<in> T" "?bb < disksize s1" "?bb \<notin> held s1" "?bb < 2 ^ 32" "?bb \<notin> log_area s1" "card (held s1) \<le> 1"
    using bb bd b(4) h by (auto simp: rs)
  have l: "length (view s ?bb) = BSIZE" using bt(2) rs(8) budget_view_length [OF bu] by simp
  obtain i s2 s3 s4 where r: "bread 1 ?bb s1 = Ret (i, s2)" "b_data (bufs s2 ! i) = view s ?bb"
      "log_write i (set_data i (clear_bit (b mod BPB)) s2) = Ret s3" "brelse i s3 = Ret s4" "runs_to m T s1 s4"
      "view s4 = (view s)(?bb := clear_bit (b mod BPB) (view s ?bb))" "icache s4 = icache s"
    by (rule budget_update [where g = "clear_bit (b mod BPB)", OF rs(1) bt]) (simp add: r1 l, simp add: r1)
  have u: "bit_set (view s ?bb) (b mod BPB)" using b(1,3) by (simp add: free_blocks_def used_def)
  have "bfree 1 b s = Ret s4" by (simp add: bfree_def r1 e rs(7) r u)
  moreover have t: "runs_to m T s s4" by (rule runs_to_trans [OF r1(2) r(5)])
  moreover have v: "view s4 = free_view (sb s) b (view s)" by (simp add: r(6) free_view_def)
  moreover note r(7) fs_inv_free [OF inv b(2,1) runs_toD(5) [OF t] v l]
  ultimately show thesis by (rule that)
qed

lemma bfree_free:
  fixes s :: "'a fs_state_scheme"
  assumes inv: "fs_inv s" and bu: "budget m T s" and h: "held s \<inter> insert 1 (bmaps (sb s)) = {}" "card (held s) \<le> 2"
    and b: "b \<in> free_blocks s"
  shows "bfree 1 b s = Panic ''freeing free block''"
proof -
  let ?bb = "BBLOCK b (sb s)"
  have bb: "?bb \<in> bmaps (sb s)" "\<not> bit_set (view s ?bb) (b mod BPB)" using b by (auto simp: bmaps_def free_blocks_def used_def)
  obtain s1 where r1: "readsb 1 s = Ret (sb s, s1)" "runs_to m T s s1" "view s1 = view s"
    by (rule readsb_spec [OF inv bu]) (use h in auto)
  note rs = runs_toD [OF r1(2)]
  have e: "s1\<lparr>sb := sb s\<rparr> = s1" using rs(7) by (cases s1) simp
  have bt: "?bb < disksize s1" "?bb \<notin> held s1" "card (held s1) \<le> 2"
    using bb(1) fs_invD(7) [OF inv bb(1)] fs_invD(3) [OF inv, of ?bb] fs_invD(1) [OF inv] h by (auto simp: rs)
  obtain i s2 where r: "bread 1 ?bb s1 = Ret (i, s2)" "b_data (bufs s2 ! i) = view s ?bb"
    by (rule budget_read [OF rs(1) bt]) (simp add: r1)
  show ?thesis by (simp add: bfree_def r1 e rs(7) r bb(2))
qed

section \<open>A small file system\<close>

text \<open>A disk of 100 blocks in which the blocks after the free map, 59 and up, are free. Inode 5 is a file of two
  bytes in block 57.\<close>

definition demo_dinode :: dinode where
  "demo_dinode = \<lparr>d_type = T_FILE, d_major = 0, d_minor = 0, d_nlink = 1, d_size = 2, d_addrs = 57 # replicate 12 0\<rparr>"

definition fs_disk :: "nat \<Rightarrow> uchar list" where
  "fs_disk = demo_disk(58 := replicate 7 255 @ 7 # replicate 504 0, 57 := 104 # 105 # replicate 510 0,
     32 := replicate 320 0 @ dinode_bytes demo_dinode @ replicate 128 0)"

definition bss_fs :: "inode list \<Rightarrow> fs_state" where
  "bss_fs c = log_state.extend (bss_log fs_disk 100) (fs_state.fields (superblock_of (fs_disk 1)) c)"

text \<open>The kernel after its start, with one operation begun.\<close>

definition demo_fs :: "inode list \<Rightarrow> fs_state" where
  "demo_fs c = (binit (bss_fs c))\<lparr>log_start := 2, log_size := 30, log_dev := 1, log_outstanding := 1\<rparr>"

lemmas bss_fs_simps = bss_fs_def fs_state.defs bss_log_simps

lemma fs_disk_super: "superblock_of (fs_disk 1) =
  \<lparr>sb_size = 100, sb_nblocks = 41, sb_ninodes = 200, sb_nlog = 30, sb_logstart = 2, sb_inodestart = 32, sb_bmapstart = 58\<rparr>"
  by code_simp

lemma fs_disk_bits: "b < 100 \<Longrightarrow> bit_set (fs_disk 58) b \<longleftrightarrow> b < 59"
proof -
  have "\<forall>b \<in> set [0..<100]. bit_set (fs_disk 58) b \<longleftrightarrow> b < 59" by code_simp
  then show "b < 100 \<Longrightarrow> bit_set (fs_disk 58) b \<longleftrightarrow> b < 59" by simp
qed

lemma fs_disk_length: "length (fs_disk b) = BSIZE"
  by (simp add: fs_disk_def demo_disk_def BSIZE_def dinode_bytes_def short_bytes_def demo_dinode_def length_concat sum_list_replicate)

lemma demo_fs_base:
  shows "tx_inv 20 (demo_fs c)" and "held (demo_fs c) = {}" and "dirty (demo_fs c) = {}" and "view (demo_fs c) = fs_disk"
    and "icache (demo_fs c) = c" and "sb (demo_fs c) = superblock_of (fs_disk 1)" and "log_area (demo_fs c) = {2..<32}"
    and "disksize (demo_fs c) = 100" and "log_size (demo_fs c) = 30"
proof -
  have b: "bufs (bss_fs c) = replicate NBUF zero_buf" "running (bss_fs c)"
    by (simp_all add: running_def cur_def bss_fs_simps NPROC_def)
  have l: "\<And>b. b < disksize (bss_fs c) \<Longrightarrow> length (disk (bss_fs c) b) = BSIZE"
    by (simp add: bss_fs_simps fs_disk_length)
  note B = binit_spec [OF b l]
  have nc: "\<not> caches (binit (bss_fs c)) i x" for i x using B(2) by (auto simp: caches_def)
  have v: "view (binit (bss_fs c)) = fs_disk" "held (binit (bss_fs c)) = {}" "dirty (binit (bss_fs c)) = {}"
    using view_uncached [OF B(1)] B(4) nc by (auto simp: held_def dirty_def fun_eq_iff bss_fs_simps)
  have C: "bio_inv (demo_fs c) = bio_inv (binit (bss_fs c))" "view (demo_fs c) = view (binit (bss_fs c))"
    "held (demo_fs c) = held (binit (bss_fs c))" "dirty (demo_fs c) = dirty (binit (bss_fs c))"
    unfolding demo_fs_def by (rule cache_cong; simp)+
  note f = bframe_log [OF B(3)] bframe_tframe [OF B(3)]
  show ds: "held (demo_fs c) = {}" "dirty (demo_fs c) = {}" "view (demo_fs c) = fs_disk" using C v by simp_all
  have i: "icache (binit (bss_fs c)) = c" "sb (binit (bss_fs c)) = superblock_of (fs_disk 1)"
    using tframe_fframe [OF bframe_tframe [OF B(3)]] by (simp_all add: bss_fs_simps)
  show "icache (demo_fs c) = c" "sb (demo_fs c) = superblock_of (fs_disk 1)" using i by (simp_all add: demo_fs_def)
  show la: "log_area (demo_fs c) = {2..<32}" by (auto simp: log_area_def demo_fs_def)
  show dz: "disksize (demo_fs c) = 100" using bframe_simps(1) [OF B(3)] by (simp add: demo_fs_def bss_fs_simps)
  show "log_size (demo_fs c) = 30" by (simp add: demo_fs_def)
  have h: "lh_n (demo_fs c) = 0" "\<not> log_committing (demo_fs c)" "length (lh_block (demo_fs c)) = LOGSIZE"
    using bframe_log [OF B(3)] by (simp_all add: demo_fs_def bss_fs_simps)
  show "tx_inv 20 (demo_fs c)" using C(1) B(1) h ds dz la
    by (simp add: tx_inv_def log_wf_def logged_def LOGSIZE_def MAXOPBLOCKS_def) (simp add: demo_fs_def)
qed

lemma demo_fs_inv: "fs_inv (demo_fs c)" "free_blocks (demo_fs c) = {59..<100}" "bmaps (sb (demo_fs c)) = {58}"
  "iblocks (sb (demo_fs c)) = {32..<57}" "meta (demo_fs c) = {..<57} \<union> {58}"
proof -
  note D = demo_fs_base(4,6-8) fs_disk_super
  show bm: "bmaps (sb (demo_fs c)) = {58}"
    by (auto simp: bmaps_def D BBLOCK_def BPB_def BSIZE_def image_iff intro!: exI [of _ 0])
  show ib: "iblocks (sb (demo_fs c)) = {32..<57}"
  proof -
    have "(\<lambda>i. i div 8 + 32) ` {..<200} = {32..<57 :: nat}"
    proof (intro equalityI subsetI)
      fix x :: nat assume "x \<in> {32..<57}"
      then have "x = (8 * (x - 32)) div 8 + 32" "8 * (x - 32) < 200" by auto
      then show "x \<in> (\<lambda>i. i div 8 + 32) ` {..<200}" by blast
    qed auto
    then show ?thesis by (simp add: iblocks_def D IBLOCK_def IPB_def BSIZE_def)
  qed
  show m: "meta (demo_fs c) = {..<57} \<union> {58}" unfolding meta_def bm ib D(3) by auto
  have u: "used (view (demo_fs c)) (sb (demo_fs c)) b \<longleftrightarrow> b < 59" if "b < 100" for b
    using that fs_disk_bits [OF that] by (simp add: used_def D BBLOCK_def BPB_def BSIZE_def)
  show "free_blocks (demo_fs c) = {59..<100}" using u by (auto simp: free_blocks_def D)
  show "fs_inv (demo_fs c)" unfolding fs_inv_def m bm ib using u D by auto
qed

text \<open>C6. Block allocation. With the free map in order, \<open>balloc\<close> panics exactly when no block is free; otherwise it
  returns the lowest free block, zeroed and marked, changes no other block outside the free map, and \<open>bfree\<close> of the
  block makes the set of free blocks what it was. Freeing a block that is free panics.\<close>

theorem balloc_bfree:
  fixes s :: "'a fs_state_scheme"
  assumes inv: "fs_inv s" and bu: "budget (Suc m) T s" and h: "held s = {}" and t: "bmaps (sb s) \<subseteq> T"
  shows "(if free_blocks s = {} then balloc 1 s = Panic ''balloc: out of blocks''
    else \<exists>s' s''. balloc 1 s = Ret (Min (free_blocks s), s') \<and> fs_inv s' \<and>
      free_blocks s' = free_blocks s - {Min (free_blocks s)} \<and> view s' (Min (free_blocks s)) = replicate BSIZE 0 \<and>
      (\<forall>c. c \<notin> bmaps (sb s) \<and> c \<noteq> Min (free_blocks s) \<longrightarrow> view s' c = view s c) \<and>
      bfree 1 (Min (free_blocks s)) s' = Ret s'' \<and> fs_inv s'' \<and> free_blocks s'' = free_blocks s) \<and>
    (\<forall>b \<in> free_blocks s. bfree 1 b s = Panic ''freeing free block'')"
proof (intro conjI ballI)
  show "bfree 1 b s = Panic ''freeing free block''" if "b \<in> free_blocks s" for b
    using bfree_free [OF inv bu _ _ that] h by simp
  let ?f = "Min (free_blocks s)"
  show "if free_blocks s = {} then balloc 1 s = Panic ''balloc: out of blocks''
    else \<exists>s' s''. balloc 1 s = Ret (?f, s') \<and> fs_inv s' \<and> free_blocks s' = free_blocks s - {?f} \<and>
      view s' ?f = replicate BSIZE 0 \<and> (\<forall>c. c \<notin> bmaps (sb s) \<and> c \<noteq> ?f \<longrightarrow> view s' c = view s c) \<and>
      bfree 1 ?f s' = Ret s'' \<and> fs_inv s'' \<and> free_blocks s'' = free_blocks s"
  proof (cases "free_blocks s = {}")
    case True
    with balloc_full [OF inv bu] h show ?thesis by simp
  next
    case False
    have "finite (free_blocks s)" by (rule finite_subset [of _ "{..<sb_size (sb s)}"]) (auto simp: free_blocks_def)
    then have f: "?f \<in> free_blocks s" using False by (rule Min_in)
    then have bb: "BBLOCK ?f (sb s) \<in> bmaps (sb s)" "?f < sb_size (sb s)" by (auto simp: bmaps_def free_blocks_def)
    have fm: "?f \<notin> meta s" by (rule free_not_meta [OF inv f])
    obtain s' where r: "balloc 1 s = Ret (?f, s')" "runs_to m (insert ?f T) s s'" "view s' = alloc_view (sb s) ?f (view s)"
      "fs_inv s'" "free_blocks s' = free_blocks s - {?f}"
      by (rule balloc_spec [OF inv budget_widen [OF bu]]) (use h t False in auto)
    note rs = runs_toD [OF r(2)]
    have m: "meta s' = meta s" by (simp add: meta_def rs)
    obtain s'' where q: "bfree 1 ?f s' = Ret s''" "fs_inv s''" "free_blocks s'' = insert ?f (free_blocks s')"
      by (rule bfree_spec [OF r(4) rs(1)]) (use h t bb fm r(5) in \<open>auto simp: rs m\<close>)
    have fr: "free_blocks s'' = free_blocks s" using q(3) r(5) f by auto
    have v: "view s' ?f = replicate BSIZE 0" "c \<notin> bmaps (sb s) \<and> c \<noteq> ?f \<longrightarrow> view s' c = view s c" for c
      using bb(1) by (auto simp: r(3) alloc_view_def)
    from False r q fr v show ?thesis by auto
  qed
qed

theorem balloc_bfree_witness:
  "\<exists>s' s''. balloc 1 (demo_fs []) = Ret (59, s') \<and> free_blocks s' = {60..<100} \<and> view s' 59 = replicate BSIZE 0 \<and>
     bfree 1 59 s' = Ret s'' \<and> free_blocks s'' = {59..<100} \<and> bfree 1 70 (demo_fs []) = Panic ''freeing free block''"
proof -
  have bu: "budget (Suc 10) {58} (demo_fs [])"
    using demo_fs_base(1,3,9) [of "[]"] tx_inv_mono [of 20 "demo_fs []" 0] by (simp add: budget_def)
  have m: "Min {59..<100} = (59 :: nat)" by (rule Min_eqI) auto
  have d: "{59..<100} - {59} = {60..<100 :: nat}" by auto
  show ?thesis
    using balloc_bfree [OF demo_fs_inv(1) bu demo_fs_base(2)] m d by (simp add: demo_fs_inv) blast
qed

end
