(* ===== verification/Fsfile.thy ===== *)
theory Fsfile
  imports Fsblock
begin

text \<open>
  The contents of files (\<open>bmap\<close> and \<open>readi\<close> of \<open>fs.c\<close>). The blocks of a file are found through
  the addresses in its inode and the indirect block (\<open>blk\<close>); its contents are a list of bytes (\<open>contents\<close>). \<open>readi\<close>
  returns a window of the list.
\<close>

declare One_nat_def [simp del] readi_loop.simps [simp del] writei_loop.simps [simp del]

section \<open>Holding a block\<close>

lemma budget_bread:
  fixes s :: "'a fs_state_scheme"
  assumes bu: "budget m T s" and b: "b < disksize s" "b \<notin> held s" and room: "card (held s) \<le> 2"
  obtains i s1 where "bread 1 b s = Ret (i, s1)" and "b_data (bufs s1 ! i) = view s b" and "budget m T s1" and "holds s1 i b"
    and "view s1 = view s" and "held s1 = insert b (held s)" and "disk s1 = disk s" and "dwrites s1 = dwrites s"
    and "tframe s s1" and "dirty s1 = dirty s"
proof -
  have room': "card (held s) \<le> m + 2" using room by simp
  obtain i s1 where r: "bread 1 b s = Ret (i, s1)" "tx_inv (m + 2) s1" "holds s1 i b" "b_data (bufs s1 ! i) = view s b"
    "view s1 = view s" "held s1 = insert b (held s)" "dirty s1 = dirty s" "disk s1 = disk s" "dwrites s1 = dwrites s" "tframe s s1"
    by (rule tx_bread_spec [OF budget_tx [OF bu] b room']) blast
  have "budget m T s1" using bu r(2,7) tx_inv_mono [OF r(2), of 0] tframe_simps(2) [OF r(10)] by (simp add: budget_def)
  then show thesis by (rule that [OF r(1,4) _ r(3,5,6,8-10,7)])
qed

lemma budget_log_held:
  fixes s :: "'a fs_state_scheme"
  assumes bu: "budget m T s" and h: "holds s i b" and b: "b \<in> T" "b < 2 ^ 32" "b \<notin> log_area s"
    and l: "length (g (view s b)) = BSIZE"
  obtains s2 s3 where "log_write i (set_data i g s) = Ret s2" and "brelse i s2 = Ret s3" and "budget m T s3"
    and "view s3 = (view s)(b := g (view s b))" and "held s3 = held s - {b}" and "disk s3 = disk s"
    and "dwrites s3 = dwrites s" and "tframe s s3"
proof -
  have tx: "tx_inv (Suc (m + 1)) s" using budget_tx [OF bu] by (simp add: One_nat_def)
  note inv = tx_invD(1) [OF tx]
  have e: "set_data i g s = upd_buf i (\<lambda>x. x\<lparr>b_data := g (view s b)\<rparr>) s"
    using holds_data(1) [OF inv h] by (simp add: set_data_def upd_buf_def)
  let ?s1 = "set_data i g s"
  note d = tx_setdata_spec [OF tx h l e]
  have bb: "b \<notin> log_area ?s1" using b(3) tframe_simps(7) [OF d(7)] by simp
  obtain s2 where w: "log_write i ?s1 = Ret s2" "tx_inv (m + 1) s2" "view s2 = view ?s1" "held s2 = held ?s1"
    "dirty s2 = insert b (dirty ?s1)" "disk s2 = disk ?s1" "dwrites s2 = dwrites ?s1" "tframe ?s1 s2"
    "\<And>j c. holds s2 j c \<longleftrightarrow> holds ?s1 j c"
    by (rule log_write_spec [OF d(1) _ b(2) bb]) (use h d(8) in blast)+
  have h2: "holds s2 i b" using w(9) d(8) h by simp
  obtain s3 where q: "brelse i s2 = Ret s3" "tx_inv (m + 1) s3" "view s3 = view s2" "held s3 = held s2 - {b}"
    "dirty s3 = dirty s2" "disk s3 = disk s2" "dwrites s3 = dwrites s2" "tframe s2 s3"
    by (rule tx_brelse_spec [OF w(2) h2]) (use w(5) in blast)+
  have f: "tframe s s3" by (rule tframe_trans [OF tframe_trans [OF d(7) w(8)] q(8)])
  have "budget m T s3" using bu b(1) q(5) w(5) d(4) tx_inv_mono [OF q(2), of 0] tframe_simps(2) [OF f] by (auto simp: budget_def)
  moreover have "view s3 = (view s)(b := g (view s b))" "held s3 = held s - {b}" "disk s3 = disk s" "dwrites s3 = dwrites s"
    using q w d by simp_all
  ultimately show thesis using f by (rule that [OF w(1) q(1)])
qed

section \<open>Reading without a transaction\<close>

text \<open>Enough to read blocks: the cache is in order and has a buffer to spare. It holds inside a transaction and
  between transactions.\<close>

definition rd_ok :: "'a bio_state_scheme \<Rightarrow> bool" where
  "rd_ok s \<longleftrightarrow> bio_inv s \<and> card (held s \<union> dirty s) < NBUF"

definition rframe :: "'a bio_state_scheme \<Rightarrow> 'a bio_state_scheme \<Rightarrow> bool" where
  "rframe s s' \<longleftrightarrow> bio_inv s' \<and> view s' = view s \<and> held s' = held s \<and> dirty s' = dirty s \<and> disk s' = disk s \<and>
     dwrites s' = dwrites s \<and> bframe s s'"

lemma rframe_trans [trans]: "rframe s t \<Longrightarrow> rframe t u \<Longrightarrow> rframe s u"
  by (auto simp: rframe_def intro: bframe_trans)

lemma rframe_refl: "rd_ok s \<Longrightarrow> rframe s s"
  by (simp add: rd_ok_def rframe_def)

lemma rframe_rd_ok: "rframe s s' \<Longrightarrow> rd_ok s \<Longrightarrow> rd_ok s'"
  by (simp add: rd_ok_def rframe_def)

lemma budget_rd_ok: "budget m T s \<Longrightarrow> card (held s) \<le> 2 \<Longrightarrow> rd_ok s"
  using tx_room [OF budget_tx, of m T s] tx_invD(1) [OF budget_tx, of m T s] by (simp add: rd_ok_def)

lemma quiet_rd_ok: "quiet s \<Longrightarrow> rd_ok s"
  by (simp add: quiet_def at_rest_def rd_ok_def)

lemma rd_block:
  fixes s :: "'a bio_state_scheme"
  assumes ok: "rd_ok s" and b: "b < disksize s" "b \<notin> held s" "b \<in> dirty s \<or> view s b = disk s b"
  obtains i s1 s2 where "bread 1 b s = Ret (i, s1)" and "b_data (bufs s1 ! i) = view s b" and "brelse i s1 = Ret s2"
    and "rframe s s2" and "bframe s s1"
proof -
  from ok have inv: "bio_inv s" and room: "(\<exists>i. caches s i b) \<or> card (held s \<union> dirty s) < NBUF" by (auto simp: rd_ok_def)
  obtain i s1 where r: "bread 1 b s = Ret (i, s1)" "bio_inv s1" "holds s1 i b" "view s1 = view s"
    "held s1 = insert b (held s)" "dirty s1 = dirty s" "disk s1 = disk s" "dwrites s1 = dwrites s" "bframe s s1"
    by (rule bread_spec [OF inv b(1,2) room]) blast
  obtain s2 where q: "brelse i s1 = Ret s2" "bio_inv s2" "view s2 = view s1" "held s2 = held s1 - {b}"
    "dirty s2 = dirty s1" "disk s2 = disk s1" "dwrites s2 = dwrites s1" "bframe s1 s2"
    by (rule brelse_spec [OF r(2,3)]) (use b(3) r in auto)
  have "rframe s s2" using q r b(2) bframe_trans [OF r(9) q(8)] by (auto simp: rframe_def)
  moreover have "b_data (bufs s1 ! i) = view s b" using holds_data(1) [OF r(2,3)] r(4) by simp
  ultimately show thesis using r(1,9) q(1) that by blast
qed

section \<open>The blocks of a file\<close>

text \<open>The block with bytes \<open>n * BSIZE\<close> and on, 0 if there is none.\<close>

definition blk :: "(nat \<Rightarrow> uchar list) \<Rightarrow> nat list \<Rightarrow> nat \<Rightarrow> nat" where
  "blk V a n = (if n < NDIRECT then a ! n
     else if a ! NDIRECT = 0 then 0 else get32 (4 * (n - NDIRECT)) (V (a ! NDIRECT)))"

definition own :: "(nat \<Rightarrow> uchar list) \<Rightarrow> nat list \<Rightarrow> nat set" where
  "own V a = (insert (a ! NDIRECT) (blk V a ` {..<MAXFILE})) - {0}"

text \<open>The blocks of a file are data blocks in use, and no block is used twice.\<close>

definition blocks_ok :: "'a fs_state_scheme \<Rightarrow> nat list \<Rightarrow> bool" where
  "blocks_ok s a \<longleftrightarrow> length a = NDIRECT + 1 \<and>
     (\<forall>b \<in> own (view s) a. b < sb_size (sb s) \<and> b \<notin> meta s \<and> b \<notin> free_blocks s) \<and>
     (\<forall>n < MAXFILE. \<forall>k < MAXFILE. blk (view s) a n = blk (view s) a k \<and> blk (view s) a n \<noteq> 0 \<longrightarrow> n = k) \<and>
     (\<forall>n < MAXFILE. blk (view s) a n \<noteq> 0 \<longrightarrow> blk (view s) a n \<noteq> a ! NDIRECT)"

definition inode_ok :: "'a fs_state_scheme \<Rightarrow> nat \<Rightarrow> bool" where
  "inode_ok s ip \<longleftrightarrow> ip < length (icache s) \<and> i_dev (icache s ! ip) = 1 \<and> blocks_ok s (i_addrs (icache s ! ip)) \<and>
     i_size (icache s ! ip) \<le> MAXFILE * BSIZE \<and>
     (\<forall>n. n * BSIZE < i_size (icache s ! ip) \<longrightarrow> blk (view s) (i_addrs (icache s ! ip)) n \<noteq> 0)"

definition fbyte :: "(nat \<Rightarrow> uchar list) \<Rightarrow> nat list \<Rightarrow> nat \<Rightarrow> uchar" where
  "fbyte V a p = V (blk V a (p div BSIZE)) ! (p mod BSIZE)"

definition contents :: "'a fs_state_scheme \<Rightarrow> nat \<Rightarrow> uchar list" where
  "contents s ip = map (fbyte (view s) (i_addrs (icache s ! ip))) [0..<i_size (icache s ! ip)]"

lemma NDIRECT_MAXFILE: "NDIRECT < MAXFILE" "NINDIRECT = MAXFILE - NDIRECT" "4 * NINDIRECT = BSIZE"
  by (simp_all add: MAXFILE_def NINDIRECT_def NDIRECT_def BSIZE_def)

lemma blocks_okD:
  assumes "blocks_ok s a"
  shows "length a = NDIRECT + 1"
    and "\<And>b. b \<in> own (view s) a \<Longrightarrow> b < sb_size (sb s) \<and> b \<notin> meta s \<and> b \<notin> free_blocks s"
    and "\<And>n k. n < MAXFILE \<Longrightarrow> k < MAXFILE \<Longrightarrow> blk (view s) a n = blk (view s) a k \<Longrightarrow> blk (view s) a n \<noteq> 0 \<Longrightarrow> n = k"
    and "\<And>n. n < MAXFILE \<Longrightarrow> blk (view s) a n \<noteq> 0 \<Longrightarrow> blk (view s) a n \<noteq> a ! NDIRECT"
    and "\<And>n. n < MAXFILE \<Longrightarrow> blk (view s) a n \<noteq> 0 \<Longrightarrow> blk (view s) a n \<in> own (view s) a"
    and "a ! NDIRECT \<noteq> 0 \<Longrightarrow> a ! NDIRECT \<in> own (view s) a"
  using assms unfolding blocks_ok_def own_def by blast+

lemma blk_cong: "V (a ! NDIRECT) = V' (a ! NDIRECT) \<Longrightarrow> blk V a n = blk V' a n"
  by (simp add: blk_def)

lemma MAXFILE_div: "p < MAXFILE * BSIZE \<Longrightarrow> p div BSIZE < MAXFILE"
  by (simp add: less_mult_imp_div_less)

lemma get32_zeros: "4 * n + 4 \<le> BSIZE \<Longrightarrow> get32 (4 * n) (replicate BSIZE 0) = 0"
proof -
  have z: "le_nat (replicate k 0) = 0" for k by (induction k) auto
  assume "4 * n + 4 \<le> BSIZE"
  then have "slice_at (4 * n) 4 (replicate BSIZE (0 :: uchar)) = replicate 4 0" by (simp add: slice_at_def)
  then show ?thesis by (simp only: get32_def z)
qed

lemma get32_put32_other:
  "4 * n + 4 \<le> length d \<Longrightarrow> 4 * k + 4 \<le> length d \<Longrightarrow> n \<noteq> k \<Longrightarrow> get32 (4 * n) (put32 (4 * k) v d) = get32 (4 * n) d"
  by (simp add: get32_def put32_def) (subst slice_splice_disjoint; auto)

section \<open>Mapping a block\<close>

lemma bmap_present:
  fixes s :: "'a fs_state_scheme"
  assumes ok: "rd_ok s" and h: "held s = {}" and d: "i_dev (icache s ! ip) = 1" and n: "n < MAXFILE"
    and b: "blk (view s) (i_addrs (icache s ! ip)) n \<noteq> 0"
    and ind: "i_addrs (icache s ! ip) ! NDIRECT < disksize s"
  obtains s' where "bmap ip n s = Ret (blk (view s) (i_addrs (icache s ! ip)) n, s')" and "rframe s s'"
proof (cases "n < NDIRECT")
  case True
  then have "bmap ip n s = Ret (blk (view s) (i_addrs (icache s ! ip)) n, s)" using b by (simp add: bmap_def blk_def Let_def)
  then show thesis using rframe_refl [OF ok] by (rule that)
next
  case False
  let ?a = "i_addrs (icache s ! ip)"
  from b False have a: "?a ! NDIRECT \<noteq> 0" "get32 (4 * (n - NDIRECT)) (view s (?a ! NDIRECT)) \<noteq> 0"
    by (auto simp: blk_def split: if_splits)
  have cl: "?a ! NDIRECT \<in> dirty s \<or> view s (?a ! NDIRECT) = disk s (?a ! NDIRECT)"
    using unheld_clean [of s "?a ! NDIRECT"] ok h by (auto simp: rd_ok_def)
  obtain i s1 s2 where r: "bread 1 (?a ! NDIRECT) s = Ret (i, s1)" "b_data (bufs s1 ! i) = view s (?a ! NDIRECT)"
    "brelse i s1 = Ret s2" "rframe s s2"
    by (rule rd_block [OF ok ind _ cl]) (use h in auto)
  have "bmap ip n s = Ret (blk (view s) ?a n, s2)"
    using False n a r NDIRECT_MAXFILE by (simp add: bmap_def Let_def d blk_def)
  then show thesis using r(4) by (rule that)
qed

lemma rframe_runs_to:
  fixes s s' :: "'a fs_state_scheme"
  assumes "rframe s s'" "budget m T s" "held s = {}"
  shows "budget m T s'" and "tframe s s'"
  using assms tx_inv_bframe [of 0 s s'] bframe_tframe [of s s'] tframe_simps(2) [of s s']
  by (auto simp: rframe_def budget_def)

lemma blocks_ok_extend:
  fixes s s' :: "'a fs_state_scheme"
  assumes ok: "blocks_ok s a" and inv: "fs_inv s" and l: "length a' = NDIRECT + 1" and f: "fframe s s'"
    and N: "free_blocks s' = free_blocks s - N" "N \<subseteq> free_blocks s" "N = insert b (if a' ! NDIRECT = a ! NDIRECT then {} else {a' ! NDIRECT})"
    and n: "n < MAXFILE" "blk (view s) a n = 0" "blk (view s') a' n = b" "b \<noteq> a' ! NDIRECT"
    and o: "\<And>k. k < MAXFILE \<Longrightarrow> k \<noteq> n \<Longrightarrow> blk (view s') a' k = blk (view s) a k"
    and i: "a' ! NDIRECT = a ! NDIRECT \<or> a ! NDIRECT = 0"
  shows "blocks_ok s' a'" and "own (view s') a' = own (view s) a \<union> N"
proof -
  note fs = fframe_simps [OF f]
  have m: "meta s' = meta s" by (simp add: meta_def fs)
  have z: "c \<noteq> 0" "c < sb_size (sb s)" "c \<notin> meta s" if "c \<in> N" for c
    using that N(2) free_not_meta [OF inv] by (auto simp: free_blocks_def meta_def)
  have e: "blk (view s') a' k = (if k = n then b else blk (view s) a k)" if "k < MAXFILE" for k using that n(3) o by simp
  have bN: "b \<in> N" using N(3) by simp
  have n0: "0 \<notin> N" using z(1) by blast
  have im: "blk (view s') a' ` {..<MAXFILE} \<union> {0} = insert b (blk (view s) a ` {..<MAXFILE}) \<union> {0}"
  proof (intro equalityI subsetI)
    fix x assume "x \<in> blk (view s') a' ` {..<MAXFILE} \<union> {0}"
    then show "x \<in> insert b (blk (view s) a ` {..<MAXFILE}) \<union> {0}" using e by (auto split: if_splits)
  next
    fix x assume "x \<in> insert b (blk (view s) a ` {..<MAXFILE}) \<union> {0}"
    then consider "x = b" | k where "k < MAXFILE" "x = blk (view s) a k" | "x = 0" by auto
    then show "x \<in> blk (view s') a' ` {..<MAXFILE} \<union> {0}"
    proof cases
      case 1
      then have "x = blk (view s') a' n" using n(3) by simp
      then show ?thesis using n(1) by blast
    next
      case (2 k)
      show ?thesis
      proof (cases "k = n")
        case False
        then have "x = blk (view s') a' k" using 2 e by simp
        then show ?thesis using 2 by blast
      qed (use 2 n(2) in simp)
    qed simp
  qed
  have ow: "own V c = insert (c ! NDIRECT) (blk V c ` {..<MAXFILE} \<union> {0}) - {0}" for V :: "nat \<Rightarrow> uchar list" and c
    by (auto simp: own_def)
  have ind: "a' ! NDIRECT = a ! NDIRECT \<or> a ! NDIRECT = 0 \<and> a' ! NDIRECT \<in> N" using i N(3) by auto
  show own': "own (view s') a' = own (view s) a \<union> N"
    unfolding ow im using ind n0 bN N(3) by (auto split: if_splits)
  have fr: "N \<inter> own (view s) a = {}" using N(2) blocks_okD(2) [OF ok] by blast
  have inj: "j = k" if "j < MAXFILE" "k < MAXFILE" "blk (view s') a' j = blk (view s') a' k" "blk (view s') a' j \<noteq> 0" for j k
  proof (cases "j = n \<or> k = n")
    case True
    have "b \<notin> own (view s) a" using fr bN by blast
    then have "blk (view s) a x \<noteq> b" if "x < MAXFILE" for x
      using blocks_okD(5) [OF ok that] z(1) [OF bN] by force
    with True that e show ?thesis by (auto split: if_splits)
  next
    case False
    then show ?thesis using that e blocks_okD(3) [OF ok] by auto
  qed
  have sep: "blk (view s') a' k \<noteq> a' ! NDIRECT" if "k < MAXFILE" "blk (view s') a' k \<noteq> 0" for k
  proof (cases "k = n")
    case False
    then have k: "blk (view s') a' k = blk (view s) a k" "blk (view s) a k \<noteq> 0" using e that by auto
    from ind show ?thesis
    proof
      assume "a' ! NDIRECT = a ! NDIRECT"
      then show ?thesis using k blocks_okD(4) [OF ok that(1)] by simp
    next
      assume "a ! NDIRECT = 0 \<and> a' ! NDIRECT \<in> N"
      then show ?thesis using k fr blocks_okD(5) [OF ok that(1)] by auto
    qed
  qed (use n in simp)
  have dat: "c < sb_size (sb s') \<and> c \<notin> meta s' \<and> c \<notin> free_blocks s'" if "c \<in> own (view s') a'" for c
    using that blocks_okD(2) [OF ok, of c] z [of c] N(1) unfolding own' m fs by blast
  show "blocks_ok s' a'" unfolding blocks_ok_def using l dat inj sep by blast
qed

text \<open>From \<open>s\<close> to \<open>s'\<close> file \<open>ip\<close> has at most gained blocks; outside its blocks and the free map nothing has
  changed.\<close>

definition grown :: "'a fs_state_scheme \<Rightarrow> nat \<Rightarrow> 'a fs_state_scheme \<Rightarrow> bool" where
  "grown s ip s' \<longleftrightarrow>
     (let a = i_addrs (icache s ! ip); a' = i_addrs (icache s' ! ip); V = view s; V' = view s'
      in fs_inv s' \<and> blocks_ok s' a' \<and> held s' = {} \<and> disk s' = disk s \<and> dwrites s' = dwrites s \<and> fframe s s' \<and>
         icache s' = (icache s)[ip := (icache s ! ip)\<lparr>i_addrs := a'\<rparr>] \<and>
         (\<forall>k < MAXFILE. blk V a k \<noteq> 0 \<longrightarrow> blk V' a' k = blk V a k) \<and>
         own V a \<subseteq> own V' a' \<and> free_blocks s' = free_blocks s - own V' a' \<and>
         (\<forall>c. c \<notin> bmaps (sb s) \<and> c \<notin> own V' a' \<longrightarrow> V' c = V c) \<and> own V' a' \<subseteq> own V a \<union> free_blocks s)"

lemma grownD:
  assumes "grown s ip s'"
  shows "fs_inv s'" and "blocks_ok s' (i_addrs (icache s' ! ip))" and "held s' = {}" and "disk s' = disk s"
    and "dwrites s' = dwrites s" and "fframe s s'"
    and "icache s' = (icache s)[ip := (icache s ! ip)\<lparr>i_addrs := i_addrs (icache s' ! ip)\<rparr>]"
    and "\<And>k. k < MAXFILE \<Longrightarrow> blk (view s) (i_addrs (icache s ! ip)) k \<noteq> 0 \<Longrightarrow>
      blk (view s') (i_addrs (icache s' ! ip)) k = blk (view s) (i_addrs (icache s ! ip)) k"
    and "own (view s) (i_addrs (icache s ! ip)) \<subseteq> own (view s') (i_addrs (icache s' ! ip))"
    and "free_blocks s' = free_blocks s - own (view s') (i_addrs (icache s' ! ip))"
    and "\<And>c. c \<notin> bmaps (sb s) \<Longrightarrow> c \<notin> own (view s') (i_addrs (icache s' ! ip)) \<Longrightarrow> view s' c = view s c"
    and "own (view s') (i_addrs (icache s' ! ip)) \<subseteq> own (view s) (i_addrs (icache s ! ip)) \<union> free_blocks s"
  using assms unfolding grown_def Let_def by blast+

lemma grown_trans [trans]:
  assumes st: "grown s ip t" and tu: "grown t ip u" and ip: "ip < length (icache s)"
  shows "grown s ip u"
proof -
  note A = grownD [OF st] and B = grownD [OF tu]
  have sbt: "sb t = sb s" using fframe_simps(1) [OF A(6)] .
  have ic: "icache u = (icache s)[ip := (icache s ! ip)\<lparr>i_addrs := i_addrs (icache u ! ip)\<rparr>]"
    by (subst B(7), subst (1 2) A(7)) (simp add: ip)
  show ?thesis unfolding grown_def Let_def
  proof (intro conjI allI impI)
    show "fs_inv u" "blocks_ok u (i_addrs (icache u ! ip))" "held u = {}" using B by blast+
    show "disk u = disk s" "dwrites u = dwrites s" using A B by simp_all
    show "fframe s u" by (rule fframe_trans [OF A(6) B(6)])
    show "icache u = (icache s)[ip := (icache s ! ip)\<lparr>i_addrs := i_addrs (icache u ! ip)\<rparr>]" by (rule ic)
    show "blk (view u) (i_addrs (icache u ! ip)) k = blk (view s) (i_addrs (icache s ! ip)) k"
      if "k < MAXFILE" "blk (view s) (i_addrs (icache s ! ip)) k \<noteq> 0" for k
      using A(8) [OF that] B(8) [OF that(1)] that(2) by simp
    show "own (view s) (i_addrs (icache s ! ip)) \<subseteq> own (view u) (i_addrs (icache u ! ip))" using A(9) B(9) by blast
    show "free_blocks u = free_blocks s - own (view u) (i_addrs (icache u ! ip))" using A(9,10) B(9,10) by blast
    show "view u c = view s c" if "c \<notin> bmaps (sb s) \<and> c \<notin> own (view u) (i_addrs (icache u ! ip))" for c
      using that A(11) [of c] B(9) B(11) [of c] sbt by auto
    show "own (view u) (i_addrs (icache u ! ip)) \<subseteq> own (view s) (i_addrs (icache s ! ip)) \<union> free_blocks s"
      using A(10,12) B(12) by blast
  qed
qed

text \<open>Room in the log for an indirect block that is not among the blocks counted, and the need of a block for it.\<close>

definition reserve :: "nat set \<Rightarrow> nat list \<Rightarrow> nat" where
  "reserve T a = (if a ! NDIRECT \<in> T \<and> a ! NDIRECT \<noteq> 0 then 0 else 1)"

definition lack :: "nat list \<Rightarrow> nat" where
  "lack a = (if a ! NDIRECT = 0 then 1 else 0)"

lemma reserve_mono: "T \<subseteq> T' \<Longrightarrow> reserve T' a \<le> reserve T a"
  by (auto simp: reserve_def)

lemma finite_free [simp]: "finite (free_blocks s)"
  by (rule finite_subset [of _ "{..<sb_size (sb s)}"]) (auto simp: free_blocks_def)

lemma grown_refl:
  assumes "fs_inv s" "blocks_ok s (i_addrs (icache s ! ip))" "held s = {}" "ip < length (icache s)"
    and f: "tframe s s'" "bio_inv s'" "view s' = view s" "held s' = {}" "disk s' = disk s" "dwrites s' = dwrites s"
  shows "grown s ip s'"
proof -
  note F = tframe_fframe [OF f(1)]
  note I = fs_inv_frame [OF assms(1) F(1)]
  have m: "meta s' = meta s" using fframe_simps [OF F(1)] by (simp add: meta_def)
  have fr: "free_blocks s' = free_blocks s" "fs_inv s'" using I f(3) by auto
  have "blocks_ok s' (i_addrs (icache s ! ip))" using assms(2) unfolding blocks_ok_def f(3) m fr F(3) .
  moreover have "free_blocks s \<inter> own (view s) (i_addrs (icache s ! ip)) = {}" using blocks_okD(2) [OF assms(2)] by blast
  ultimately show ?thesis unfolding grown_def Let_def F(2) f(3-6) fr(1) using fr(2) F(1) assms(4) by auto
qed

lemma own_view_cong:
  assumes "V (a ! NDIRECT) = V' (a ! NDIRECT)"
  shows "own V a = own V' a"
  using blk_cong [of V a V', OF assms] by (simp add: own_def)

lemma alloc_view_other: "c \<noteq> b \<Longrightarrow> c \<notin> bmaps super \<Longrightarrow> b < sb_size super \<Longrightarrow> alloc_view super b V c = V c"
  by (auto simp: alloc_view_def bmaps_def)

lemma bmap_direct_new:
  fixes s :: "'a fs_state_scheme"
  assumes inv: "fs_inv s" and bu: "budget (Suc m) T s" and h: "held s = {}" and t: "bmaps (sb s) \<subseteq> T"
    and ip: "ip < length (icache s)" "i_dev (icache s ! ip) = 1" and ok: "blocks_ok s a" "a = i_addrs (icache s ! ip)"
    and n: "n < NDIRECT" "a ! n = 0" and fr: "free_blocks s \<noteq> {}"
  obtains b s' where "bmap ip n s = Ret (b, s')" and "grown s ip s'" and "budget m (insert b T) s'"
    and "i_addrs (icache s' ! ip) = a[n := b]" and "b \<noteq> 0"
    and "\<And>c. c \<notin> bmaps (sb s) \<Longrightarrow> c \<notin> free_blocks s \<Longrightarrow> view s' c = view s c"
    and "free_blocks s' = free_blocks s - {b}" and "b \<in> free_blocks s"
proof -
  define b where "b = Min (free_blocks s)"
  let ?a = "a[n := b]"
  have fb: "b \<in> free_blocks s" unfolding b_def using fr by (intro Min_in) simp
  then have bs: "b < sb_size (sb s)" by (simp add: free_blocks_def)
  obtain s1 where r: "balloc 1 s = Ret (b, s1)" "runs_to m (insert b T) s s1"
    "view s1 = alloc_view (sb s) b (view s)" "icache s1 = icache s" "fs_inv s1" "free_blocks s1 = free_blocks s - {b}"
    unfolding b_def by (rule balloc_spec [OF inv budget_widen [OF bu]]) (use h t fr in auto)
  note rs = runs_toD [OF r(2)]
  let ?s' = "upd_inode ip (\<lambda>x. x\<lparr>i_addrs := ?a\<rparr>) s1"
  have e: "bmap ip n s = Ret (b, ?s')" using n ok ip by (simp add: bmap_def Let_def r upd_inode_def)
  have ic: "icache ?s' = (icache s)[ip := (icache s ! ip)\<lparr>i_addrs := ?a\<rparr>]" by (simp add: upd_inode_def r(4))
  then have a': "i_addrs (icache ?s' ! ip) = ?a" using ip by simp
  have f: "fframe s ?s'" by (rule fframe_trans [OF rs(5) fframe_upd_inode])
  have bz: "b \<noteq> 0" "b \<notin> meta s" using free_not_meta [OF inv fb] by (auto simp: meta_def)
  have V: "view ?s' = alloc_view (sb s) b (view s)" by (simp add: r(3))
  have vo: "view ?s' c = view s c" if "c \<notin> bmaps (sb s)" "c \<notin> free_blocks s" for c
    unfolding V by (rule alloc_view_other) (use that fb bs in auto)
  have l: "length ?a = NDIRECT + 1" using blocks_okD(1) [OF ok(1)] by simp
  have nd: "?a ! NDIRECT = a ! NDIRECT" using n(1) by simp
  have iv: "view ?s' (a ! NDIRECT) = view s (a ! NDIRECT)" if "a ! NDIRECT \<noteq> 0"
    using vo blocks_okD(2) [OF ok(1) blocks_okD(6) [OF ok(1) that]] by (auto simp: meta_def)
  have bk: "blk (view ?s') ?a k = (if k = n then b else blk (view s) a k)" for k
    using n(1) blocks_okD(1) [OF ok(1)] iv by (auto simp: blk_def)
  have inv': "fs_inv ?s'" and fr': "free_blocks ?s' = free_blocks s1"
    using fs_inv_frame [OF r(5) fframe_upd_inode] by simp_all
  have nm: "n < MAXFILE" "blk (view s) a n = 0" using n NDIRECT_MAXFILE by (auto simp: blk_def)
  have N: "free_blocks ?s' = free_blocks s - {b}" by (simp add: fr' r(6))
  have bi: "b \<noteq> ?a ! NDIRECT"
  proof
    assume "b = ?a ! NDIRECT"
    then have "a ! NDIRECT = b" using nd by simp
    then show False using blocks_okD(2) [OF ok(1) blocks_okD(6) [OF ok(1)]] bz(1) fb by simp
  qed
  note X = blocks_ok_extend [OF ok(1) inv l f N _ _ nm _ bi]
  have bo: "blocks_ok ?s' ?a" by (rule X(1)) (use fb bk nd in auto)
  have ow: "own (view ?s') ?a = own (view s) a \<union> {b}" by (rule X(2)) (use fb bk nd in auto)
  have g: "grown s ip ?s'" unfolding grown_def Let_def a' ok(2) [symmetric]
    using inv' bo ow rs h f ic bk N fb blocks_okD(2) [OF ok(1)]
      alloc_view_other [OF _ _ bs] nm by (auto simp: r(3) split: if_splits)
  have "budget m (insert b T) ?s'" using rs(1) by simp
  then show thesis by (rule that [OF e g _ a' bz(1) vo N fb])
qed

text \<open>The part of \<open>bmap\<close> after the indirect block is known.\<close>

definition bmap_tail :: "nat \<Rightarrow> nat \<Rightarrow> nat \<Rightarrow> 'a fs_state_scheme \<Rightarrow> (nat \<times> 'a fs_state_scheme) res" where
  "bmap_tail dev ind bn s =
     bnd (bread dev ind s) (\<lambda>(bp, s).
     let addr = get32 (4 * bn) (b_data (bufs s ! bp))
     in if addr = 0
        then bnd (balloc dev s) (\<lambda>(addr, s).
             bnd (log_write bp (set_data bp (put32 (4 * bn) addr) s)) (\<lambda>s.
             bnd (brelse bp s) (\<lambda>s. Ret (addr, s))))
        else bnd (brelse bp s) (\<lambda>s. Ret (addr, s)))"

lemma bmap_indirect:
  assumes "NDIRECT \<le> n" "n < MAXFILE"
  shows "bmap ip n s =
    (let x = icache s ! ip
     in bnd (if i_addrs x ! NDIRECT = 0
             then bnd (balloc (i_dev x) s) (\<lambda>(addr, s).
                  Ret (addr, upd_inode ip (\<lambda>x. x\<lparr>i_addrs := (i_addrs x)[NDIRECT := addr]\<rparr>) s))
             else Ret (i_addrs x ! NDIRECT, s)) (\<lambda>(ind, s). bmap_tail (i_dev x) ind (n - NDIRECT) s))"
proof -
  have "\<not> n < NDIRECT" "n - NDIRECT < NINDIRECT" using assms NDIRECT_MAXFILE by linarith+
  then show ?thesis by (simp add: bmap_def bmap_tail_def Let_def)
qed

lemma bmap_tail_new:
  fixes s :: "'a fs_state_scheme"
  assumes inv: "fs_inv s" and bu: "budget (Suc m) T s" and h: "held s = {}" and t: "bmaps (sb s) \<subseteq> T"
    and ip: "ip < length (icache s)" and ok: "blocks_ok s a" "a = i_addrs (icache s ! ip)"
    and ind: "a ! NDIRECT \<noteq> 0" "a ! NDIRECT \<in> T" and n: "NDIRECT \<le> n" "n < MAXFILE" "blk (view s) a n = 0"
    and fr: "free_blocks s \<noteq> {}"
  obtains b s' where "bmap_tail 1 (a ! NDIRECT) (n - NDIRECT) s = Ret (b, s')" and "grown s ip s'"
    and "budget m (insert b T) s'" and "i_addrs (icache s' ! ip) = a" and "b \<noteq> 0" and "blk (view s') a n = b"
    and "\<And>c. c \<notin> bmaps (sb s) \<Longrightarrow> c \<notin> free_blocks s \<Longrightarrow> c \<noteq> a ! NDIRECT \<Longrightarrow> view s' c = view s c"
    and "free_blocks s' = free_blocks s - {b}" and "b \<in> free_blocks s"
proof -
  let ?i = "a ! NDIRECT"
  let ?j = "n - NDIRECT"
  define b where "b = Min (free_blocks s)"
  have fb: "b \<in> free_blocks s" unfolding b_def using fr by (intro Min_in) simp
  then have bs: "b < sb_size (sb s)" by (simp add: free_blocks_def)
  have bz: "b \<noteq> 0" "b \<notin> meta s" using free_not_meta [OF inv fb] by (auto simp: meta_def)
  have io: "?i < sb_size (sb s)" "?i \<notin> meta s" "?i \<notin> free_blocks s"
    using blocks_okD(2) [OF ok(1) blocks_okD(6) [OF ok(1) ind(1)]] by auto
  have id: "?i < disksize s" "?i < 2 ^ 32" "?i \<notin> log_area s" "?i \<notin> bmaps (sb s)" "?i \<noteq> b"
    using io fs_invD(1,2) [OF inv] fb by (auto simp: meta_def)
  obtain i s1 where r1: "bread 1 ?i s = Ret (i, s1)" "b_data (bufs s1 ! i) = view s ?i" "budget (Suc m) T s1" "holds s1 i ?i"
    "view s1 = view s" "held s1 = insert ?i (held s)" "disk s1 = disk s" "dwrites s1 = dwrites s" "tframe s s1"
    by (rule budget_bread [OF bu id(1)]) (use h in auto)
  note f1 = tframe_fframe [OF r1(9)]
  have I1: "fs_inv s1" "free_blocks s1 = free_blocks s" using fs_inv_frame [OF inv f1(1)] r1(5) by auto
  obtain s2 where r2: "balloc 1 s1 = Ret (b, s2)" "runs_to m (insert b T) s1 s2"
    "view s2 = alloc_view (sb s) b (view s)" "icache s2 = icache s" "fs_inv s2" "free_blocks s2 = free_blocks s - {b}"
    unfolding b_def
    by (rule balloc_spec [OF I1(1) budget_widen [OF r1(3)]]) (use h t fr I1 f1 r1 io id in auto)
  note rs = runs_toD [OF r2(2)]
  have h2: "holds s2 i ?i" using rs(6) r1(4) by blast
  have v2: "view s2 ?i = view s ?i" unfolding r2(3) by (rule alloc_view_other) (use id bs in auto)
  have l: "length (view s ?i) = BSIZE" by (rule budget_view_length [OF bu id(1)])
  have j: "4 * ?j + 4 \<le> BSIZE" using n NDIRECT_MAXFILE by linarith
  have la: "log_area s2 = log_area s" using rs(9) tframe_simps(7) [OF r1(9)] by simp
  obtain s3 s4 where r3: "log_write i (set_data i (put32 (4 * ?j) b) s2) = Ret s3" "brelse i s3 = Ret s4"
    "budget m (insert b T) s4" "view s4 = (view s2)(?i := put32 (4 * ?j) b (view s2 ?i))" "held s4 = held s2 - {?i}"
    "disk s4 = disk s2" "dwrites s4 = dwrites s2" "tframe s2 s4"
    by (rule budget_log_held [where g = "put32 (4 * ?j) b", OF rs(1) h2]) (use ind(2) id la v2 l j in auto)
  note f3 = tframe_fframe [OF r3(8)]
  have ez: "get32 (4 * ?j) (view s ?i) = 0" using n ind(1) by (simp add: blk_def)
  have e: "bmap_tail 1 ?i ?j s = Ret (b, s4)" by (simp add: bmap_tail_def r1 r2 r3 ez Let_def)
  have f: "fframe s s4" by (rule fframe_trans [OF fframe_trans [OF f1(1) rs(5)] f3(1)])
  have ic: "icache s4 = icache s" using f3(2) r2(4) by simp
  have V: "view s4 = (alloc_view (sb s) b (view s))(?i := put32 (4 * ?j) b (view s ?i))"
    using r3(4) unfolding v2 by (simp add: r2(3))
  have vo: "view s4 c = view s c" if "c \<notin> bmaps (sb s)" "c \<notin> free_blocks s" "c \<noteq> ?i" for c
    unfolding V using that alloc_view_other [of c b "sb s" "view s"] fb bs by auto
  have b32: "b < 2 ^ 32" using bs fs_invD(2) [OF inv] by simp
  have bk: "blk (view s4) a k = (if k = n then b else blk (view s) a k)" if "k < MAXFILE" for k
  proof (cases "k < NDIRECT")
    case False
    then have k4: "4 * (k - NDIRECT) + 4 \<le> length (view s ?i)" using that l NDIRECT_MAXFILE by linarith
    have j4: "4 * ?j + 4 \<le> length (view s ?i)" using j l by simp
    show ?thesis
    proof (cases "k = n")
      case True
      then show ?thesis using False ind(1) get32_put32_same [OF j4, of b] b32 by (simp add: blk_def V)
    next
      case ne: False
      then have "k - NDIRECT \<noteq> ?j" using False n(1) by linarith
      then show ?thesis using ne False ind(1) get32_put32_other [OF k4 j4] by (simp add: blk_def V)
    qed
  qed (use n in \<open>simp add: blk_def\<close>)
  have k4: "view s4 c = view s2 c" if "c \<noteq> ?i" for c using that by (simp add: r3(4))
  have "view s4 c = view s2 c" if "c \<in> bmaps (sb s2)" for c by (rule k4) (use that id(4) rs(7) f1(3) in auto)
  moreover have "view s4 1 = view s2 1" by (rule k4) (use io(2) in \<open>auto simp: meta_def\<close>)
  ultimately have I4: "fs_inv s4" "free_blocks s4 = free_blocks s2" using fs_inv_frame [OF r2(5) f3(1)] by blast+
  have N: "free_blocks s4 = free_blocks s - {b}" by (simp add: I4(2) r2(6))
  note X = blocks_ok_extend [OF ok(1) inv blocks_okD(1) [OF ok(1)] f N _ _ n(2,3) _ id(5) [symmetric]]
  have bo: "blocks_ok s4 a" by (rule X(1)) (use fb bk n in auto)
  have ow: "own (view s4) a = own (view s) a \<union> {b}" by (rule X(2)) (use fb bk n in auto)
  have h4: "held s4 = {}" using r3(5) rs(2) r1(6) h by auto
  have dk: "disk s4 = disk s" "dwrites s4 = dwrites s" using r3(6,7) rs(3,4) r1(7,8) by simp_all
  have out: "view s4 c = view s c" if "c \<notin> bmaps (sb s)" "c \<notin> own (view s4) a" for c
  proof -
    have "c \<noteq> b" "c \<noteq> ?i" using that(2) ow blocks_okD(6) [OF bo ind(1)] by auto
    then show ?thesis unfolding V using alloc_view_other [of c b "sb s" "view s"] that(1) bs by simp
  qed
  have ge: "\<forall>k < MAXFILE. blk (view s) a k \<noteq> 0 \<longrightarrow> blk (view s4) a k = blk (view s) a k" using bk n(3) by auto
  have fo: "free_blocks s4 = free_blocks s - own (view s4) a" unfolding N ow using blocks_okD(2) [OF ok(1)] by blast
  have g: "grown s ip s4" unfolding grown_def Let_def ic ok(2) [symmetric]
    using I4(1) bo h4 dk f ge ow fo fb out ip ok(2) by auto
  have a': "i_addrs (icache s4 ! ip) = a" using ic ok(2) by simp
  have bn: "blk (view s4) a n = b" using bk [OF n(2)] by simp
  show thesis by (rule that [OF e g r3(3) a' bz(1) bn vo N fb])
qed

lemma blocks_ok_indirect:
  fixes s s' :: "'a fs_state_scheme"
  assumes ok: "blocks_ok s a" and inv: "fs_inv s" and f: "fframe s s'" and a: "a ! NDIRECT = 0"
    and b: "b \<in> free_blocks s" "free_blocks s' = free_blocks s - {b}"
    and o: "\<And>k. k < MAXFILE \<Longrightarrow> blk (view s') (a[NDIRECT := b]) k = blk (view s) a k"
  shows "blocks_ok s' (a[NDIRECT := b])" and "own (view s') (a[NDIRECT := b]) = insert b (own (view s) a)"
proof -
  note fs = fframe_simps [OF f]
  have m: "meta s' = meta s" by (simp add: meta_def fs)
  have bz: "b \<noteq> 0" "b \<notin> meta s" "b < sb_size (sb s)" using free_not_meta [OF inv b(1)] b(1) by (auto simp: meta_def free_blocks_def)
  have nd: "a[NDIRECT := b] ! NDIRECT = b" using blocks_okD(1) [OF ok] by simp
  have im: "blk (view s') (a[NDIRECT := b]) ` {..<MAXFILE} = blk (view s) a ` {..<MAXFILE}" using o by (intro image_cong) auto
  show ow: "own (view s') (a[NDIRECT := b]) = insert b (own (view s) a)" unfolding own_def im nd a using bz by auto
  have "b \<notin> own (view s) a" using blocks_okD(2) [OF ok] b(1) by blast
  then have nb: "blk (view s) a k \<noteq> b" if "k < MAXFILE" "blk (view s) a k \<noteq> 0" for k
    using blocks_okD(5) [OF ok that] by auto
  have "c < sb_size (sb s') \<and> c \<notin> meta s' \<and> c \<notin> free_blocks s'" if "c \<in> own (view s') (a[NDIRECT := b])" for c
    using that blocks_okD(2) [OF ok, of c] bz b(2) unfolding ow m fs by blast
  then show "blocks_ok s' (a[NDIRECT := b])"
    unfolding blocks_ok_def nd using blocks_okD(1,3) [OF ok] o nb by (auto simp: o)
qed

lemma bmap_spec:
  fixes s :: "'a fs_state_scheme"
  assumes inv: "fs_inv s" and bu: "budget (Suc m + reserve T a) T s" and h: "held s = {}" and t: "bmaps (sb s) \<subseteq> T"
    and ip: "ip < length (icache s)" "i_dev (icache s ! ip) = 1" and ok: "blocks_ok s a" "a = i_addrs (icache s ! ip)"
    and n: "n < MAXFILE" and fr: "j + 1 + lack a \<le> card (free_blocks s)"
  obtains b s' T' where "bmap ip n s = Ret (b, s')" and "grown s ip s'" and "T \<subseteq> T'" and "b \<in> T'"
    and "budget (m + reserve T' (i_addrs (icache s' ! ip))) T' s'" and "blk (view s') (i_addrs (icache s' ! ip)) n = b" and "b \<noteq> 0"
    and "\<And>k. k < MAXFILE \<Longrightarrow> blk (view s) a k \<noteq> 0 \<Longrightarrow> view s' (blk (view s) a k) = view s (blk (view s) a k)"
    and "j + lack (i_addrs (icache s' ! ip)) \<le> card (free_blocks s')"
    and "blk (view s) a n \<noteq> 0 \<Longrightarrow> i_addrs (icache s' ! ip) = a"
    and "T' \<subseteq> T \<union> own (view s') (i_addrs (icache s' ! ip))"
proof -
  have mem: "blk V x n \<noteq> 0 \<Longrightarrow> blk V x n \<in> own V x" "x ! NDIRECT \<noteq> 0 \<Longrightarrow> x ! NDIRECT \<in> own V x" for V x
    using n by (simp_all add: own_def)
  have own: "blk (view s) a k \<notin> bmaps (sb s)" "blk (view s) a k \<notin> free_blocks s" "blk (view s) a k \<noteq> a ! NDIRECT"
    if "k < MAXFILE" "blk (view s) a k \<noteq> 0" for k
    using blocks_okD(2) [OF ok(1) blocks_okD(5) [OF ok(1) that]] blocks_okD(4) [OF ok(1) that] by (auto simp: meta_def)
  have fne: "free_blocks s \<noteq> {}" using fr by auto
  have cd: "card (free_blocks s - {b}) = card (free_blocks s) - 1" if "b \<in> free_blocks s" for b
    using that by (simp add: One_nat_def)
  consider (old) "blk (view s) a n \<noteq> 0" | (direct) "n < NDIRECT" "a ! n = 0"
    | (entry) "NDIRECT \<le> n" "a ! NDIRECT \<noteq> 0" "blk (view s) a n = 0" | (both) "NDIRECT \<le> n" "a ! NDIRECT = 0"
    by (cases "n < NDIRECT"; cases "a ! NDIRECT = 0") (auto simp: blk_def not_less)
  then show thesis
  proof cases
    case old
    have ind: "a ! NDIRECT < disksize s"
    proof (cases "a ! NDIRECT = 0")
      case True
      then show ?thesis using fs_invD(1) [OF inv] fs_invD(3) [OF inv, of 0] by (simp add: meta_def)
    next
      case False
      then show ?thesis using blocks_okD(2) [OF ok(1) blocks_okD(6) [OF ok(1)]] fs_invD(1) [OF inv] by fastforce
    qed
    have "rd_ok s" by (rule budget_rd_ok [OF bu]) (simp add: h)
    then obtain s' where r: "bmap ip n s = Ret (blk (view s) a n, s')" "rframe s s'"
      using bmap_present [of s ip n] h ip(2) n old ind unfolding ok(2) by blast
    note R = rframe_runs_to [OF r(2) bu h]
    have fa: "icache s' = icache s" using tframe_fframe(2) [OF R(2)] .
    have g: "grown s ip s'" using r(2) h by (intro grown_refl [OF inv ok(1) [unfolded ok(2)] h ip(1) R(2)]) (auto simp: rframe_def)
    let ?T = "insert (blk (view s) a n) T"
    have "budget (m + reserve T a) ?T s'" using budget_widen [of "m + reserve T a" T s'] R(1) by simp
    then have bu': "budget (m + reserve ?T a) ?T s'" using reserve_mono [of T ?T a] by (elim budget_less) auto
    have fr': "free_blocks s' = free_blocks s" "view s' = view s"
      using fs_inv_frame [OF inv grownD(6) [OF g]] r(2) by (auto simp: rframe_def)
    show thesis by (rule that [OF r(1) g _ _ bu' [unfolded ok(2) fa [symmetric]] _ old]) (use fr fr' fa ok(2) mem(1) [OF old] in auto)
  next
    case direct
    obtain b s' where r: "bmap ip n s = Ret (b, s')" "grown s ip s'" "budget (m + reserve T a) (insert b T) s'"
      "i_addrs (icache s' ! ip) = a[n := b]" "b \<noteq> 0"
      "\<And>c. c \<notin> bmaps (sb s) \<Longrightarrow> c \<notin> free_blocks s \<Longrightarrow> view s' c = view s c" "free_blocks s' = free_blocks s - {b}" "b \<in> free_blocks s"
      by (rule bmap_direct_new [OF inv _ h t ip ok direct fne]) (use bu in auto)
    have bu': "budget (m + reserve (insert b T) (a[n := b])) (insert b T) s'"
      using r(3) direct(1) by (elim budget_less) (auto simp: reserve_def)
    have "blk (view s') (a[n := b]) n = b" using direct(1) blocks_okD(1) [OF ok(1)] by (simp add: blk_def)
    moreover have "lack (a[n := b]) = lack a" using direct(1) by (simp add: lack_def)
    moreover have "blk (view s) a n = 0" using direct by (simp add: blk_def)
    moreover have "b \<in> own (view s') (a[n := b])" using mem(1) [of "view s'" "a[n := b]"] calculation(1) r(5) by simp
    ultimately show thesis using fr cd [OF r(8)] own
      by (intro that [OF r(1,2) _ _ bu' [folded r(4)] _ r(5)]) (auto simp: r(4,7) intro: r(6))
  next
    case entry
    have "budget (Suc m) (insert (a ! NDIRECT) T) s"
    proof (cases "a ! NDIRECT \<in> T")
      case True
      then show ?thesis using bu entry(2) by (simp add: reserve_def insert_absorb)
    next
      case False
      then show ?thesis using bu budget_widen [of "Suc m" T s] by (simp add: reserve_def One_nat_def)
    qed
    then obtain b s' where r: "bmap_tail 1 (a ! NDIRECT) (n - NDIRECT) s = Ret (b, s')" "grown s ip s'"
      "budget m (insert b (insert (a ! NDIRECT) T)) s'" "i_addrs (icache s' ! ip) = a" "b \<noteq> 0" "blk (view s') a n = b"
      "\<And>c. c \<notin> bmaps (sb s) \<Longrightarrow> c \<notin> free_blocks s \<Longrightarrow> c \<noteq> a ! NDIRECT \<Longrightarrow> view s' c = view s c"
      "free_blocks s' = free_blocks s - {b}" "b \<in> free_blocks s"
      by (rule bmap_tail_new [OF inv _ h _ ip(1) ok entry(2) _ entry(1) n entry(3) fne]) (use t in auto)
    have e: "bmap ip n s = Ret (b, s')" using entry(2) r(1) ip(2) ok(2) by (simp add: bmap_indirect [OF entry(1) n])
    have "reserve (insert b (insert (a ! NDIRECT) T)) a = 0" "lack a = 0" using entry(2) by (simp_all add: reserve_def lack_def)
    moreover have "b \<in> own (view s') a" "a ! NDIRECT \<in> own (view s') a"
      using mem [where V = "view s'" and x = a] r(5,6) entry(2) by auto
    ultimately show thesis using r fr cd [OF r(9)] own
      by (intro that [OF e r(2), of "insert b (insert (a ! NDIRECT) T)"]) (auto simp: r(4))
  next
    case both
    define f where "f = Min (free_blocks s)"
    have ff: "f \<in> free_blocks s" unfolding f_def by (rule Min_in) (use fne in auto)
    have rs1: "reserve T a = 1" "lack a = 1" using both(2) by (simp_all add: reserve_def lack_def)
    have fne1: "free_blocks s - {f} \<noteq> {}"
    proof
      assume "free_blocks s - {f} = {}"
      then have "card (free_blocks s - {f}) = 0" by simp
      then show False using cd [OF ff] fr rs1(2) by simp
    qed
    have fs: "f < sb_size (sb s)" using ff by (simp add: free_blocks_def)
    have bu1: "budget (Suc m) (insert f T) s" using bu budget_widen [of "Suc m" T s] rs1 by (simp add: One_nat_def)
    obtain s1 where r1: "balloc 1 s = Ret (f, s1)" "runs_to (Suc m) (insert f T) s s1"
      "view s1 = alloc_view (sb s) f (view s)" "icache s1 = icache s" "fs_inv s1" "free_blocks s1 = free_blocks s - {f}"
      unfolding f_def by (rule balloc_spec [OF inv bu1 [unfolded f_def]]) (use h t fne in auto)
    note q1 = runs_toD [OF r1(2)]
    let ?a = "a[NDIRECT := f]"
    define s2 where "s2 = upd_inode ip (\<lambda>x. x\<lparr>i_addrs := (i_addrs x)[NDIRECT := f]\<rparr>) s1"
    have c2: "view s2 = view s1" "held s2 = {}" "disk s2 = disk s" "dwrites s2 = dwrites s" "budget (Suc m) (insert f T) s2"
      using q1 h by (simp_all add: s2_def)
    have ic: "icache s2 = (icache s)[ip := (icache s ! ip)\<lparr>i_addrs := ?a\<rparr>]" by (simp add: s2_def upd_inode_def r1(4) ok(2))
    then have a2: "i_addrs (icache s2 ! ip) = ?a" using ip(1) by simp
    have f2: "fframe s s2" unfolding s2_def by (rule fframe_trans [OF q1(5) fframe_upd_inode])
    have I2: "fs_inv s2" "free_blocks s2 = free_blocks s - {f}"
      using fs_inv_frame [OF r1(5) fframe_upd_inode] by (simp_all add: s2_def r1(6))
    have nd: "?a ! NDIRECT = f" using blocks_okD(1) [OF ok(1)] by simp
    have fz: "f \<noteq> 0" using free_not_meta [OF inv ff] by (auto simp: meta_def)
    have vz: "view s2 f = replicate BSIZE 0" by (simp add: c2(1) r1(3) alloc_view_def)
    have bk: "blk (view s2) ?a k = blk (view s) a k" if "k < MAXFILE" for k
    proof (cases "k < NDIRECT")
      case False
      then have "4 * (k - NDIRECT) + 4 \<le> BSIZE" using that NDIRECT_MAXFILE by linarith
      then show ?thesis using False both(2) nd vz fz get32_zeros by (simp add: blk_def)
    qed (simp add: blk_def)
    have bo: "blocks_ok s2 ?a" and ow: "own (view s2) ?a = insert f (own (view s) a)"
      using blocks_ok_indirect [OF ok(1) inv f2 both(2) ff I2(2) bk] by auto
    have out: "view s2 c = view s c" if "c \<notin> bmaps (sb s)" "c \<noteq> f" for c
      using alloc_view_other [OF that(2,1) fs] by (simp add: c2(1) r1(3))
    have g1: "grown s ip s2" unfolding grown_def Let_def a2 ok(2) [symmetric]
      using I2 bo c2 f2 ic bk ow out ff blocks_okD(2) [OF ok(1)] by auto
    obtain b s' where r: "bmap_tail 1 (?a ! NDIRECT) (n - NDIRECT) s2 = Ret (b, s')" "grown s2 ip s'"
      "budget m (insert b (insert f T)) s'" "i_addrs (icache s' ! ip) = ?a" "b \<noteq> 0" "blk (view s') ?a n = b"
      "\<And>c. c \<notin> bmaps (sb s2) \<Longrightarrow> c \<notin> free_blocks s2 \<Longrightarrow> c \<noteq> ?a ! NDIRECT \<Longrightarrow> view s' c = view s2 c"
      "free_blocks s' = free_blocks s2 - {b}" "b \<in> free_blocks s2"
      by (rule bmap_tail_new [OF I2(1) c2(5,2) _ _ bo a2 [symmetric] _ _ both(1) n])
        (use t nd fz bk [OF n] both ic ip I2(2) fne1 fframe_simps(1) [OF f2] in \<open>auto simp: blk_def\<close>)
    have e: "bmap ip n s = Ret (b, s')"
      using both(2) r(1) [unfolded nd] ip(2) ok(2) by (simp add: bmap_indirect [OF both(1) n] r1(1) s2_def [symmetric])
    have cf: "card (free_blocks s') = card (free_blocks s) - 2"
      using r(8,9) cd [OF ff] I2(2) by (simp add: card_Diff_singleton One_nat_def)
    have keep: "view s' (blk (view s) a k) = view s (blk (view s) a k)" if "k < MAXFILE" "blk (view s) a k \<noteq> 0" for k
    proof -
      have "blk (view s) a k \<noteq> f" using own(2) [OF that] ff by blast
      then show ?thesis using r(7) out own [OF that] fframe_simps(1) [OF f2] I2(2) nd by simp
    qed
    have z: "reserve (insert b (insert f T)) ?a = 0" "lack ?a = 0" using nd fz by (simp_all add: reserve_def lack_def)
    have "blk (view s) a n = 0" using both by (simp add: blk_def)
    moreover have "b \<in> own (view s') ?a" "f \<in> own (view s') ?a"
      using mem [where V = "view s'" and x = ?a] r(5,6) nd fz by auto
    ultimately show thesis
      by (intro that [OF e grown_trans [OF g1 r(2) ip(1)], of "insert b (insert f T)"])
        (use r z cf fr rs1 keep in \<open>auto simp: r(4)\<close>)
  qed
qed

section \<open>Reading\<close>

lemma block_window:
  assumes "m \<le> BSIZE - off mod BSIZE" "off \<le> p" "p < off + m"
  shows "p div BSIZE = off div BSIZE" and "p mod BSIZE = off mod BSIZE + (p - off)"
proof -
  define q r where "q = off div BSIZE" and "r = off mod BSIZE + (p - off)"
  have p: "p = q * BSIZE + r" using assms(2) by (simp add: q_def r_def)
  have lt: "r < BSIZE" unfolding r_def using assms by linarith
  show "p div BSIZE = off div BSIZE" unfolding p q_def [symmetric] using lt by simp
  show "p mod BSIZE = off mod BSIZE + (p - off)" unfolding r_def [symmetric] unfolding p using lt by simp
qed

lemma slice_fbyte:
  assumes "m \<le> BSIZE - off mod BSIZE" "length (V (blk V a (off div BSIZE))) = BSIZE"
  shows "slice_at (off mod BSIZE) m (V (blk V a (off div BSIZE))) = map (fbyte V a) [off..<off + m]"
proof (rule nth_equalityI)
  have "off mod BSIZE < BSIZE" using BPB_pos(3) by simp
  then have le: "off mod BSIZE + m \<le> BSIZE" using assms(1) by linarith
  then show "length (slice_at (off mod BSIZE) m (V (blk V a (off div BSIZE)))) = length (map (fbyte V a) [off..<off + m])"
    using assms(2) by (simp add: length_slice)
  fix i assume "i < length (slice_at (off mod BSIZE) m (V (blk V a (off div BSIZE))))"
  then have "i < m" using le assms(2) by (simp add: length_slice)
  then show "slice_at (off mod BSIZE) m (V (blk V a (off div BSIZE))) ! i = map (fbyte V a) [off..<off + m] ! i"
    using block_window [OF assms(1), of "off + i"] le assms(2) by (simp add: nth_slice fbyte_def)
qed

lemma readi_loop_spec:
  fixes s :: "'a fs_state_scheme"
  assumes "rd_ok s" "fs_inv s" "held s = {}" "i_dev (icache s ! ip) = 1" "blocks_ok s (i_addrs (icache s ! ip))"
    "off + n \<le> MAXFILE * BSIZE" "\<And>p. off \<le> p \<Longrightarrow> p < off + n \<Longrightarrow> blk (view s) (i_addrs (icache s ! ip)) (p div BSIZE) \<noteq> 0"
  shows "\<exists>s'. readi_loop ip off n s = Ret (map (fbyte (view s) (i_addrs (icache s ! ip))) [off..<off + n], s') \<and> rframe s s'"
  using assms
proof (induction n arbitrary: off s rule: less_induct)
  case (less n)
  show ?case
  proof (cases "n = 0")
    case True
    then show ?thesis using rframe_refl [OF less.prems(1)] by (subst readi_loop.simps) simp
  next
    case False
    let ?a = "i_addrs (icache s ! ip)"
    let ?b = "blk (view s) ?a (off div BSIZE)"
    define m where "m = min n (BSIZE - off mod BSIZE)"
    have m: "0 < m" "m \<le> n" "m \<le> BSIZE - off mod BSIZE" using False BPB_pos(3) by (auto simp: m_def)
    have k: "off div BSIZE < MAXFILE" by (rule MAXFILE_div) (use less.prems(6) False in simp)
    have b0: "?b \<noteq> 0" using less.prems(7) [of off] False by simp
    note bo = blocks_okD(2) [OF less.prems(5) blocks_okD(5) [OF less.prems(5) k b0]]
    have bd: "?b < disksize s" using bo fs_invD(1) [OF less.prems(2)] by linarith
    have ind: "?a ! NDIRECT < disksize s"
      using blocks_okD(2) [OF less.prems(5) blocks_okD(6) [OF less.prems(5)]] fs_invD(1) [OF less.prems(2)] bd by fastforce
    obtain s1 where r1: "bmap ip (off div BSIZE) s = Ret (?b, s1)" "rframe s s1"
      by (rule bmap_present [OF less.prems(1,3,4) k b0 ind])
    have ok1: "rd_ok s1" by (rule rframe_rd_ok [OF r1(2) less.prems(1)])
    note F1 = tframe_fframe [OF bframe_tframe, of s s1] 
    have e1: "view s1 = view s" "held s1 = {}" "icache s1 = icache s" "disksize s1 = disksize s" "fframe s s1"
      using r1(2) less.prems(3) F1 fframe_simps(2) [of s s1] by (auto simp: rframe_def)
    have cl: "?b \<in> dirty s1 \<or> view s1 ?b = disk s1 ?b" using unheld_clean [of s1 ?b] ok1 e1(2) by (auto simp: rd_ok_def)
    obtain i s2 s3 where r2: "bread 1 ?b s1 = Ret (i, s2)" "b_data (bufs s2 ! i) = view s1 ?b" "brelse i s2 = Ret s3" "rframe s1 s3"
      by (rule rd_block [OF ok1 _ _ cl]) (use bd e1 in auto)
    have r: "rframe s s3" by (rule rframe_trans [OF r1(2) r2(4)])
    note F3 = tframe_fframe [OF bframe_tframe, of s s3]
    have e3: "view s3 = view s" "held s3 = {}" "icache s3 = icache s" "fframe s s3"
      using r less.prems(3) F3 by (auto simp: rframe_def)
    have I3: "fs_inv s3" "free_blocks s3 = free_blocks s" using fs_inv_frame [OF less.prems(2) e3(4)] e3(1) by auto
    have "blocks_ok s3 ?a"
      using less.prems(5) fframe_simps(1,3) [OF e3(4)] unfolding blocks_ok_def e3(1) I3(2) by (simp add: meta_def)
    then have "\<exists>s'. readi_loop ip (off + m) (n - m) s3 = Ret (map (fbyte (view s3) (i_addrs (icache s3 ! ip))) [off + m..<off + m + (n - m)], s')
        \<and> rframe s3 s'"
      using less.prems e3 I3 m rframe_rd_ok [OF r less.prems(1)] by (intro less.IH) auto
    then obtain s' where r3: "readi_loop ip (off + m) (n - m) s3 = Ret (map (fbyte (view s) ?a) [off + m..<off + n], s')"
      "rframe s3 s'" using e3 m(2) by auto
    have l: "length (view s ?b) = BSIZE" using less.prems(1) view_length [OF _ bd] by (simp add: rd_ok_def)
    have "readi_loop ip off n s = Ret (map (fbyte (view s) ?a) [off..<off + m] @ map (fbyte (view s) ?a) [off + m..<off + n], s')"
      using False less.prems(4)
      by (subst readi_loop.simps) (simp add: r1(1) e1 r2 m_def [symmetric] r3 slice_fbyte [where V = "view s", OF m(3) l] Let_def)
    moreover have "[off..<off + m] @ [off + m..<off + n] = [off..<off + n]" using m(2) by (metis le_add1 nat_add_left_cancel_le upt_add_eq_append le_add_diff_inverse)
    ultimately show ?thesis using rframe_trans [OF r r3(2)] by (metis map_append)
  qed
qed

lemma contents_slice:
  assumes "off \<le> i_size (icache s ! ip)"
  shows "slice_at off n (contents s ip) =
    map (fbyte (view s) (i_addrs (icache s ! ip))) [off..<off + min n (i_size (icache s ! ip) - off)]"
  using assms by (auto simp: slice_at_def contents_def drop_map take_map drop_upt min_def)

lemma readi_spec:
  fixes s :: "'a fs_state_scheme"
  assumes "rd_ok s" "fs_inv s" "held s = {}" "inode_ok s ip" "i_type (icache s ! ip) \<noteq> T_DEV"
    "off \<le> i_size (icache s ! ip)" "off + n < 2 ^ 32"
  obtains s' where "readi dr ip off n s = Ret ((int (length (slice_at off n (contents s ip))), slice_at off n (contents s ip)), s')"
    and "rframe s s'"
proof -
  let ?x = "icache s ! ip"
  let ?n = "min n (i_size ?x - off)"
  from assms(4) have ok: "i_dev ?x = 1" "blocks_ok s (i_addrs ?x)" "i_size ?x \<le> MAXFILE * BSIZE"
    "\<And>k. k * BSIZE < i_size ?x \<Longrightarrow> blk (view s) (i_addrs ?x) k \<noteq> 0" by (auto simp: inode_ok_def)
  have "\<exists>s'. readi_loop ip off ?n s = Ret (map (fbyte (view s) (i_addrs ?x)) [off..<off + ?n], s') \<and> rframe s s'"
  proof (rule readi_loop_spec [OF assms(1-3) ok(1,2)])
    show "off + ?n \<le> MAXFILE * BSIZE" using ok(3) assms(6) by linarith
    fix p assume "off \<le> p" "p < off + ?n"
    then have "p < i_size ?x" by linarith
    then have "p div BSIZE * BSIZE < i_size ?x" by (meson div_times_less_eq_dividend le_less_trans)
    then show "blk (view s) (i_addrs ?x) (p div BSIZE) \<noteq> 0" by (rule ok(4))
  qed
  then obtain s' where r: "readi_loop ip off ?n s = Ret (map (fbyte (view s) (i_addrs ?x)) [off..<off + ?n], s')" "rframe s s'" by blast
  have n: "(if off + n > i_size ?x then i_size ?x - off else n) = ?n" using assms(6) by auto
  have m: "\<not> (off > i_size ?x \<or> (off + n) mod 2 ^ 32 < off)" using assms(6,7) by simp
  have "readi dr ip off n s = Ret ((int ?n, slice_at off n (contents s ip)), s')"
    unfolding readi_def Let_def n using assms(5) m r contents_slice [OF assms(6)] by simp
  moreover have "length (slice_at off n (contents s ip)) = ?n" unfolding contents_slice [OF assms(6)] by simp
  ultimately show thesis using r(2) that by metis
qed

section \<open>A small file\<close>

text \<open>The cache entry of inode 5 of the small file system.\<close>

definition demo_inode :: inode where
  "demo_inode = \<lparr>i_dev = 1, i_inum = 5, i_ref = 1, i_lock = initsleeplock ''inode'', i_valid = True, i_type = T_FILE,
     i_major = 0, i_minor = 0, i_nlink = 1, i_size = 2, i_addrs = 57 # replicate 12 0\<rparr>"

abbreviation demo_file :: fs_state where
  "demo_file \<equiv> demo_fs [demo_inode]"

lemma demo_addrs: "blk V (57 # replicate 12 0) k = (if k = 0 then 57 else 0)" "own V (57 # replicate 12 0) = {57}"
proof -
  show b: "blk V (57 # replicate 12 0) k = (if k = 0 then 57 else 0)" for k
    by (cases k) (auto simp: blk_def NDIRECT_def nth_Cons')
  have "0 < MAXFILE" by (simp add: MAXFILE_def NDIRECT_def)
  then have "blk V (57 # replicate 12 0) ` {..<MAXFILE} \<union> {0} = {0, 57}" unfolding b by (auto simp: image_iff intro!: bexI [of _ 0])
  then show "own V (57 # replicate 12 0) = {57}" by (auto simp: own_def NDIRECT_def nth_Cons')
qed

lemma demo_file_ok: "inode_ok demo_file 0" "contents demo_file 0 = [104, 105]" "i_type (icache demo_file ! 0) \<noteq> T_DEV"
  "i_addrs (icache demo_file ! 0) = 57 # replicate 12 0" "i_size (icache demo_file ! 0) = 2"
proof -
  note D = demo_fs_base [of "[demo_inode]"] demo_fs_inv [of "[demo_inode]"] fs_disk_super
  have x: "icache demo_file ! 0 = demo_inode" by (simp add: D)
  have I: "i_dev demo_inode = 1" "i_addrs demo_inode = 57 # replicate 12 0" "i_size demo_inode = 2"
    by (simp_all add: demo_inode_def)
  have "blocks_ok demo_file (57 # replicate 12 0)"
    unfolding blocks_ok_def demo_addrs D(11,14,6) D(15) by (auto simp: NDIRECT_def)
  then show "inode_ok demo_file 0"
    unfolding inode_ok_def x D(5) by (simp add: I demo_addrs MAXFILE_def NDIRECT_def NINDIRECT_def BSIZE_def)
  have "fs_disk 57 = 104 # 105 # replicate 510 0" by (simp add: fs_disk_def)
  then show "contents demo_file 0 = [104, 105]"
    unfolding contents_def x by (simp add: D I fbyte_def demo_addrs BSIZE_def upt_rec)
qed (simp_all add: demo_fs_base demo_inode_def T_DEV_def T_FILE_def)

text \<open>C5. Reading a file. For a file whose blocks are in order \<open>readi\<close> returns the window of the file's contents that
  starts at \<open>off\<close> and has \<open>n\<close> bytes or ends with the file, and the number of its bytes; it returns -1 when \<open>off\<close> is
  past the end or \<open>off + n\<close> overflows. No block of the disk, as it is seen through the cache, changes.\<close>

theorem readi_correct:
  fixes s :: "'a fs_state_scheme"
  assumes "rd_ok s" "fs_inv s" "held s = {}" "inode_ok s ip" "i_type (icache s ! ip) \<noteq> T_DEV" "n < 2 ^ 32"
  shows "if off \<le> i_size (icache s ! ip) \<and> off + n < 2 ^ 32
    then \<exists>s'. readi dr ip off n s = Ret ((int (length (slice_at off n (contents s ip))), slice_at off n (contents s ip)), s') \<and>
      view s' = view s \<and> disk s' = disk s \<and> dwrites s' = dwrites s \<and> contents s' = contents s
    else readi dr ip off n s = Ret ((- 1, []), s)"
proof (cases "off \<le> i_size (icache s ! ip) \<and> off + n < 2 ^ 32")
  case True
  then obtain s' where r: "readi dr ip off n s = Ret ((int (length (slice_at off n (contents s ip))), slice_at off n (contents s ip)), s')"
    "rframe s s'" by (elim conjE) (rule readi_spec [OF assms(1-5)])
  have "icache s' = icache s" using r(2) tframe_fframe(2) [OF bframe_tframe, of s s'] by (simp add: rframe_def)
  moreover have "view s' = view s" using r(2) by (simp add: rframe_def)
  ultimately have "contents s' = contents s" by (intro ext) (simp add: contents_def)
  then show ?thesis using True r by (auto simp: rframe_def)
next
  case False
  have "(off + n) mod 2 ^ 32 < off" if "off \<le> i_size (icache s ! ip)"
  proof -
    have "i_size (icache s ! ip) \<le> 2 ^ 31" using assms(4) by (simp add: inode_ok_def MAXFILE_def NDIRECT_def NINDIRECT_def BSIZE_def)
    moreover have "2 ^ 32 \<le> off + n" using False that by simp
    moreover have "off + n - 2 ^ 32 < 2 ^ 32" using calculation(1) that assms(6) by simp
    ultimately have "(off + n) mod 2 ^ 32 = off + n - 2 ^ 32" by (simp add: le_mod_geq)
    then show ?thesis using assms(6) \<open>2 ^ 32 \<le> off + n\<close> by simp
  qed
  then show ?thesis using assms(5) False by (auto simp: readi_def Let_def not_le)
qed

theorem readi_correct_witness:
  "\<exists>s'. readi (\<lambda>_. None) 0 1 10 demo_file = Ret ((1, [105]), s') \<and> contents s' 0 = [104, 105]"
proof -
  have bu: "budget 10 {} demo_file"
    using demo_fs_base(1,3,9) [of "[demo_inode]"] tx_inv_mono [of 20 demo_file 0] by (simp add: budget_def)
  have "rd_ok demo_file" by (rule budget_rd_ok [OF bu]) (simp add: demo_fs_base)
  then show ?thesis
    using readi_correct [of demo_file 0 10 1 "\<lambda>_. None"] demo_fs_inv(1) demo_fs_base(2) demo_file_ok
    by (simp add: slice_at_def drop_Cons' One_nat_def) (metis (no_types))
qed

end
