(* ===== verification/Fswrite.thy ===== *)
theory Fswrite
  imports Fsfile
begin

text \<open>
  Writing files (\<open>writei\<close> and \<open>iupdate\<close> of \<open>fs.c\<close>): inside a transaction \<open>writei\<close> replaces a window of the contents
  of a file, maps the blocks that are missing, keeps the inode on the disk in step with the cached one and leaves
  every other file alone.
\<close>

section \<open>Writing\<close>

text \<open>The number of blocks that hold the \<open>n\<close> bytes from \<open>off\<close>.\<close>

definition nblk :: "nat \<Rightarrow> nat \<Rightarrow> nat" where
  "nblk off n = (if n = 0 then 0 else (off + n - 1) div BSIZE - off div BSIZE + 1)"

lemma nblk_step:
  assumes "0 < n" "m = min n (BSIZE - off mod BSIZE)"
  shows "nblk off n = Suc (nblk (off + m) (n - m))"
proof (cases "n \<le> BSIZE - off mod BSIZE")
  case True
  then have "(off + n - 1) div BSIZE = off div BSIZE"
    using block_window(1) [of n off "off + n - 1"] assms(1) by auto
  then show ?thesis using True assms by (simp add: nblk_def One_nat_def)
next
  case False
  have "off mod BSIZE < BSIZE" using BPB_pos(3) by simp
  moreover have "m = BSIZE - off mod BSIZE" using False assms(2) by simp
  moreover have "off = off div BSIZE * BSIZE + off mod BSIZE" by simp
  moreover have "(off div BSIZE + 1) * BSIZE = off div BSIZE * BSIZE + BSIZE" by (simp only: add_mult_distrib mult_1)
  ultimately have e: "off + m = (off div BSIZE + 1) * BSIZE" "m < n" using False by linarith+
  then have d: "(off + m) div BSIZE = off div BSIZE + 1" using BPB_pos(3) by simp
  have "(off + m) div BSIZE \<le> (off + n - 1) div BSIZE" using e(2) by (intro div_le_mono) simp
  with d e(2) assms(1) show ?thesis by (simp add: nblk_def One_nat_def)
qed

lemma fs_inv_data:
  fixes s :: "'a fs_state_scheme"
  assumes "fs_inv s" "fframe s s'" "view s' = (view s)(b := d)" "b \<notin> bmaps (sb s)" "b \<noteq> 1"
  shows "fs_inv s'" and "free_blocks s' = free_blocks s"
proof -
  have "view s' c = view s c" if "c \<in> bmaps (sb s)" for c using that assms(3,4) by auto
  moreover have "view s' 1 = view s 1" using assms(3,5) by simp
  ultimately show "fs_inv s'" "free_blocks s' = free_blocks s" using fs_inv_frame [OF assms(1,2)] by blast+
qed

lemma grown_data:
  fixes s :: "'a fs_state_scheme"
  assumes inv: "fs_inv s" and ok: "blocks_ok s a" "a = i_addrs (icache s ! ip)" and h: "held s = {}"
    and ip: "ip < length (icache s)" and r: "runs_to m T s s'" "icache s' = icache s" "view s' = (view s)(b := d)"
    and b: "b = blk (view s) a n" "n < MAXFILE" "b \<noteq> 0"
  shows "grown s ip s'" and "blk (view s') a k = blk (view s) a k" and "free_blocks s' = free_blocks s"
proof -
  note rs = runs_toD [OF r(1)]
  have bo: "b < sb_size (sb s)" "b \<notin> meta s" "b \<notin> free_blocks s" "b \<in> own (view s) a" "b \<noteq> a ! NDIRECT"
    using blocks_okD(2) [OF ok(1)] blocks_okD(5) [OF ok(1) b(2)] blocks_okD(4) [OF ok(1) b(2)] b by auto
  have vo: "view s' c = view s c" if "c \<noteq> b" for c using that r(3) by simp
  have vo': "view s' c = view s c" if "c \<notin> own (view s) a" for c using that bo(4) by (intro vo) auto
  have ie: "view s' (a ! NDIRECT) = view s (a ! NDIRECT)" using vo bo(5) by metis
  show bk: "blk (view s') a k = blk (view s) a k" for k using blk_cong [of "view s'" a "view s"] ie by simp
  have ow: "own (view s') a = own (view s) a" using own_view_cong [of "view s'" a "view s"] ie by simp
  note I = fs_inv_data [OF inv rs(5) r(3)]
  from bo(2) have I: "fs_inv s'" "free_blocks s' = free_blocks s" by (auto simp: meta_def intro!: I)
  then show "free_blocks s' = free_blocks s" by simp
  have m: "meta s' = meta s" using rs(7,9) by (simp add: meta_def)
  have bo': "blocks_ok s' a" using ok(1) unfolding blocks_ok_def bk ow m I(2) rs(7) .
  show "grown s ip s'" unfolding grown_def Let_def r(2) ok(2) [symmetric] ow bk I(2)
    using I(1) bo' rs h ip ok vo' blocks_okD(2) [OF ok(1)] by auto
qed

text \<open>What the loop of \<open>writei\<close> does: the file gets the bytes of \<open>src\<close> from \<open>off\<close> on and keeps the others.\<close>

definition wrote :: "nat \<Rightarrow> nat \<Rightarrow> uchar list \<Rightarrow> nat \<Rightarrow> nat set \<Rightarrow> 'a fs_state_scheme \<Rightarrow> nat set \<Rightarrow> 'a fs_state_scheme \<Rightarrow> bool" where
  "wrote ip off src m T s T' s' \<longleftrightarrow>
     (let a = i_addrs (icache s ! ip); a' = i_addrs (icache s' ! ip)
      in grown s ip s' \<and> T \<subseteq> T' \<and> budget (m + reserve T' a') T' s' \<and>
         (\<forall>p. off \<le> p \<and> p < off + length src \<longrightarrow> blk (view s') a' (p div BSIZE) \<noteq> 0 \<and> fbyte (view s') a' p = src ! (p - off)) \<and>
         (\<forall>p < MAXFILE * BSIZE. \<not> (off \<le> p \<and> p < off + length src) \<and> blk (view s) a (p div BSIZE) \<noteq> 0 \<longrightarrow>
            fbyte (view s') a' p = fbyte (view s) a p) \<and>
         ((\<forall>p. off \<le> p \<and> p < off + length src \<longrightarrow> blk (view s) a (p div BSIZE) \<noteq> 0) \<longrightarrow> a' = a) \<and>
         T' \<subseteq> T \<union> own (view s') a')"

lemma wroteD:
  assumes "wrote ip off src m T s T' s'"
  shows "grown s ip s'" and "T \<subseteq> T'" and "budget (m + reserve T' (i_addrs (icache s' ! ip))) T' s'"
    and "\<And>p. off \<le> p \<Longrightarrow> p < off + length src \<Longrightarrow> blk (view s') (i_addrs (icache s' ! ip)) (p div BSIZE) \<noteq> 0"
    and "\<And>p. off \<le> p \<Longrightarrow> p < off + length src \<Longrightarrow> fbyte (view s') (i_addrs (icache s' ! ip)) p = src ! (p - off)"
    and "\<And>p. p < MAXFILE * BSIZE \<Longrightarrow> \<not> (off \<le> p \<and> p < off + length src) \<Longrightarrow>
      blk (view s) (i_addrs (icache s ! ip)) (p div BSIZE) \<noteq> 0 \<Longrightarrow>
      fbyte (view s') (i_addrs (icache s' ! ip)) p = fbyte (view s) (i_addrs (icache s ! ip)) p"
    and "(\<And>p. off \<le> p \<Longrightarrow> p < off + length src \<Longrightarrow> blk (view s) (i_addrs (icache s ! ip)) (p div BSIZE) \<noteq> 0) \<Longrightarrow>
      i_addrs (icache s' ! ip) = i_addrs (icache s ! ip)"
    and "T' \<subseteq> T \<union> own (view s') (i_addrs (icache s' ! ip))"
  using assms unfolding wrote_def Let_def by blast+

lemma writei_loop_spec:
  fixes s :: "'a fs_state_scheme"
  assumes "fs_inv s" "budget (m + nblk off (length src) + reserve T (i_addrs (icache s ! ip))) T s" "held s = {}"
    "bmaps (sb s) \<subseteq> T" "ip < length (icache s)" "i_dev (icache s ! ip) = 1" "blocks_ok s (i_addrs (icache s ! ip))"
    "off + length src \<le> MAXFILE * BSIZE" "j + nblk off (length src) + lack (i_addrs (icache s ! ip)) \<le> card (free_blocks s)"
  shows "\<exists>s' T'. writei_loop ip off src s = Ret s' \<and> wrote ip off src m T s T' s'"
  using assms
proof (induction "length src" arbitrary: off src s T rule: less_induct)
  case less
  let ?a = "i_addrs (icache s ! ip)"
  show ?case
  proof (cases "src = []")
    case True
    have "\<not> (off \<le> p \<and> p < off)" for p by auto
    moreover have "grown s ip s"
      using less.prems tx_invD(1) [OF budget_tx] by (intro grown_refl) auto
    moreover have "writei_loop ip off [] s = Ret s" by (subst writei_loop.simps) simp
    ultimately show ?thesis using less.prems(2) True by (intro exI [of _ s] exI [of _ T]) (simp add: nblk_def wrote_def)
  next
    case False
    define w where "w = min (length src) (BSIZE - off mod BSIZE)"
    let ?k = "off div BSIZE"
    have om: "off mod BSIZE < BSIZE" using BPB_pos(3) by simp
    have w: "0 < w" "w \<le> length src" "w \<le> BSIZE - off mod BSIZE" "off mod BSIZE + w \<le> BSIZE"
      using False om by (auto simp: w_def)
    have nb: "nblk off (length src) = Suc (nblk (off + w) (length src - w))" by (rule nblk_step) (use False in \<open>auto simp: w_def\<close>)
    have "0 < length src" using False by simp
    then have k: "?k < MAXFILE" using less.prems(8) by (intro MAXFILE_div) linarith
    have bu: "budget (Suc (m + nblk (off + w) (length src - w)) + reserve T ?a) T s" using less.prems(2) by (simp add: nb)
    have fr: "(j + nblk (off + w) (length src - w)) + 1 + lack ?a \<le> card (free_blocks s)" using less.prems(9) by (simp add: nb One_nat_def)
    obtain b s1 T1 where r1: "bmap ip ?k s = Ret (b, s1)" "grown s ip s1" "T \<subseteq> T1" "b \<in> T1"
      "budget (m + nblk (off + w) (length src - w) + reserve T1 (i_addrs (icache s1 ! ip))) T1 s1"
      "blk (view s1) (i_addrs (icache s1 ! ip)) ?k = b" "b \<noteq> 0"
      "\<And>k. k < MAXFILE \<Longrightarrow> blk (view s) ?a k \<noteq> 0 \<Longrightarrow> view s1 (blk (view s) ?a k) = view s (blk (view s) ?a k)"
      "j + nblk (off + w) (length src - w) + lack (i_addrs (icache s1 ! ip)) \<le> card (free_blocks s1)"
      "blk (view s) ?a ?k \<noteq> 0 \<Longrightarrow> i_addrs (icache s1 ! ip) = ?a"
      "T1 \<subseteq> T \<union> own (view s1) (i_addrs (icache s1 ! ip))"
      by (rule bmap_spec [OF less.prems(1) bu less.prems(3-7) refl k fr]) blast
    note G1 = grownD [OF r1(2)]
    let ?a1 = "i_addrs (icache s1 ! ip)"
    have f1: "sb s1 = sb s" "disksize s1 = disksize s" "log_area s1 = log_area s" using fframe_simps [OF G1(6)] by simp_all
    have ip1: "ip < length (icache s1)" "i_dev (icache s1 ! ip) = 1"
      by (subst G1(7), simp add: less.prems(5)) (subst G1(7), simp add: less.prems(5,6))
    have bo: "b < sb_size (sb s1)" "b \<notin> meta s1" "b \<in> own (view s1) ?a1"
      using blocks_okD(2,5) [OF G1(2)] k r1(6,7) by blast+
    have bd: "b < disksize s1" "b \<notin> held s1" "b < 2 ^ 32" "b \<notin> log_area s1" "card (held s1) \<le> 1"
      using bo fs_invD(1,2) [OF G1(1)] G1(3) by (auto simp: meta_def)
    have l: "length (view s1 b) = BSIZE" by (rule budget_view_length [OF r1(5) bd(1)])
    let ?g = "splice_at (off mod BSIZE) (take w src)"
    have lt: "length (take w src) = w" using w(2) by simp
    obtain i s2 s3 s4 where r2: "bread 1 b s1 = Ret (i, s2)" "log_write i (set_data i ?g s2) = Ret s3" "brelse i s3 = Ret s4"
      "runs_to (m + nblk (off + w) (length src - w) + reserve T1 ?a1) T1 s1 s4" "view s4 = (view s1)(b := ?g (view s1 b))"
      "icache s4 = icache s1"
      by (rule budget_update [where g = ?g, OF r1(5,4) bd]) (use l lt w in auto)
    note g2 = grown_data [OF G1(1,2) refl G1(3) ip1(1) r2(4,6,5) r1(6) [symmetric] k r1(7)]
    have g: "grown s ip s4" by (rule grown_trans [OF r1(2) g2(1) less.prems(5)])
    note G4 = grownD [OF g] and G2 = grownD [OF g2(1)]
    have "j + nblk (off + w) (length src - w) + lack ?a1 \<le> card (free_blocks s4)"
      using r1(9) g2(3) by simp
    moreover have "length (drop w src) < length src" "length (drop w src) = length src - w" using w(1,2) by auto
    moreover have "off + w + length (drop w src) \<le> MAXFILE * BSIZE" using less.prems(8) w(2) by simp
    moreover have "bmaps (sb s4) \<subseteq> T1" "ip < length (icache s4)" "i_dev (icache s4 ! ip) = 1"
      using less.prems(4) r1(3) runs_toD(7) [OF r2(4)] f1 r2(6) ip1 by auto
    ultimately have "\<exists>s' T'. writei_loop ip (off + w) (drop w src) s4 = Ret s' \<and> wrote ip (off + w) (drop w src) m T1 s4 T' s'"
      using runs_toD(1) [OF r2(4)] G4(1-3) r2(6) by (intro less.hyps) simp_all
    then obtain s' T' where r3: "writei_loop ip (off + w) (drop w src) s4 = Ret s'" "wrote ip (off + w) (drop w src) m T1 s4 T' s'"
      by blast
    note W = wroteD [OF r3(2), unfolded r2(6)]
    have lw: "off + w + length (drop w src) = off + length src" using w(2) by simp
    have e: "writei_loop ip off src s = Ret s'"
      using False ip1(2) by (subst writei_loop.simps) (simp add: r1(1) r2 w_def [symmetric] r3(1) Let_def)
    have V4: "view s4 c = view s1 c" if "c \<noteq> b" for c using that by (simp add: r2(5))
    have new: "fbyte (view s4) ?a1 p = src ! (p - off)" "blk (view s4) ?a1 (p div BSIZE) \<noteq> 0" if "off \<le> p" "p < off + w" for p
      using block_window [OF w(3) that] r1(6,7) g2(2) l lt w that
      by (auto simp: fbyte_def r2(5) nth_splice_at)
    have old: "fbyte (view s4) ?a1 p = fbyte (view s) ?a p" "blk (view s4) ?a1 (p div BSIZE) \<noteq> 0"
      if "p < MAXFILE * BSIZE" "\<not> (off \<le> p \<and> p < off + w)" "blk (view s) ?a (p div BSIZE) \<noteq> 0" for p
    proof -
      have pk: "p div BSIZE < MAXFILE" by (rule MAXFILE_div [OF that(1)])
      have b1: "blk (view s4) ?a1 (p div BSIZE) = blk (view s) ?a (p div BSIZE)" using g2(2) G1(8) [OF pk that(3)] by simp
      then show "blk (view s4) ?a1 (p div BSIZE) \<noteq> 0" using that(3) by simp
      show "fbyte (view s4) ?a1 p = fbyte (view s) ?a p"
      proof (cases "p div BSIZE = ?k")
        case True
        then have eb: "blk (view s) ?a (p div BSIZE) = b" using G1(8) [OF pk that(3)] r1(6) by simp
        have "p = ?k * BSIZE + p mod BSIZE" "off = ?k * BSIZE + off mod BSIZE" using True by (metis div_mult_mod_eq)+
        then have "\<not> (off mod BSIZE \<le> p mod BSIZE \<and> p mod BSIZE < off mod BSIZE + w)" using that(2) by linarith
        moreover have "p mod BSIZE < BSIZE" using BPB_pos(3) by simp
        ultimately have "?g (view s1 b) ! (p mod BSIZE) = view s1 b ! (p mod BSIZE)"
          using l lt w by (subst nth_splice_at) auto
        moreover have "fbyte (view s4) ?a1 p = ?g (view s1 b) ! (p mod BSIZE)" unfolding fbyte_def b1 eb by (simp add: r2(5))
        ultimately show ?thesis using r1(8) [OF pk that(3)] unfolding fbyte_def eb by simp
      next
        case False
        then have "blk (view s) ?a (p div BSIZE) \<noteq> b"
          using blocks_okD(3) [OF G1(2) pk k] G1(8) [OF pk that(3)] r1(6) that(3) by auto
        then show ?thesis using r1(8) [OF pk that(3)] by (simp add: fbyte_def b1 V4)
      qed
    qed
    have byte: "blk (view s') (i_addrs (icache s' ! ip)) (p div BSIZE) \<noteq> 0 \<and> fbyte (view s') (i_addrs (icache s' ! ip)) p = src ! (p - off)"
      if p: "off \<le> p" "p < off + length src" for p
    proof (cases "p < off + w")
      case True
      have pm: "p < MAXFILE * BSIZE" using p less.prems(8) by simp
      show ?thesis using new [OF p(1) True] W(6) [OF pm] grownD(8) [OF W(1) MAXFILE_div [OF pm]] True r2(6) by auto
    next
      case False
      then show ?thesis using W(4,5) [of p] p w(2) lw by (auto simp: add.commute)
    qed
    have keep: "fbyte (view s') (i_addrs (icache s' ! ip)) p = fbyte (view s) ?a p"
      if "p < MAXFILE * BSIZE" "\<not> (off \<le> p \<and> p < off + length src)" "blk (view s) ?a (p div BSIZE) \<noteq> 0" for p
      using old [OF that(1) _ that(3)] W(6) [OF that(1)] that(2) w(2) lw by auto
    have same: "i_addrs (icache s' ! ip) = ?a"
      if all: "\<And>p. off \<le> p \<Longrightarrow> p < off + length src \<Longrightarrow> blk (view s) ?a (p div BSIZE) \<noteq> 0"
    proof -
      have a1: "?a1 = ?a" by (rule r1(10)) (use all [of off] False in auto)
      have "i_addrs (icache s' ! ip) = ?a1"
      proof (rule W(7))
        fix p assume "off + w \<le> p" "p < off + w + length (drop w src)"
        then have p: "off \<le> p" "p < off + length src" "p < MAXFILE * BSIZE" using w(2) less.prems(8) by auto
        show "blk (view s4) ?a1 (p div BSIZE) \<noteq> 0"
          using g2(2) G1(8) [OF MAXFILE_div [OF p(3)] all [OF p(1,2)]] all [OF p(1,2)] by simp
      qed
      then show ?thesis by (simp add: a1)
    qed
    have "grown s ip s'" by (rule grown_trans [OF g W(1) less.prems(5)])
    moreover have "T' \<subseteq> T \<union> own (view s') (i_addrs (icache s' ! ip))"
      using W(8) r1(11) grownD(9) [OF W(1)] G2(9) r2(6) by auto
    ultimately have "wrote ip off src m T s T' s'" unfolding wrote_def Let_def using byte keep same W(2,3) r1(3) by auto
    with e show ?thesis by blast
  qed
qed

section \<open>The inode on the disk\<close>

definition short_ok :: "int \<Rightarrow> bool" where
  "short_ok v \<longleftrightarrow> - (2 ^ 15) \<le> v \<and> v < 2 ^ 15"

definition dinode_ok :: "dinode \<Rightarrow> bool" where
  "dinode_ok d \<longleftrightarrow> short_ok (d_type d) \<and> short_ok (d_major d) \<and> short_ok (d_minor d) \<and> short_ok (d_nlink d) \<and>
     d_size d < 2 ^ 32 \<and> length (d_addrs d) = NDIRECT + 1 \<and> (\<forall>b \<in> set (d_addrs d). b < 2 ^ 32)"

lemma length_short [simp]: "length (short_bytes v) = 2"
  by (simp add: short_bytes_def)

lemma le_int_short: "short_ok v \<Longrightarrow> le_int (short_bytes v) = v"
proof -
  assume "short_ok v"
  then have v: "- 32768 \<le> v" "v < 32768" by (simp_all add: short_ok_def)
  have "nat (v mod 2 ^ 16) < 256 ^ 2" by (simp add: nat_less_iff)
  then have "le_nat (short_bytes v) = nat (v mod 2 ^ 16)" by (simp add: short_bytes_def)
  moreover have "v mod 65536 = v + 65536" if "v < 0"
    using mod_pos_pos_trivial [of "v + 65536" 65536] v that by simp
  ultimately show ?thesis using v by (cases "0 \<le> v") (simp_all add: le_int_def Let_def)
qed

lemma slice_append1: "n = length xs \<Longrightarrow> slice_at 0 n (xs @ ys) = xs"
  by (simp add: slice_at_def)

lemma slice_append2: "length xs \<le> o' \<Longrightarrow> slice_at o' n (xs @ ys) = slice_at (o' - length xs) n ys"
  by (simp add: slice_at_def)

lemma slice_concat:
  assumes "\<And>x. x \<in> set xs \<Longrightarrow> length (f x) = k" "i < length xs"
  shows "slice_at (k * i) k (concat (map f xs)) = f (xs ! i)"
  using assms
proof (induction xs arbitrary: i)
  case (Cons x xs)
  show ?case
  proof (cases i)
    case 0
    then show ?thesis using Cons.prems(1) [of x] slice_append1 [of k "f x" "concat (map f xs)"] by simp
  next
    case (Suc i')
    then show ?thesis using Cons.IH [of i'] Cons.prems slice_append2 [of "f x" "k * i" k] by simp
  qed
qed simp

lemma length_concat_same: "(\<And>x. x \<in> set xs \<Longrightarrow> length (f x) = k) \<Longrightarrow> length (concat (map f xs)) = k * length xs"
  by (induction xs) auto

lemma length_dinode: "length (d_addrs d) = NDIRECT + 1 \<Longrightarrow> length (dinode_bytes d) = 64"
  by (simp add: dinode_bytes_def length_concat_same [of _ "le_bytes 4" 4] NDIRECT_def)

lemma dinode_codec:
  assumes "dinode_ok d"
  shows "dinode_of (dinode_bytes d) = d"
proof -
  from assms have l: "length (d_addrs d) = NDIRECT + 1" and z: "d_size d < 2 ^ 32" "\<And>b. b \<in> set (d_addrs d) \<Longrightarrow> b < 2 ^ 32"
    and sh: "short_ok (d_type d)" "short_ok (d_major d)" "short_ok (d_minor d)" "short_ok (d_nlink d)"
    by (auto simp: dinode_ok_def)
  have "map (\<lambda>i. get32 (12 + 4 * i) (dinode_bytes d)) [0..<NDIRECT + 1] = d_addrs d"
  proof (rule nth_equalityI)
    fix i assume "i < length (map (\<lambda>i. get32 (12 + 4 * i) (dinode_bytes d)) [0..<NDIRECT + 1])"
    then have i: "i < length (d_addrs d)" using l by simp
    have "get32 (12 + 4 * i) (dinode_bytes d) = le_nat (slice_at (4 * i) 4 (concat (map (le_bytes 4) (d_addrs d))))"
      by (simp add: get32_def dinode_bytes_def slice_append2)
    also have "\<dots> = d_addrs d ! i" using slice_concat [of "d_addrs d" "le_bytes 4" 4 i] i z(2) [OF nth_mem [OF i]] by simp
    finally show "map (\<lambda>i. get32 (12 + 4 * i) (dinode_bytes d)) [0..<NDIRECT + 1] ! i = d_addrs d ! i"
      using i l by (simp del: upt_Suc)
  qed (simp add: l)
  moreover have "get32 8 (dinode_bytes d) = d_size d"
    using z(1) by (simp add: get32_def dinode_bytes_def slice_append2 slice_append1)
  ultimately show ?thesis
    using sh by (simp add: dinode_of_def le_int_short del: upt_Suc) (simp add: dinode_bytes_def slice_append2 slice_append1 le_int_short)
qed

definition synced :: "'a fs_state_scheme \<Rightarrow> nat \<Rightarrow> bool" where
  "synced s ip \<longleftrightarrow> (let x = icache s ! ip
     in dinode_of (dinode_at (i_inum x) (view s (IBLOCK (i_inum x) (sb s)))) = dinode_of_inode x)"

lemma iupdate_spec:
  fixes s :: "'a fs_state_scheme"
  assumes inv: "fs_inv s" and bu: "budget m T s" and h: "held s = {}" and x: "x = icache s ! ip" "i_dev x = 1" "i_inum x < sb_ninodes (sb s)"
    and t: "IBLOCK (i_inum x) (sb s) \<in> T" and d: "dinode_ok (dinode_of_inode x)"
  obtains s' where "iupdate ip s = Ret s'" and "runs_to m T s s'" and "icache s' = icache s" and "fs_inv s'"
    and "free_blocks s' = free_blocks s" and "\<And>c. c \<notin> iblocks (sb s) \<Longrightarrow> view s' c = view s c" and "synced s' ip"
proof -
  let ?b = "IBLOCK (i_inum x) (sb s)" and ?o = "64 * (i_inum x mod IPB)"
  let ?g = "splice_at ?o (dinode_bytes (dinode_of_inode x))"
  have ib: "?b \<in> iblocks (sb s)" using x(3) by (auto simp: iblocks_def)
  then have mb: "?b \<in> meta s" by (simp add: meta_def)
  have b: "?b < sb_size (sb s)" "?b \<noteq> 1" "?b \<notin> bmaps (sb s)" "?b \<notin> log_area s"
    using fs_invD [OF inv] ib mb by auto
  have b': "?b < disksize s" "?b \<notin> held s" "?b < 2 ^ 32" "?b \<notin> log_area s" "card (held s) \<le> 1"
    using b h fs_invD(1,2) [OF inv] by auto
  have l: "length (view s ?b) = BSIZE" by (rule budget_view_length [OF bu b'(1)])
  have "i_inum x mod IPB < IPB" by (simp add: IPB_def BSIZE_def)
  then have o: "?o + 64 \<le> BSIZE" by (simp add: IPB_def BSIZE_def)
  have ld: "length (dinode_bytes (dinode_of_inode x)) = 64" by (rule length_dinode) (use d in \<open>simp add: dinode_ok_def\<close>)
  obtain i s1 s2 s3 where r: "bread 1 ?b s = Ret (i, s1)" "log_write i (set_data i ?g s1) = Ret s2" "brelse i s2 = Ret s3"
    "runs_to m T s s3" "view s3 = (view s)(?b := ?g (view s ?b))" "icache s3 = icache s"
    by (rule budget_update [where g = ?g, OF bu t b']) (use l ld o in auto)
  have e: "iupdate ip s = Ret s3" using x r(1-3) by (simp add: iupdate_def Let_def)
  have "dinode_at (i_inum x) (?g (view s ?b)) = dinode_bytes (dinode_of_inode x)"
    using slice_splice_same [of ?o "dinode_bytes (dinode_of_inode x)" "view s ?b"] l ld o by (simp add: dinode_at_def)
  then have "synced s3 ip"
    using x(1) dinode_codec [OF d] by (simp add: synced_def Let_def r(5,6) runs_toD(7) [OF r(4)])
  moreover have "view s3 c = view s c" if "c \<notin> iblocks (sb s)" for c using that ib r(5) by auto
  ultimately show thesis using that [OF e r(4,6) fs_inv_data [OF inv runs_toD(5) [OF r(4)] r(5) b(3,2)]] by blast
qed

text \<open>A file whose blocks are untouched keeps its contents.\<close>

lemma own_same:
  assumes "\<And>c. c \<in> own V a \<Longrightarrow> V' c = V c"
  shows "blk V' a k = blk V a k" and "own V' a = own V a"
    and "p < MAXFILE * BSIZE \<Longrightarrow> blk V a (p div BSIZE) \<noteq> 0 \<Longrightarrow> fbyte V' a p = fbyte V a p"
proof -
  have "a ! NDIRECT \<noteq> 0 \<Longrightarrow> V' (a ! NDIRECT) = V (a ! NDIRECT)" by (rule assms) (simp add: own_def)
  then show b: "blk V' a k = blk V a k" for k by (simp add: blk_def)
  then show "own V' a = own V a" by (simp add: own_def)
  assume p: "p < MAXFILE * BSIZE" "blk V a (p div BSIZE) \<noteq> 0"
  then have "blk V a (p div BSIZE) \<in> own V a" using MAXFILE_div [OF p(1)] by (simp add: own_def)
  then show "fbyte V' a p = fbyte V a p" by (simp add: fbyte_def b assms)
qed

lemma blocks_ok_frame:
  assumes "blocks_ok s a" "\<And>c. c \<in> own (view s) a \<Longrightarrow> view s' c = view s c" "meta s' = meta s" "sb s' = sb s"
    "free_blocks s' \<inter> own (view s) a = {}"
  shows "blocks_ok s' a"
proof -
  have "\<forall>b \<in> own (view s) a. b < sb_size (sb s) \<and> b \<notin> meta s \<and> b \<notin> free_blocks s'"
    using blocks_okD(2) [OF assms(1)] assms(5) by auto
  moreover have O: "blk (view s') a k = blk (view s) a k" "own (view s') a = own (view s) a" for k
    using own_same(1,2) [of "view s" a "view s'"] assms(2) by blast+
  ultimately show ?thesis using assms(1) unfolding blocks_ok_def O assms(3,4) by simp
qed

lemma inode_okD:
  assumes "inode_ok s ip"
  shows "ip < length (icache s)" and "i_dev (icache s ! ip) = 1" and "blocks_ok s (i_addrs (icache s ! ip))"
    and "i_size (icache s ! ip) \<le> MAXFILE * BSIZE"
    and "\<And>p. p < i_size (icache s ! ip) \<Longrightarrow> blk (view s) (i_addrs (icache s ! ip)) (p div BSIZE) \<noteq> 0"
proof -
  show "blk (view s) (i_addrs (icache s ! ip)) (p div BSIZE) \<noteq> 0" if "p < i_size (icache s ! ip)" for p
    using assms le_less_trans [OF div_times_less_eq_dividend that] by (simp add: inode_ok_def)
qed (use assms in \<open>auto simp: inode_ok_def\<close>)

lemma file_frame:
  assumes ok: "inode_ok s jp" and v: "\<And>c. c \<in> own (view s) (i_addrs (icache s ! jp)) \<Longrightarrow> view s' c = view s c"
    and m: "meta s' = meta s" "sb s' = sb s" "free_blocks s' \<inter> own (view s) (i_addrs (icache s ! jp)) = {}"
    and i: "jp < length (icache s')" "icache s' ! jp = icache s ! jp"
  shows "inode_ok s' jp" and "contents s' jp = contents s jp"
proof -
  note O = own_same [where V = "view s" and V' = "view s'", OF v] and K = inode_okD [OF ok]
  show "inode_ok s' jp" using ok i blocks_ok_frame [OF K(3) v m] by (simp add: inode_ok_def O(1))
  show "contents s' jp = contents s jp" unfolding contents_def i(2)
    using K(4,5) by (intro map_cong refl O(3)) auto
qed

section \<open>Writing a file\<close>

text \<open>The size of the file after the loop, and the inode written to the disk if the file has grown.\<close>

lemma iupdate_size:
  fixes s :: "'a fs_state_scheme"
  assumes inv: "fs_inv s" and bu: "budget m T s" and h: "held s = {}" and x: "x = icache s ! ip" "i_dev x = 1" "i_inum x < sb_ninodes (sb s)"
    and ip: "ip < length (icache s)" and t: "IBLOCK (i_inum x) (sb s) \<in> T" and d: "dinode_ok (dinode_of_inode x)" "z < 2 ^ 32"
  obtains s' where "iupdate ip (upd_inode ip (\<lambda>x. x\<lparr>i_size := z\<rparr>) s) = Ret s'" and "runs_to m T s s'"
    and "icache s' = (icache s)[ip := x\<lparr>i_size := z\<rparr>]" and "fs_inv s'" and "free_blocks s' = free_blocks s"
    and "\<And>c. c \<notin> iblocks (sb s) \<Longrightarrow> view s' c = view s c" and "synced s' ip"
proof -
  let ?s = "upd_inode ip (\<lambda>x. x\<lparr>i_size := z\<rparr>) s"
  have f: "fframe s ?s" by (rule fframe_upd_inode)
  have c: "view ?s = view s" "held ?s = {}" "disk ?s = disk s" "dwrites ?s = dwrites s" "budget m T ?s" "sb ?s = sb s"
    using bu h fframe_simps(1) [OF f] by simp_all
  have ic: "icache ?s = (icache s)[ip := x\<lparr>i_size := z\<rparr>]" by (simp add: upd_inode_def x(1))
  have I: "fs_inv ?s" "free_blocks ?s = free_blocks s" using fs_inv_frame [OF inv f] c(1) by auto
  have x': "x\<lparr>i_size := z\<rparr> = icache ?s ! ip" using ic ip by simp
  have "dinode_ok (dinode_of_inode (x\<lparr>i_size := z\<rparr>))" using d by (simp add: dinode_ok_def dinode_of_inode_def)
  then obtain s' where r: "iupdate ip ?s = Ret s'" "runs_to m T ?s s'" "icache s' = icache ?s" "fs_inv s'"
    "free_blocks s' = free_blocks ?s" "\<And>c. c \<notin> iblocks (sb ?s) \<Longrightarrow> view s' c = view ?s c" "synced s' ip"
    using x t c(6) by (rule_tac iupdate_spec [OF I(1) c(5,2) x']) auto
  have hh: "\<And>i b. holds s i b \<Longrightarrow> holds ?s i b" by (simp add: holds_def caches_def upd_inode_def)
  have "runs_to m T s s'" using r(2) c f fframe_trans [OF f runs_toD(5) [OF r(2)]] h hh unfolding runs_to_def by auto
  then show thesis using r I ic c by (intro that [of s']) auto
qed

lemma blocks_ok_addrs:
  assumes "blocks_ok s a" "fs_inv s" "b \<in> set a"
  shows "b < 2 ^ 32"
proof (cases "b = 0")
  case False
  from assms(3) obtain k where k: "k < NDIRECT + 1" "a ! k = b" using blocks_okD(1) [OF assms(1)] by (auto simp: in_set_conv_nth)
  have "b \<in> own (view s) a"
  proof (cases "k = NDIRECT")
    case True
    then show ?thesis using k False by (simp add: own_def)
  next
    case ne: False
    then have "k < NDIRECT" using k(1) by simp
    then have "blk (view s) a k = b" "k < MAXFILE" using k(2) NDIRECT_MAXFILE(1) by (simp_all add: blk_def)
    then show ?thesis using False by (auto simp: own_def)
  qed
  then show ?thesis using blocks_okD(2) [OF assms(1)] fs_invD(2) [OF assms(2)] by fastforce
qed simp

lemma writei_states:
  fixes s :: "'a fs_state_scheme"
  assumes inv: "fs_inv s" and bu: "budget (m + nblk off (length src) + reserve T (i_addrs (icache s ! ip))) T s" and h: "held s = {}"
    and t: "bmaps (sb s) \<subseteq> T" "IBLOCK (i_inum (icache s ! ip)) (sb s) \<in> T" and ok: "inode_ok s ip"
    and ty: "i_type (icache s ! ip) \<noteq> T_DEV" and off: "off \<le> i_size (icache s ! ip)" "off + length src \<le> MAXFILE * BSIZE"
    and fr: "nblk off (length src) + lack (i_addrs (icache s ! ip)) \<le> card (free_blocks s)"
    and i: "i_inum (icache s ! ip) < sb_ninodes (sb s)" "dinode_ok (dinode_of_inode (icache s ! ip))"
  obtains s1 T' s' where "wrote ip off src m T s T' s1" and "writei dw ip src off s = Ret (int (length src), s')"
    and "runs_to m T' s1 s'" and "fs_inv s'" and "free_blocks s' = free_blocks s1"
    and "icache s' = (icache s)[ip := (icache s ! ip)\<lparr>i_addrs := i_addrs (icache s1 ! ip), i_size := max (i_size (icache s ! ip)) (off + length src)\<rparr>]"
    and "\<And>c. c \<notin> iblocks (sb s) \<Longrightarrow> view s' c = view s1 c" and "synced s ip \<Longrightarrow> synced s' ip"
proof -
  let ?x = "icache s ! ip" and ?n = "length src"
  note K = inode_okD [OF ok]
  obtain s1 T' where r: "writei_loop ip off src s = Ret s1" "wrote ip off src m T s T' s1"
    using writei_loop_spec [where j = 0, OF inv bu h t(1) K(1-3) off(2)] fr by auto
  note W = wroteD [OF r(2)]
  note G = grownD [OF W(1)]
  define a1 where "a1 = i_addrs (icache s1 ! ip)"
  let ?x1 = "?x\<lparr>i_addrs := a1\<rparr>"
  have i1: "icache s1 = (icache s)[ip := ?x1]" using G(7) by (simp add: a1_def)
  then have x1: "icache s1 ! ip = ?x1" "ip < length (icache s1)" using K(1) by simp_all
  have sb1: "sb s1 = sb s" using fframe_simps(1) [OF G(6)] .
  have b1: "budget m T' s1" by (rule budget_less [OF W(3)]) simp_all
  have "off + ?n < 2 ^ 32" using off(2) by (simp add: MAXFILE_def NDIRECT_def NINDIRECT_def BSIZE_def)
  then have g: "\<not> (off > i_size ?x \<or> (off + ?n) mod 2 ^ 32 < off)" "\<not> off + ?n > MAXFILE * BSIZE" "off + ?n < 2 ^ 32" using off by auto
  have e: "writei dw ip src off s = (if ?n > 0 \<and> off + ?n > i_size ?x
      then bnd (iupdate ip (upd_inode ip (\<lambda>x. x\<lparr>i_size := off + ?n\<rparr>) s1)) (\<lambda>s. Ret (int ?n, s)) else Ret (int ?n, s1))"
    unfolding writei_def Let_def using ty g by (simp add: r(1) x1(1))
  show thesis
  proof (cases "?n > 0 \<and> off + ?n > i_size ?x")
    case True
    have "length a1 = NDIRECT + 1" "\<forall>b \<in> set a1. b < 2 ^ 32"
      unfolding a1_def using blocks_okD(1) [OF G(2)] blocks_ok_addrs [OF G(2,1)] by blast+
    then have d: "dinode_ok (dinode_of_inode (icache s1 ! ip))" unfolding x1(1)
      using i(2) by (simp add: dinode_ok_def dinode_of_inode_def)
    obtain s' where q: "iupdate ip (upd_inode ip (\<lambda>x. x\<lparr>i_size := off + ?n\<rparr>) s1) = Ret s'" "runs_to m T' s1 s'"
      "icache s' = (icache s1)[ip := (icache s1 ! ip)\<lparr>i_size := off + ?n\<rparr>]" "fs_inv s'" "free_blocks s' = free_blocks s1"
      "\<And>c. c \<notin> iblocks (sb s1) \<Longrightarrow> view s' c = view s1 c" "synced s' ip"
      by (rule iupdate_size [OF G(1) b1 G(3) refl _ _ x1(2) _ d g(3)]) (use K(2) i(1) t(2) W(2) sb1 x1(1) in auto)
    have "icache s' = (icache s)[ip := ?x1\<lparr>i_size := max (i_size ?x) (off + ?n)\<rparr>]"
      unfolding q(3) x1(1) using True by (simp add: i1)
    then show thesis using True q e sb1 by (intro that [OF r(2) _ q(2,4,5)]) (auto simp: a1_def)
  next
    case False
    then have z: "max (i_size ?x) (off + ?n) = i_size ?x" using off(1) by auto
    have e': "writei dw ip src off s = Ret (int ?n, s1)" unfolding e using False by auto
    have rt: "runs_to m T' s1 s1" using b1 by (simp add: runs_to_def)
    have sy: "synced s1 ip" if "synced s ip"
    proof -
      let ?b = "IBLOCK (i_inum ?x) (sb s)"
      have "blk (view s) (i_addrs ?x) (p div BSIZE) \<noteq> 0" if "off \<le> p" "p < off + ?n" for p
        by (rule K(5)) (use False that in linarith)
      then have a1: "a1 = i_addrs ?x" unfolding a1_def by (rule W(7))
      have "?b \<in> iblocks (sb s)" using i(1) by (auto simp: iblocks_def)
      then have "?b \<notin> bmaps (sb s)" "?b \<in> meta s1" using fs_invD(8) [OF inv] sb1 by (auto simp: meta_def)
      then have "view s1 ?b = view s ?b" using G(11) blocks_okD(2) [OF G(2)] by blast
      then show ?thesis using that by (simp add: synced_def Let_def x1(1) sb1 a1)
    qed
    have "icache s1 = (icache s)[ip := ?x1\<lparr>i_size := i_size ?x\<rparr>]" by (simp add: i1)
    then show thesis using sy by (intro that [OF r(2) e' rt G(1)]) (auto simp: z a1_def)
  qed
qed

text \<open>Two files share no block.\<close>

definition apart :: "'a fs_state_scheme \<Rightarrow> nat \<Rightarrow> nat \<Rightarrow> bool" where
  "apart s ip jp \<longleftrightarrow> own (view s) (i_addrs (icache s ! ip)) \<inter> own (view s) (i_addrs (icache s ! jp)) = {}"

lemma splice_contents:
  assumes "off \<le> z" "\<And>p. off \<le> p \<Longrightarrow> p < off + length src \<Longrightarrow> g p = src ! (p - off)"
    "\<And>p. p < z \<Longrightarrow> \<not> (off \<le> p \<and> p < off + length src) \<Longrightarrow> g p = f p"
  shows "map g [0..<max z (off + length src)] = splice_at off src (map f [0..<z])"
proof (rule nth_equalityI)
  show "length (map g [0..<max z (off + length src)]) = length (splice_at off src (map f [0..<z]))"
    using assms(1) by (simp add: splice_at_def)
  fix p assume "p < length (map g [0..<max z (off + length src)])"
  then have p: "p < max z (off + length src)" by simp
  then show "map g [0..<max z (off + length src)] ! p = splice_at off src (map f [0..<z]) ! p"
    using assms(1) assms(2,3) [of p] by (cases "p < off"; cases "p < off + length src") (auto simp: splice_at_def nth_append)
qed

lemma writei_spec:
  fixes s :: "'a fs_state_scheme"
  assumes inv: "fs_inv s" and bu: "budget (m + nblk off (length src) + reserve T (i_addrs (icache s ! ip))) T s" and h: "held s = {}"
    and t: "bmaps (sb s) \<subseteq> T" "IBLOCK (i_inum (icache s ! ip)) (sb s) \<in> T" and ok: "inode_ok s ip"
    and ty: "i_type (icache s ! ip) \<noteq> T_DEV" and off: "off \<le> i_size (icache s ! ip)" "off + length src \<le> MAXFILE * BSIZE"
    and fr: "nblk off (length src) + lack (i_addrs (icache s ! ip)) \<le> card (free_blocks s)"
    and i: "i_inum (icache s ! ip) < sb_ninodes (sb s)" "dinode_ok (dinode_of_inode (icache s ! ip))"
  obtains s' T' where "writei dw ip src off s = Ret (int (length src), s')" and "T \<subseteq> T'" and "budget m T' s'"
    and "fframe s s'" and "held s' = {}" and "disk s' = disk s" and "dwrites s' = dwrites s" and "fs_inv s'"
    and "inode_ok s' ip" and "contents s' ip = splice_at off src (contents s ip)" and "synced s ip \<Longrightarrow> synced s' ip"
    and "\<And>jp. jp \<noteq> ip \<Longrightarrow> inode_ok s jp \<Longrightarrow> apart s ip jp \<Longrightarrow> inode_ok s' jp \<and> contents s' jp = contents s jp \<and> apart s' ip jp"
    and "T' \<inter> meta s \<subseteq> T" and "i_inum (icache s' ! ip) = i_inum (icache s ! ip)"
proof -
  let ?x = "icache s ! ip" and ?n = "length src"
  obtain s1 T' s' where r: "wrote ip off src m T s T' s1" "writei dw ip src off s = Ret (int ?n, s')" "runs_to m T' s1 s'" "fs_inv s'"
    "free_blocks s' = free_blocks s1"
    "icache s' = (icache s)[ip := ?x\<lparr>i_addrs := i_addrs (icache s1 ! ip), i_size := max (i_size ?x) (off + ?n)\<rparr>]"
    "\<And>c. c \<notin> iblocks (sb s) \<Longrightarrow> view s' c = view s1 c" "synced s ip \<Longrightarrow> synced s' ip"
    by (rule writei_states [OF inv bu h t ok ty off fr i]) blast
  define a1 where "a1 = i_addrs (icache s1 ! ip)"
  note K = inode_okD [OF ok] and W = wroteD [OF r(1), folded a1_def]
  note G = grownD [OF W(1), folded a1_def] and R = runs_toD [OF r(3)]
  have sb1: "sb s1 = sb s" "log_area s1 = log_area s" using fframe_simps [OF G(6)] by simp_all
  have mt: "meta s' = meta s" "sb s' = sb s" "meta s' = meta s1" "sb s' = sb s1" using R(7,9) sb1 by (simp_all add: meta_def)
  have x': "icache s' ! ip = ?x\<lparr>i_addrs := a1, i_size := max (i_size ?x) (off + ?n)\<rparr>" "ip < length (icache s')"
    using r(6) K(1) by (simp_all add: a1_def)
  have v1: "view s' c = view s1 c" if "c \<in> own (view s1) a1" for c
  proof (rule r(7))
    show "c \<notin> iblocks (sb s)" using blocks_okD(2) [OF G(2) that] by (auto simp: meta_def sb1)
  qed
  have O: "blk (view s') a1 k = blk (view s1) a1 k" "own (view s') a1 = own (view s1) a1"
    "p < MAXFILE * BSIZE \<Longrightarrow> blk (view s1) a1 (p div BSIZE) \<noteq> 0 \<Longrightarrow> fbyte (view s') a1 p = fbyte (view s1) a1 p" for k p
    using own_same [of "view s1" a1 "view s'"] v1 by blast+
  have fo: "free_blocks s' \<inter> own (view s1) a1 = {}" using G(10) r(5) by auto
  have bo: "blocks_ok s' a1" by (rule blocks_ok_frame [OF G(2) v1 mt(3,4) fo])
  have nz: "blk (view s1) a1 (p div BSIZE) \<noteq> 0" if "p < max (i_size ?x) (off + ?n)" for p
  proof (cases "p < i_size ?x")
    case True
    then show ?thesis using G(8) [OF MAXFILE_div, of p] K(4) K(5) [OF True] by simp
  next
    case False
    then show ?thesis using W(4) [of p] that off(1) by simp
  qed
  have "blk (view s') a1 k \<noteq> 0" if "k * BSIZE < max (i_size ?x) (off + ?n)" for k using nz [OF that] O(1) BPB_pos(3) by simp
  then have ok': "inode_ok s' ip" using x' K(2,4) bo off(2) by (simp add: inode_ok_def)
  have eq: "fbyte (view s') a1 p = fbyte (view s1) a1 p" if "p < max (i_size ?x) (off + ?n)" for p
    using O(3) [of p] nz [OF that] that K(4) off(2) by auto
  have "contents s' ip = splice_at off src (contents s ip)" unfolding contents_def x'(1)
    using splice_contents [OF off(1), of src "fbyte (view s') a1" "fbyte (view s) (i_addrs ?x)"] eq W(5,6) K(4,5) by simp
  moreover have "inode_ok s' jp \<and> contents s' jp = contents s jp \<and> apart s' ip jp" if j: "jp \<noteq> ip" "inode_ok s jp" "apart s ip jp" for jp
  proof -
    let ?a = "i_addrs (icache s ! jp)"
    note J = inode_okD [OF j(2)]
    have dj: "own (view s1) a1 \<inter> own (view s) ?a = {}"
      using G(12) j(3) blocks_okD(2) [OF J(3)] unfolding apart_def by blast
    have vj: "view s' c = view s c" if "c \<in> own (view s) ?a" for c
    proof -
      have "c \<notin> meta s" using blocks_okD(2) [OF J(3) that] by blast
      then have "view s' c = view s1 c" "c \<notin> bmaps (sb s)" using r(7) by (auto simp: meta_def)
      then show ?thesis using G(11) [of c] dj that by auto
    qed
    have ij: "jp < length (icache s')" "icache s' ! jp = icache s ! jp" using r(6) J(1) j(1) by simp_all
    have fj: "free_blocks s' \<inter> own (view s) ?a = {}" using r(5) G(10) blocks_okD(2) [OF J(3)] by blast
    have "own (view s') ?a = own (view s) ?a" using own_same(2) [of "view s" ?a "view s'"] vj by blast
    then have "apart s' ip jp" using dj O(2) ij(2) x'(1) by (simp add: apart_def)
    then show ?thesis using file_frame [OF j(2) vj mt(1,2) fj ij] by blast
  qed
  moreover have "T' \<inter> meta s \<subseteq> T" using W(8) blocks_okD(2) [OF G(2)] mt by auto
  moreover have "fframe s s'" by (rule fframe_trans [OF G(6) R(5)])
  ultimately show thesis using r(2,4,8) W(2) R(1-4) G(3-5) ok' x'(1) by (intro that [of s' T']) auto
qed

text \<open>C3. Writing a file. Inside a transaction with room in the log for the blocks written, \<open>writei\<close> to a file with
  \<open>off\<close> not past its end returns the number of bytes and replaces the window at \<open>off\<close> of the file's contents,
  extending the file where the window ends beyond it; the blocks of the file stay in order, no two in the same place; the
  disk itself is untouched until the commit, an inode that agrees with its copy in the inode blocks does so afterwards,
  and every file that shares no block with it keeps its contents. An offset past the end, or an end past the
  largest size, gives -1 and changes nothing.\<close>

theorem writei_correct:
  fixes s :: "'a fs_state_scheme"
  assumes inv: "fs_inv s" and bu: "budget (nblk off (length src) + reserve T (i_addrs (icache s ! ip))) T s" and h: "held s = {}"
    and t: "bmaps (sb s) \<subseteq> T" "IBLOCK (i_inum (icache s ! ip)) (sb s) \<in> T" and ok: "inode_ok s ip"
    and ty: "i_type (icache s ! ip) \<noteq> T_DEV"
    and fr: "nblk off (length src) + lack (i_addrs (icache s ! ip)) \<le> card (free_blocks s)"
    and i: "i_inum (icache s ! ip) < sb_ninodes (sb s)" "dinode_ok (dinode_of_inode (icache s ! ip))"
  shows "if off \<le> i_size (icache s ! ip) \<and> off + length src \<le> MAXFILE * BSIZE
    then \<exists>s'. writei dw ip src off s = Ret (int (length src), s') \<and> contents s' ip = splice_at off src (contents s ip) \<and>
      fs_inv s' \<and> inode_ok s' ip \<and> held s' = {} \<and> disk s' = disk s \<and> dwrites s' = dwrites s \<and> (synced s ip \<longrightarrow> synced s' ip) \<and>
      (\<forall>jp. jp \<noteq> ip \<and> inode_ok s jp \<and> apart s ip jp \<longrightarrow> inode_ok s' jp \<and> contents s' jp = contents s jp \<and> apart s' ip jp)
    else writei dw ip src off s = Ret (- 1, s)"
proof (cases "off \<le> i_size (icache s ! ip) \<and> off + length src \<le> MAXFILE * BSIZE")
  case True
  then have off: "off \<le> i_size (icache s ! ip)" "off + length src \<le> MAXFILE * BSIZE" by simp_all
  have bu': "budget (0 + nblk off (length src) + reserve T (i_addrs (icache s ! ip))) T s" using bu by simp
  obtain s' where "writei dw ip src off s = Ret (int (length src), s')" "held s' = {}" "disk s' = disk s" "dwrites s' = dwrites s"
    "fs_inv s'" "inode_ok s' ip" "contents s' ip = splice_at off src (contents s ip)" "synced s ip \<Longrightarrow> synced s' ip"
    "\<And>jp. jp \<noteq> ip \<Longrightarrow> inode_ok s jp \<Longrightarrow> apart s ip jp \<Longrightarrow> inode_ok s' jp \<and> contents s' jp = contents s jp \<and> apart s' ip jp"
    by (rule writei_spec [OF inv bu' h t ok ty off fr i]) blast
  then show ?thesis using True by auto
next
  case False
  then show ?thesis using ty by (auto simp: writei_def Let_def not_le)
qed

lemma demo_file_inode:
  "i_inum (icache demo_file ! 0) = 5" "dinode_ok (dinode_of_inode (icache demo_file ! 0))" "synced demo_file 0"
  "IBLOCK 5 (sb demo_file) = 32" "sb_ninodes (sb demo_file) = 200"
proof -
  note D = demo_fs_base [of "[demo_inode]"] fs_disk_super
  have x: "icache demo_file ! 0 = demo_inode" by (simp add: D)
  show i: "i_inum (icache demo_file ! 0) = 5" "IBLOCK 5 (sb demo_file) = 32" "sb_ninodes (sb demo_file) = 200"
    unfolding x by (simp_all add: D IBLOCK_def IPB_def BSIZE_def) (simp add: demo_inode_def)
  have d: "dinode_of_inode demo_inode = demo_dinode" by (simp add: dinode_of_inode_def demo_inode_def demo_dinode_def)
  have ok: "dinode_ok demo_dinode"
    by (simp add: dinode_ok_def demo_dinode_def short_ok_def T_FILE_def NDIRECT_def)
  then show "dinode_ok (dinode_of_inode (icache demo_file ! 0))" by (simp add: x d)
  have "dinode_at 5 (fs_disk 32) = dinode_bytes demo_dinode"
    using length_dinode [of demo_dinode] ok
    by (simp add: fs_disk_def dinode_at_def slice_at_def IPB_def BSIZE_def dinode_ok_def)
  then show "synced demo_file 0" using i x d dinode_codec [OF ok] by (simp add: synced_def Let_def D)
qed

theorem writei_correct_witness:
  "\<exists>s'. writei (\<lambda>_. None) 0 [33] 2 demo_file = Ret (1, s') \<and> contents s' 0 = [104, 105, 33] \<and> synced s' 0"
proof -
  note D = demo_fs_base [of "[demo_inode]"] demo_fs_inv [of "[demo_inode]"]
  have bu: "budget (nblk 2 (length [33 :: uchar]) + reserve {58, 32} (i_addrs (icache demo_file ! 0))) {58, 32} demo_file"
    using D(1,3,9) tx_inv_mono [of 20 demo_file 0] by (simp add: budget_def nblk_def reserve_def)
  have fr: "nblk 2 (length [33 :: uchar]) + lack (i_addrs (icache demo_file ! 0)) \<le> card (free_blocks demo_file)"
    by (simp add: D(11) nblk_def lack_def)
  have l: "(2 :: nat) + length [33 :: uchar] \<le> MAXFILE * BSIZE"
    by (simp add: MAXFILE_def NDIRECT_def NINDIRECT_def BSIZE_def)
  have t: "bmaps (sb demo_file) \<subseteq> {58, 32}" "IBLOCK (i_inum (icache demo_file ! 0)) (sb demo_file) \<in> {58, 32}"
    by (simp_all add: D(12) demo_file_inode)
  have i: "i_inum (icache demo_file ! 0) < sb_ninodes (sb demo_file)" by (simp add: demo_file_inode)
  show ?thesis
    using writei_correct [where dw = "\<lambda>_. None", OF D(10) bu D(2) t demo_file_ok(1,3) fr i demo_file_inode(2)] l demo_file_ok(2,5) demo_file_inode(3)
    by (auto simp: splice_at_def)
qed

end
