(* ===== verification/Fstrans.thy ===== *)
theory Fstrans
  imports Fswrite File
begin

text \<open>
  A write to a file as one transaction, as \<open>filewrite\<close> of \<open>file.c\<close> makes it: after a crash at any point the file read
  from the disk is the old one or the new one. Here the file system of \<open>Fswrite\<close> meets the log of \<open>Transaction\<close>.
\<close>

text \<open>A file as the disk has it, found through its inode.\<close>

definition disk_file :: "superblock \<Rightarrow> nat \<Rightarrow> (nat \<Rightarrow> uchar list) \<Rightarrow> uchar list" where
  "disk_file super inum D =
     (let d = dinode_of (dinode_at inum (D (IBLOCK inum super))) in map (fbyte D (d_addrs d)) [0..<d_size d])"

lemma disk_file_synced:
  assumes "synced s ip" "inode_ok s ip" "D (IBLOCK (i_inum (icache s ! ip)) (sb s)) = view s (IBLOCK (i_inum (icache s ! ip)) (sb s))"
    "\<And>c. c \<in> own (view s) (i_addrs (icache s ! ip)) \<Longrightarrow> D c = view s c"
  shows "disk_file (sb s) (i_inum (icache s ! ip)) D = contents s ip"
proof -
  note K = inode_okD [OF assms(2)]
  have "fbyte D (i_addrs (icache s ! ip)) p = fbyte (view s) (i_addrs (icache s ! ip)) p" if "p < i_size (icache s ! ip)" for p
    using own_same(3) [of "view s" "i_addrs (icache s ! ip)" D p] assms(4) K(4) K(5) [OF that] that by auto
  then show ?thesis using assms(1,3) by (simp add: disk_file_def synced_def Let_def dinode_of_inode_def contents_def)
qed

lemma quiet_icache [simp]: "quiet (s\<lparr>icache := X\<rparr>) = quiet s" for s :: "'a fs_state_scheme"
  by (simp add: quiet_def at_rest_def icache_cache log_wf_def logged_def)

lemma end_op_fs:
  fixes s s2 :: "'a fs_state_scheme"
  assumes q: "quiet s" and tx: "tx_inv 0 s2" and f: "fframe (s\<lparr>log_outstanding := 1\<rparr>) s2"
    and b: "held s2 = {}" "disk s2 = disk s" "dwrites s2 = dwrites s" "1 \<notin> dirty s2"
  obtains s' ws c where "end_op s2 = Ret s'" and "quiet s'" and "\<And>b. b \<notin> log_area s \<Longrightarrow> disk s' b = view s2 b"
    and "dwrites s' = dwrites s @ ws"
    and "\<And>k (t :: 'a fs_state_scheme). fresh t \<Longrightarrow> disksize t = disksize s \<Longrightarrow> disk t = apply_writes (take k ws) (disk s) \<Longrightarrow>
      \<exists>t'. initlog 1 t = Ret t' \<and> at_rest t' \<and> lh_n t' = 0 \<and>
        (\<forall>b. b \<notin> log_area s \<longrightarrow> disk t' b = (if k \<le> c then disk s b else view s2 b))"
proof -
  let ?s = "s\<lparr>icache := icache s2\<rparr>"
  from f have t: "(tcore s2)\<lparr>icache := []\<rparr> = (tcore (s\<lparr>log_outstanding := 1\<rparr>))\<lparr>icache := []\<rparr>"
    and p: "map p_pid (ptable s2) = map p_pid (ptable s)" by (simp_all add: fframe_def tframe_def tcore_icache)
  have "tcore s2 = (tcore s2)\<lparr>icache := icache s2\<rparr>" by simp
  also have "\<dots> = ((tcore s2)\<lparr>icache := []\<rparr>)\<lparr>icache := icache s2\<rparr>" by simp
  also have "\<dots> = tcore (s\<lparr>log_outstanding := 1, icache := icache s2\<rparr>)" unfolding t by (simp add: tcore_icache)
  also have "s\<lparr>log_outstanding := 1, icache := icache s2\<rparr> = ?s\<lparr>log_outstanding := 1\<rparr>" by simp
  finally have "tframe (?s\<lparr>log_outstanding := 1\<rparr>) s2" using p by (simp add: tframe_def)
  then have base: "tx_base (?s\<lparr>log_outstanding := 1\<rparr>) s2" using b by (simp add: tx_base_def)
  obtain s' and u :: "'a fs_state_scheme" where 3: "end_op s2 = Ret s'" "quiet s'" "\<And>b. b \<notin> log_area ?s \<Longrightarrow> disk s' b = view s2 b"
    "tx_ready u" "disk u = disk ?s" "log_start u = log_start ?s" "log_size u = log_size ?s"
    "disksize u = disksize ?s" "view u = view s2" "1 \<notin> dirty u" "dwrites s' = dwrites ?s @ commit_writes u"
    by (rule end_op_spec [OF _ tx base]) (use q in auto)
  have la: "log_area u = log_area s" using 3(6,7) by (simp add: log_area_def)
  have crash: "\<exists>t'. initlog 1 t = Ret t' \<and> at_rest t' \<and> lh_n t' = 0 \<and>
      (\<forall>b. b \<notin> log_area s \<longrightarrow> disk t' b = (if k \<le> nat (lh_n u) then disk s b else view s2 b))"
    if t: "fresh t" "disksize t = disksize s" "disk t = apply_writes (take k (commit_writes u)) (disk s)"
    for k and t :: "'a fs_state_scheme"
  proof -
    have "\<exists>t'. initlog 1 t = Ret t' \<and> at_rest t' \<and> log_wf t' \<and> lh_n t' = 0 \<and>
        (\<forall>b. b \<notin> log_area u \<longrightarrow> disk t' b = (if k \<le> nat (lh_n u) then disk u b else view u b))"
      by (rule crash_recovers [OF 3(4)]) (use q t 3 la in \<open>auto simp: quiet_def crash_disk_def\<close>)
    then show ?thesis unfolding la 3(5,9) by auto
  qed
  show thesis by (rule that [OF 3(1,2) _ _ crash]) (use 3(3,11) in simp_all)
qed

lemma op_begun:
  fixes s :: "'a fs_state_scheme"
  shows "view (s\<lparr>log_outstanding := n\<rparr>) = view s" and "log_area (s\<lparr>log_outstanding := n\<rparr>) = log_area s"
    and "fs_inv (s\<lparr>log_outstanding := n\<rparr>) = fs_inv s" and "free_blocks (s\<lparr>log_outstanding := n\<rparr>) = free_blocks s"
    and "inode_ok (s\<lparr>log_outstanding := n\<rparr>) ip = inode_ok s ip" and "synced (s\<lparr>log_outstanding := n\<rparr>) ip = synced s ip"
    and "contents (s\<lparr>log_outstanding := n\<rparr>) ip = contents s ip" and "meta (s\<lparr>log_outstanding := n\<rparr>) = meta s"
proof -
  show v: "view (s\<lparr>log_outstanding := n\<rparr>) = view s" by (rule cache_cong) simp_all
  show l: "log_area (s\<lparr>log_outstanding := n\<rparr>) = log_area s" by (simp add: log_area_def)
  show m: "meta (s\<lparr>log_outstanding := n\<rparr>) = meta s" by (simp add: meta_def l)
  show f: "free_blocks (s\<lparr>log_outstanding := n\<rparr>) = free_blocks s" by (simp add: free_blocks_def v)
  show "fs_inv (s\<lparr>log_outstanding := n\<rparr>) = fs_inv s" by (simp add: fs_inv_def v l m)
  show "inode_ok (s\<lparr>log_outstanding := n\<rparr>) ip = inode_ok s ip" by (simp add: inode_ok_def blocks_ok_def v m f)
  show "synced (s\<lparr>log_outstanding := n\<rparr>) ip = synced s ip" by (simp add: synced_def v)
  show "contents (s\<lparr>log_outstanding := n\<rparr>) ip = contents s ip" by (simp add: contents_def v)
qed

text \<open>The bytes \<open>filewrite\<close> puts into one transaction fill at most four blocks.\<close>

lemma nblk_filewrite:
  assumes "n \<le> filewrite_max"
  shows "nblk off n \<le> 4"
proof -
  have "n \<le> 1536" using assms by (simp add: filewrite_max_def MAXOPBLOCKS_def)
  then have "(off + n - 1) div BSIZE \<le> (off + 3 * BSIZE) div BSIZE" by (intro div_le_mono) (simp add: BSIZE_def)
  also have "\<dots> = off div BSIZE + 3" using BPB_pos(3) by simp
  finally have "(off + n - 1) div BSIZE - off div BSIZE + 1 \<le> 4" by linarith
  then show ?thesis by (simp add: nblk_def)
qed

lemma filewrite_budget:
  fixes s :: "'a fs_state_scheme"
  assumes "tx_inv 0 s" "dirty s = {}" "int MAXOPBLOCKS < log_size s" "n \<le> filewrite_max" "card (bmaps (sb s)) \<le> 1"
  shows "budget (0 + nblk off n + reserve (insert b (bmaps (sb s))) a) (insert b (bmaps (sb s))) s"
proof -
  have f: "finite (bmaps (sb s))" by (simp add: bmaps_def)
  have "card (insert b (bmaps (sb s))) \<le> 2" using assms(5) card_insert_le_m1 [of 2 "bmaps (sb s)" b] by simp
  moreover have "reserve (insert b (bmaps (sb s))) a \<le> 1" by (simp add: reserve_def)
  ultimately show ?thesis using assms(1-3) nblk_filewrite [OF assms(4), of off] f by (simp add: budget_def MAXOPBLOCKS_def)
qed

text \<open>C1. A write to a file is atomic. From a state between transactions, \<open>begin_op\<close>, \<open>writei\<close> of at most the number
  of bytes \<open>filewrite\<close> writes at a time, and \<open>end_op\<close> return, and the file on the disk has the new bytes at \<open>off\<close>. If
  the machine stops after \<open>k\<close> of the block writes this takes and reboots, \<open>initlog\<close> returns with the log empty, and
  the file read from the disk through its inode is the old file for \<open>k \<le> c\<close> and the new one for \<open>k > c\<close>, for some \<open>c\<close>.\<close>

theorem file_write_atomic:
  fixes s :: "'a fs_state_scheme"
  assumes q: "quiet s" and inv: "fs_inv s" and ok: "inode_ok s ip" "synced s ip"
    and ty: "i_type (icache s ! ip) \<noteq> T_DEV" and off: "off \<le> i_size (icache s ! ip)" "off + length src \<le> MAXFILE * BSIZE"
    and n: "length src \<le> filewrite_max" and bm: "card (bmaps (sb s)) \<le> 1"
    and fr: "nblk off (length src) + lack (i_addrs (icache s ! ip)) \<le> card (free_blocks s)"
    and i: "i_inum (icache s ! ip) < sb_ninodes (sb s)" "dinode_ok (dinode_of_inode (icache s ! ip))"
  shows "\<exists>s1 s2 s' ws c. begin_op s = Ret s1 \<and> writei dw ip src off s1 = Ret (int (length src), s2) \<and> end_op s2 = Ret s' \<and>
    quiet s' \<and> dwrites s' = dwrites s @ ws \<and>
    disk_file (sb s) (i_inum (icache s ! ip)) (disk s) = contents s ip \<and>
    disk_file (sb s) (i_inum (icache s ! ip)) (disk s') = splice_at off src (contents s ip) \<and>
    (\<forall>k (t :: 'a fs_state_scheme). fresh t \<and> disksize t = disksize s \<and> disk t = apply_writes (take k ws) (disk s) \<longrightarrow>
      (\<exists>t'. initlog 1 t = Ret t' \<and> at_rest t' \<and> lh_n t' = 0 \<and> disk_file (sb s) (i_inum (icache s ! ip)) (disk t') =
        (if k \<le> c then contents s ip else splice_at off src (contents s ip))))"
proof -
  let ?x = "icache s ! ip"
  let ?b = "IBLOCK (i_inum ?x) (sb s)"
  obtain s1 where 1: "begin_op s = Ret s1" "s1 = s\<lparr>log_outstanding := 1\<rparr>" "tx_inv MAXOPBLOCKS s1" "held s1 = {}" "view s1 = disk s"
    by (rule begin_op_quiet [OF q]) blast
  have S: "icache s1 = icache s" "sb s1 = sb s" "disk s1 = disk s" "dwrites s1 = dwrites s" "fframe (s\<lparr>log_outstanding := 1\<rparr>) s1"
    by (simp_all add: 1(2))
  have d1: "dirty s1 = {}" "int MAXOPBLOCKS < log_size s1"
    using q cache_cong(4) [of "s\<lparr>log_outstanding := 1\<rparr>" s] by (simp_all add: quiet_def 1(2))
  note O = op_begun [where s = s and n = 1, folded 1(2)]
  note bu = filewrite_budget [OF tx_inv_mono [OF 1(3)] d1 n, unfolded S(2), OF _ bm]
  obtain s2 T' where 2: "writei dw ip src off s1 = Ret (int (length src), s2)" "budget 0 T' s2"
    "fframe s1 s2" "held s2 = {}" "disk s2 = disk s1" "dwrites s2 = dwrites s1" "inode_ok s2 ip"
    "contents s2 ip = splice_at off src (contents s1 ip)" "synced s1 ip \<Longrightarrow> synced s2 ip" "T' \<inter> meta s1 \<subseteq> insert ?b (bmaps (sb s))"
    "i_inum (icache s2 ! ip) = i_inum ?x"
    by (rule writei_spec [where T = "insert ?b (bmaps (sb s))" and s = s1 and ip = ip and off = off and src = src and m = 0 and dw = dw])
      (use inv bu ok ty off fr i in \<open>auto simp: O S 1(4)\<close>)
  have sb2: "sb s2 = sb s" "meta s2 = meta s" "log_area s2 = log_area s"
    using fframe_simps [OF 2(3)] O(2) S(2) by (simp_all add: meta_def)
  have ib: "?b \<in> iblocks (sb s)" using i(1) by (auto simp: iblocks_def)
  have b: "?b \<notin> log_area s" "1 \<in> meta s" "1 \<noteq> ?b" "1 \<notin> bmaps (sb s)"
    using fs_invD(7) [OF inv, of 1] fs_invD(8) [OF inv ib] by (auto simp: meta_def)
  have "1 \<notin> T'" using 2(10) b O(8) by auto
  then have "1 \<notin> dirty s2" using 2(2) by (auto simp: budget_def)
  moreover have "tx_inv 0 s2" using 2(2) by (simp add: budget_def)
  ultimately obtain s' ws c where 3: "end_op s2 = Ret s'" "quiet s'" "\<And>b. b \<notin> log_area s \<Longrightarrow> disk s' b = view s2 b"
    "dwrites s' = dwrites s @ ws"
    "\<And>k (t :: 'a fs_state_scheme). fresh t \<Longrightarrow> disksize t = disksize s \<Longrightarrow> disk t = apply_writes (take k ws) (disk s) \<Longrightarrow>
      \<exists>t'. initlog 1 t = Ret t' \<and> at_rest t' \<and> lh_n t' = 0 \<and>
        (\<forall>b. b \<notin> log_area s \<longrightarrow> disk t' b = (if k \<le> c then disk s b else view s2 b))"
    using end_op_fs [OF q _ 2(3) [unfolded 1(2)] 2(4) 2(5,6) [unfolded S(3,4)]] by blast
  have own: "c \<notin> log_area s" if "c \<in> own (view s) (i_addrs ?x) \<union> own (view s2) (i_addrs (icache s2 ! ip))" for c
    using that blocks_okD(2) [OF inode_okD(3) [OF ok(1)], of c] blocks_okD(2) [OF inode_okD(3) [OF 2(7)], of c] sb2 by (auto simp: meta_def)
  have old: "disk_file (sb s) (i_inum ?x) D = contents s ip" if "\<And>b. b \<notin> log_area s \<Longrightarrow> D b = disk s b" for D
    by (rule disk_file_synced [OF ok(2,1)]) (use that b own 1(5) O(1) in auto)
  have new: "disk_file (sb s) (i_inum ?x) D = splice_at off src (contents s ip)" if "\<And>b. b \<notin> log_area s \<Longrightarrow> D b = view s2 b" for D
    using disk_file_synced [of s2 ip D, unfolded sb2 2(11)] that b own 2(7-9) ok(2) O(6,7) by auto
  have "\<exists>t'. initlog 1 t = Ret t' \<and> at_rest t' \<and> lh_n t' = 0 \<and>
      disk_file (sb s) (i_inum ?x) (disk t') = (if k \<le> c then contents s ip else splice_at off src (contents s ip))"
    if t: "fresh t" "disksize t = disksize s" "disk t = apply_writes (take k ws) (disk s)" for k and t :: "'a fs_state_scheme"
  proof -
    obtain t' where t': "initlog 1 t = Ret t'" "at_rest t'" "lh_n t' = 0"
      "\<And>b. b \<notin> log_area s \<Longrightarrow> disk t' b = (if k \<le> c then disk s b else view s2 b)"
      using 3(5) [OF t] by blast
    then show ?thesis using old [of "disk t'"] new [of "disk t'"] by auto
  qed
  then show ?thesis using 1(1) 2(1) 3(1,2,4) old [of "disk s"] new [of "disk s'", OF 3(3)] by blast
qed

text \<open>The small file system between transactions.\<close>

abbreviation idle_file :: fs_state where
  "idle_file \<equiv> demo_file\<lparr>log_outstanding := 0\<rparr>"

lemma idle_file_quiet: "quiet idle_file"
proof -
  note D = demo_fs_base [of "[demo_inode]"] demo_fs_inv [of "[demo_inode]"]
  have C: "bio_inv idle_file = bio_inv demo_file" "held idle_file = held demo_file" "dirty idle_file = dirty demo_file"
    by (rule cache_cong; simp)+
  have dk: "disk demo_file = fs_disk" using unheld_clean [of demo_file] tx_invD(1) [OF D(1)] D(2-4) by (auto simp: fun_eq_iff)
  have h: "le_int (slice_at 0 4 (fs_disk 2)) = 0" by code_simp
  have l: "log_start demo_file = 2" "log_size demo_file = 30" by (simp_all add: demo_fs_def)
  show ?thesis
    using tx_invD [OF D(1)] D(2,3,7,8) C h l dk
    by (simp add: quiet_def at_rest_def fs_disk_super [unfolded One_nat_def] MAXOPBLOCKS_def NBUF_def log_area_def log_wf_def logged_def)
qed

theorem file_write_atomic_witness:
  "\<exists>s1 s2 s'. begin_op idle_file = Ret s1 \<and> writei (\<lambda>_. None) 0 [33] 2 s1 = Ret (1, s2) \<and> end_op s2 = Ret s' \<and>
     disk_file (sb idle_file) 5 (disk idle_file) = [104, 105] \<and> disk_file (sb idle_file) 5 (disk s') = [104, 105, 33]"
proof -
  note D = demo_fs_base [of "[demo_inode]"] demo_fs_inv [of "[demo_inode]"]
  note O = op_begun [where s = demo_file and n = 0]
  have "icache idle_file = icache demo_file" "sb idle_file = sb demo_file" by simp_all
  note E = this O demo_file_ok demo_file_inode
  have a: "(2 :: nat) \<le> i_size (icache idle_file ! 0)" "2 + length [33 :: uchar] \<le> MAXFILE * BSIZE" "length [33 :: uchar] \<le> filewrite_max"
    "card (bmaps (sb idle_file)) \<le> 1" "nblk 2 (length [33 :: uchar]) + lack (i_addrs (icache idle_file ! 0)) \<le> card (free_blocks idle_file)"
    "i_inum (icache idle_file ! 0) < sb_ninodes (sb idle_file)"
    by (simp_all add: E D(11,12) MAXFILE_def NDIRECT_def NINDIRECT_def BSIZE_def filewrite_max_def MAXOPBLOCKS_def nblk_def lack_def)
  have b: "fs_inv idle_file" "inode_ok idle_file 0" "synced idle_file 0" "i_type (icache idle_file ! 0) \<noteq> T_DEV"
    "dinode_ok (dinode_of_inode (icache idle_file ! 0))"
    using D(10) by (simp_all add: E)
  show ?thesis
    using file_write_atomic [where dw = "\<lambda>_. None", OF idle_file_quiet b(1-4) a b(5)] by (auto simp: E splice_at_def)
qed

end
