(* ===== verification/Ulib.thy ===== *)
theory Ulib
  imports Consout
begin

text \<open>
  User programs as interactions with the kernel, and the user library: \<open>ulib.c\<close> and \<open>printf.c\<close>.

  A program is a tree of system calls (\<open>uprog\<close>): each node names the call and its arguments, and
  continues with the kernel's reply. \<open>ForkU k\<close> is \<open>fork\<close>: the parent continues with \<open>k pid\<close>, the
  child with \<open>k 0\<close>. A loop without a bound of its own takes a number of rounds and ends in \<open>Fuel\<close> when they
  are used up. \<open>UndefU\<close> is undefined behaviour.

  A C string is the list of its characters before the NUL.
\<close>

section \<open>Programs\<close>

datatype req =
    Read int nat
  | Write int string
  | Open string int
  | Close int
  | Dup int
  | PipeC
  | Exec string "string list"
  | Wait
  | Kill int
  | Sbrk int
  | SleepC int
  | Getpid
  | Link string string
  | Unlink string
  | Mkdir string
  | Mknod string int int
  | Chdir string
  | Fstat int
  | Getpinfo
  | Settickets int

record ustat =
  us_type :: int
  us_ino :: int
  us_size :: int

record upstat =
  up_inuse :: bool
  up_tickets :: int
  up_pid :: int
  up_ticks :: int
  up_name :: string
  up_state :: char

text \<open>A reply: the value the call returns, and what it has stored through a pointer argument.\<close>

record rep =
  r_val :: int
  r_data :: string
  r_fds :: "int \<times> int"
  r_stat :: ustat
  r_pstat :: "upstat list"

datatype 'a uprog = Return 'a | ExitU | UndefU | Fuel | Sys req "rep \<Rightarrow> 'a uprog" | ForkU "int \<Rightarrow> 'a uprog"

primrec ubnd :: "'a uprog \<Rightarrow> ('a \<Rightarrow> 'b uprog) \<Rightarrow> 'b uprog" where
  "ubnd (Return x) f = f x"
| "ubnd ExitU f = ExitU"
| "ubnd UndefU f = UndefU"
| "ubnd Fuel f = Fuel"
| "ubnd (Sys r k) f = Sys r (\<lambda>a. ubnd (k a) f)"
| "ubnd (ForkU k) f = ForkU (\<lambda>a. ubnd (k a) f)"

abbreviation useq :: "'a uprog \<Rightarrow> 'b uprog \<Rightarrow> 'b uprog" where
  "useq p q \<equiv> ubnd p (\<lambda>_. q)"

definition syscall_u :: "req \<Rightarrow> int uprog" where
  "syscall_u r = Sys r (\<lambda>a. Return (r_val a))"

definition fork_u :: "int uprog" where
  "fork_u = ForkU Return"

definition lift_res :: "'a res \<Rightarrow> 'a uprog" where
  "lift_res r = (case r of Ret x \<Rightarrow> Return x | _ \<Rightarrow> UndefU)"

section \<open>Strings\<close>

text \<open>\<open>strcpy\<close> into an array; writing past its end is undefined.\<close>

fun strcpy_u :: "string \<Rightarrow> string \<Rightarrow> string res" where
  "strcpy_u [] t = Undef"
| "strcpy_u (_ # s) [] = Ret (CHR 0x00 # s)"
| "strcpy_u (_ # s) (c # t) = bnd (strcpy_u s t) (\<lambda>s. Ret (c # s))"

definition char_int :: "char \<Rightarrow> int" where
  "char_int c = of_char c"

fun strcmp_u :: "string \<Rightarrow> string \<Rightarrow> int" where
  "strcmp_u (x # p) (y # q) = (if x = y then strcmp_u p q else char_int x - char_int y)"
| "strcmp_u (x # p) [] = char_int x"
| "strcmp_u [] (y # q) = - char_int y"
| "strcmp_u [] [] = 0"

definition strlen_u :: "string \<Rightarrow> nat" where
  "strlen_u s = length s"

text \<open>The position of the first \<open>c\<close>, if any.\<close>

definition strchr :: "string \<Rightarrow> char \<Rightarrow> nat option" where
  "strchr s c = find_idx (\<lambda>x. x = c) s"

text \<open>\<open>n*10 + *s++ - '0'\<close> overflows beyond the largest \<open>int\<close>; the sum is evaluated from the left.\<close>

primrec atoi_loop :: "int \<Rightarrow> string \<Rightarrow> int res" where
  "atoi_loop n [] = Ret n"
| "atoi_loop n (c # s) =
     (if 48 \<le> char_int c \<and> char_int c \<le> 57
      then (if n * 10 + char_int c \<ge> 2 ^ 31 then Undef else atoi_loop (n * 10 + char_int c - 48) s)
      else Ret n)"

definition atoi :: "string \<Rightarrow> int res" where
  "atoi s = atoi_loop 0 s"

primrec memmove_loop :: "nat \<Rightarrow> string \<Rightarrow> string \<Rightarrow> string res" where
  "memmove_loop 0 dst src = Ret dst"
| "memmove_loop (Suc n) dst src =
     (case dst of [] \<Rightarrow> Undef | _ # d \<Rightarrow> (case src of [] \<Rightarrow> Undef
      | c # s \<Rightarrow> bnd (memmove_loop n d s) (\<lambda>d. Ret (c # d))))"

text \<open>\<open>memmove\<close> between two arrays that do not overlap, and forwards within one: the loop copies upwards.\<close>

definition memmove_u :: "string \<Rightarrow> string \<Rightarrow> int \<Rightarrow> string res" where
  "memmove_u dst src n = memmove_loop (nat n) dst src"

definition memset_u :: "string \<Rightarrow> char \<Rightarrow> nat \<Rightarrow> string res" where
  "memset_u dst c n = (if n \<le> length dst then Ret (replicate n c @ drop n dst) else Undef)"

section \<open>Input\<close>

text \<open>\<open>gets\<close> with \<open>k = max - 1 - i\<close> bytes of room left: the bytes stored before the NUL.\<close>

primrec gets_loop :: "nat \<Rightarrow> string \<Rightarrow> string uprog" where
  "gets_loop 0 buf = Return buf"
| "gets_loop (Suc k) buf =
     Sys (Read 0 1) (\<lambda>a.
       if r_val a < 1 then Return buf
       else (case r_data a of
           [] \<Rightarrow> UndefU
         | c # _ \<Rightarrow> if c = CHR 0x0A \<or> c = CHR 0x0D then Return (buf @ [c]) else gets_loop k (buf @ [c])))"

definition gets :: "nat \<Rightarrow> string uprog" where
  "gets nbuf = gets_loop (nbuf - 1) []"

definition stat_u :: "string \<Rightarrow> (int \<times> ustat) uprog" where
  "stat_u n =
     ubnd (syscall_u (Open n 0)) (\<lambda>fd.
     if fd < 0 then Return (- 1, \<lparr>us_type = 0, us_ino = 0, us_size = 0\<rparr>)
     else Sys (Fstat fd) (\<lambda>a. ubnd (syscall_u (Close fd)) (\<lambda>_. Return (r_val a, r_stat a))))"

section \<open>Formatted output\<close>

definition udigits :: string where "udigits = ''0123456789ABCDEF''"

text \<open>The characters \<open>printf\<close> prints. A missing argument is undefined.\<close>

fun printf_text :: "string \<Rightarrow> fmt_arg list \<Rightarrow> string res" where
  "printf_text [] args = Ret []"
| "printf_text (c # fmt) args =
     (if c \<noteq> CHR ''%'' then bnd (printf_text fmt args) (\<lambda>r. Ret (c # r))
      else (case fmt of
        [] \<Rightarrow> Ret []
      | d # fmt \<Rightarrow>
          if d = CHR ''d''
          then (case args of AInt x # args \<Rightarrow> bnd (printint_text udigits x 10 True) (\<lambda>t.
                  bnd (printf_text fmt args) (\<lambda>r. Ret (t @ r))) | _ \<Rightarrow> Undef)
          else if d = CHR ''x'' \<or> d = CHR ''p''
          then (case args of AInt x # args \<Rightarrow> bnd (printint_text udigits x 16 False) (\<lambda>t.
                  bnd (printf_text fmt args) (\<lambda>r. Ret (t @ r))) | _ \<Rightarrow> Undef)
          else if d = CHR ''s''
          then (case args of AStr s # args \<Rightarrow>
                  bnd (printf_text fmt args) (\<lambda>r. Ret ((case s of None \<Rightarrow> ''(null)'' | Some s \<Rightarrow> s) @ r))
                | _ \<Rightarrow> Undef)
          else if d = CHR ''c''
          then (case args of AInt x # args \<Rightarrow>
                  bnd (printf_text fmt args) (\<lambda>r. Ret (char_of (nat (x mod 256)) # r)) | _ \<Rightarrow> Undef)
          else if d = CHR ''%'' then bnd (printf_text fmt args) (\<lambda>r. Ret (CHR ''%'' # r))
          else bnd (printf_text fmt args) (\<lambda>r. Ret (CHR ''%'' # d # r))))"

text \<open>\<open>putc\<close> is one \<open>write\<close> of one byte.\<close>

definition putc :: "int \<Rightarrow> char \<Rightarrow> unit uprog" where
  "putc fd c = Sys (Write fd [c]) (\<lambda>_. Return ())"

primrec puts_u :: "int \<Rightarrow> string \<Rightarrow> unit uprog" where
  "puts_u fd [] = Return ()"
| "puts_u fd (c # t) = useq (putc fd c) (puts_u fd t)"

definition printf :: "int \<Rightarrow> string \<Rightarrow> fmt_arg list \<Rightarrow> unit uprog" where
  "printf fd fmt args = ubnd (lift_res (printf_text fmt args)) (puts_u fd)"

section \<open>Listing processes\<close>

primrec ps_rows :: "upstat list \<Rightarrow> unit uprog" where
  "ps_rows [] = Return ()"
| "ps_rows (e # es) =
     useq (if up_inuse e
           then printf 1 (''%d'' @ [CHR 0x09] @ ''%d'' @ [CHR 0x09] @ ''%d'' @ [CHR 0x09] @ ''%c'' @ [CHR 0x09] @ ''%s'' @ [CHR 0x0A])
                  [AInt (up_pid e), AInt (up_tickets e), AInt (up_ticks e), AInt (char_int (up_state e)), AStr (Some (up_name e))]
           else Return ())
       (ps_rows es)"

definition ps :: "unit uprog" where
  "ps = Sys Getpinfo (\<lambda>a.
     useq (printf 1 (''PID'' @ [CHR 0x09] @ ''TKTS'' @ [CHR 0x09] @ ''TCKS'' @ [CHR 0x09] @ ''STAT'' @ [CHR 0x09] @ ''NAME'' @ [CHR 0x0A]) [])
       (ps_rows (r_pstat a)))"

section \<open>Running a program on given input\<close>

text \<open>How a program ends, and its run when successive \<open>read\<close>s deliver the given pieces of input and
  then end of file, every \<open>write\<close> succeeds, and other calls return 0: the standard output and the input left.\<close>

datatype 'a ending = EndReturn 'a | EndExit | EndUndef | EndFuel

definition reply :: "int \<Rightarrow> string \<Rightarrow> rep" where
  "reply v d = \<lparr>r_val = v, r_data = d, r_fds = (0, 0), r_stat = \<lparr>us_type = 0, us_ino = 0, us_size = 0\<rparr>, r_pstat = []\<rparr>"

primrec run_io :: "'a uprog \<Rightarrow> string list \<Rightarrow> string \<Rightarrow> 'a ending \<times> string \<times> string list" where
  "run_io (Return x) ins out = (EndReturn x, out, ins)"
| "run_io ExitU ins out = (EndExit, out, ins)"
| "run_io UndefU ins out = (EndUndef, out, ins)"
| "run_io Fuel ins out = (EndFuel, out, ins)"
| "run_io (ForkU k) ins out = run_io (k 1) ins out"
| "run_io (Sys r k) ins out =
     (case r of
        Read fd n \<Rightarrow> (case ins of [] \<Rightarrow> run_io (k (reply 0 [])) [] out
                      | d # ds \<Rightarrow> run_io (k (reply (int (length d)) d)) ds out)
      | Write fd t \<Rightarrow> run_io (k (reply (int (length t)) [])) ins (if fd = 1 then out @ t else out)
      | _ \<Rightarrow> run_io (k (reply 0 [])) ins out)"

lemma reply_simps [simp]: "r_val (reply v d) = v" "r_data (reply v d) = d"
  by (simp_all add: reply_def)

text \<open>Sequencing, when the first program returns.\<close>

lemma run_io_ubnd:
  "run_io p ins out = (EndReturn x, out', ins') \<Longrightarrow> run_io (ubnd p f) ins out = run_io (f x) ins' out'"
  by (induction p arbitrary: ins out) (auto split: req.splits list.splits if_splits)

lemma run_io_puts: "run_io (puts_u 1 t) ins out = (EndReturn (), out @ t, ins)"
  by (induction t arbitrary: out) (simp_all add: putc_def)

lemma run_io_puts_err: "fd \<noteq> 1 \<Longrightarrow> run_io (puts_u fd t) ins out = (EndReturn (), out, ins)"
  by (induction t arbitrary: out) (simp_all add: putc_def)

lemma run_io_printf:
  "printf_text fmt args = Ret t \<Longrightarrow> run_io (printf 1 fmt args) ins out = (EndReturn (), out @ t, ins)"
  by (simp add: printf_def lift_res_def run_io_puts)

end
