(* ===== verification/Grep.thy ===== *)
theory Grep
  imports Ulib
begin

text \<open>
  \<open>grep.c\<close>: the matcher of Kernighan and Pike, and the loop over the lines of a file.
\<close>

section \<open>The matcher\<close>

function (sequential) matchhere :: "string \<Rightarrow> string \<Rightarrow> bool"
  and matchstar :: "char \<Rightarrow> string \<Rightarrow> string \<Rightarrow> bool" where
  "matchhere [] tx = True"
| "matchhere (c # re) tx =
     (if re \<noteq> [] \<and> hd re = CHR ''*'' then matchstar c (tl re) tx
      else if c = CHR ''$'' \<and> re = [] then tx = []
      else if tx \<noteq> [] \<and> (c = CHR ''.'' \<or> c = hd tx) then matchhere re (tl tx)
      else False)"
| "matchstar c re tx =
     (if matchhere re tx then True
      else if tx \<noteq> [] \<and> (hd tx = c \<or> c = CHR ''.'') then matchstar c re (tl tx)
      else False)"
  by pat_completeness auto
termination
  by (relation "measure (\<lambda>x. case x of Inl (re, tx) \<Rightarrow> 2 * length re + length tx
        | Inr (c, re, tx) \<Rightarrow> Suc (2 * length re + length tx))")
    (auto simp: neq_Nil_conv)

declare matchhere.simps(2) [simp del] matchstar.simps [simp del]

primrec match_loop :: "string \<Rightarrow> string \<Rightarrow> bool" where
  "match_loop re [] = matchhere re []"
| "match_loop re (c # tx) = (if matchhere re (c # tx) then True else match_loop re tx)"

definition match :: "string \<Rightarrow> string \<Rightarrow> bool" where
  "match re tx = (if re \<noteq> [] \<and> hd re = CHR ''^'' then matchhere (tl re) tx else match_loop re tx)"

section \<open>The loop over lines\<close>

definition newline :: char where "newline = CHR 0x0A"

text \<open>The inner loop on the characters from \<open>p\<close> to the end of the buffer: each complete line is matched
  and written. \<open>strchr\<close> stops at a NUL. The result is what is left from the last value of \<open>p\<close>, and
  whether \<open>p\<close> has moved.\<close>

function grep_lines :: "string \<Rightarrow> string \<Rightarrow> bool \<Rightarrow> (string \<times> bool) uprog" where
  "grep_lines pattern p moved =
     (case strchr (takeWhile (\<lambda>c. c \<noteq> CHR 0x00) p) newline of
        None \<Rightarrow> Return (p, moved)
      | Some q \<Rightarrow>
          useq (if match pattern (take q p) then Sys (Write 1 (take (q + 1) p)) (\<lambda>_. Return ()) else Return ())
            (grep_lines pattern (drop (q + 1) p) True))"
  by pat_completeness auto
termination
proof (relation "measure (\<lambda>(_, p, _). length p)")
  fix pattern p :: string and moved q
  assume "strchr (takeWhile (\<lambda>c. c \<noteq> CHR 0x00) p) newline = Some q"
  then have "p \<noteq> []" by (auto simp: strchr_def)
  then show "((pattern, drop (q + 1) p, True), pattern, p, moved) \<in> measure (\<lambda>(_, p, _). length p)" by simp
qed simp

declare grep_lines.simps [simp del]

text \<open>The outer loop, at most \<open>fuel\<close> rounds, with the \<open>m\<close> characters \<open>pend\<close> at the start of the buffer
  of 1024.\<close>

primrec grep :: "nat \<Rightarrow> string \<Rightarrow> int \<Rightarrow> string \<Rightarrow> unit uprog" where
  "grep 0 pattern fd pend = Fuel"
| "grep (Suc fuel) pattern fd pend =
     Sys (Read fd (1024 - length pend - 1)) (\<lambda>a.
       if r_val a \<le> 0 then Return ()
       else if length (r_data a) \<noteq> nat (r_val a) \<or> nat (r_val a) > 1024 - length pend - 1 then UndefU
       else ubnd (grep_lines pattern (pend @ r_data a) False) (\<lambda>(p, moved).
            grep fuel pattern fd (if moved then p else [])))"

primrec grep_files :: "nat \<Rightarrow> string \<Rightarrow> string list \<Rightarrow> unit uprog" where
  "grep_files fuel pattern [] = ExitU"
| "grep_files fuel pattern (f # fs) =
     ubnd (syscall_u (Open f 0)) (\<lambda>fd.
     if fd < 0 then useq (printf 1 (''grep: cannot open %s'' @ [newline]) [AStr (Some f)]) ExitU
     else useq (grep fuel pattern fd []) (useq (syscall_u (Close fd)) (grep_files fuel pattern fs)))"

definition grep_main :: "nat \<Rightarrow> string list \<Rightarrow> unit uprog" where
  "grep_main fuel argv =
     (if length argv \<le> 1 then useq (printf 2 (''usage: grep pattern [file ...]'' @ [newline]) []) ExitU
      else if length argv \<le> 2 then useq (grep fuel (argv ! 1) 0 []) ExitU
      else grep_files fuel (argv ! 1) (drop 2 argv))"

section \<open>What a pattern means\<close>

datatype atom = Lit char | AnyC
datatype item = One atom | Many atom

definition atom_of :: "char \<Rightarrow> atom" where
  "atom_of c = (if c = CHR ''.'' then AnyC else Lit c)"

primrec atom_matches :: "atom \<Rightarrow> char \<Rightarrow> bool" where
  "atom_matches (Lit c) x = (x = c)"
| "atom_matches AnyC x = True"

text \<open>The items of a pattern, and whether it ends in \<open>$\<close>.\<close>

function parse_re :: "string \<Rightarrow> item list \<times> bool" where
  "parse_re [] = ([], False)"
| "parse_re (c # re) =
     (if re \<noteq> [] \<and> hd re = CHR ''*'' then (let (is, e) = parse_re (tl re) in (Many (atom_of c) # is, e))
      else if c = CHR ''$'' \<and> re = [] then ([], True)
      else (let (is, e) = parse_re re in (One (atom_of c) # is, e)))"
  by pat_completeness auto
termination by (relation "measure length") (auto simp: neq_Nil_conv)

text \<open>The strings a list of items denotes.\<close>

inductive denotes :: "item list \<Rightarrow> string \<Rightarrow> bool" where
  nil: "denotes [] []"
| one: "atom_matches a x \<Longrightarrow> denotes is u \<Longrightarrow> denotes (One a # is) (x # u)"
| many_none: "denotes is u \<Longrightarrow> denotes (Many a # is) u"
| many_more: "atom_matches a x \<Longrightarrow> denotes (Many a # is) u \<Longrightarrow> denotes (Many a # is) (x # u)"

inductive_cases denotes_nilE: "denotes [] u"
inductive_cases denotes_oneE: "denotes (One a # is) u"
inductive_cases denotes_manyE: "denotes (Many a # is) u"

lemma denotes_many_iff:
  "denotes (Many a # is) u \<longleftrightarrow> denotes is u \<or> (\<exists>x v. u = x # v \<and> atom_matches a x \<and> denotes (Many a # is) v)"
  by (auto intro: denotes.intros elim: denotes_manyE)

definition starts :: "item list \<times> bool \<Rightarrow> string \<Rightarrow> bool" where
  "starts r tx \<longleftrightarrow> (\<exists>u v. tx = u @ v \<and> denotes (fst r) u \<and> (snd r \<longrightarrow> v = []))"

lemma starts_one: "starts (One a # is, e) tx \<longleftrightarrow> (\<exists>x v. tx = x # v \<and> atom_matches a x \<and> starts (is, e) v)"
proof
  assume "starts (One a # is, e) tx"
  then obtain u v where uv: "tx = u @ v" "denotes (One a # is) u" "e \<longrightarrow> v = []" unfolding starts_def fst_conv snd_conv by blast
  from uv(2) obtain x w where "u = x # w" "atom_matches a x" "denotes is w" by (rule denotes_oneE)
  with uv(1,3) show "\<exists>x v. tx = x # v \<and> atom_matches a x \<and> starts (is, e) v"
    unfolding starts_def fst_conv snd_conv by (metis append_Cons)
next
  assume "\<exists>x v. tx = x # v \<and> atom_matches a x \<and> starts (is, e) v"
  then obtain x u v where "tx = x # u @ v" "atom_matches a x" "denotes is u" "e \<longrightarrow> v = []" by (auto simp: starts_def)
  then have "tx = (x # u) @ v \<and> denotes (One a # is) (x # u) \<and> (e \<longrightarrow> v = [])" by (simp add: denotes.one)
  then show "starts (One a # is, e) tx" unfolding starts_def fst_conv snd_conv by blast
qed

lemma starts_many:
  "starts (Many a # is, e) tx \<longleftrightarrow>
     starts (is, e) tx \<or> (\<exists>x v. tx = x # v \<and> atom_matches a x \<and> starts (Many a # is, e) v)"
proof
  assume "starts (Many a # is, e) tx"
  then obtain u v where uv: "tx = u @ v" "denotes (Many a # is) u" "e \<longrightarrow> v = []" unfolding starts_def fst_conv snd_conv by blast
  from uv(2) consider "denotes is u" | x w where "u = x # w" "atom_matches a x" "denotes (Many a # is) w"
    unfolding denotes_many_iff [of a "is" u] by blast
  then show "starts (is, e) tx \<or> (\<exists>x v. tx = x # v \<and> atom_matches a x \<and> starts (Many a # is, e) v)"
    by cases (use uv(1,3) in \<open>unfold starts_def fst_conv snd_conv, blast, metis append_Cons\<close>)
next
  assume "starts (is, e) tx \<or> (\<exists>x v. tx = x # v \<and> atom_matches a x \<and> starts (Many a # is, e) v)"
  then consider u v where "tx = u @ v" "denotes is u" "e \<longrightarrow> v = []"
    | x u v where "tx = x # u @ v" "atom_matches a x" "denotes (Many a # is) u" "e \<longrightarrow> v = []"
    unfolding starts_def fst_conv snd_conv by blast
  then show "starts (Many a # is, e) tx"
  proof cases
    case 1
    then show ?thesis unfolding starts_def by (auto intro: denotes.many_none)
  next
    case (2 x u v)
    then have "tx = (x # u) @ v \<and> denotes (Many a # is) (x # u) \<and> (e \<longrightarrow> v = [])" by (simp add: denotes.many_more)
    then show ?thesis unfolding starts_def fst_conv snd_conv by blast
  qed
qed

lemma atom_matches_of: "atom_matches (atom_of c) x \<longleftrightarrow> c = CHR ''.'' \<or> c = x"
  by (auto simp: atom_of_def)

lemma matchhere_starts:
  "matchhere re tx \<longleftrightarrow> starts (parse_re re) tx"
  "matchstar c re tx \<longleftrightarrow> starts (Many (atom_of c) # fst (parse_re re), snd (parse_re re)) tx"
proof (induction re tx and c re tx rule: matchhere_matchstar.induct)
  case (1 tx)
  then show ?case by (auto simp: starts_def intro: denotes.nil elim: denotes_nilE)
next
  case (2 c re tx)
  consider (star) "re \<noteq> []" "hd re = CHR ''*''" | (eol) "c = CHR ''$''" "re = []"
    | (one) "\<not> (re \<noteq> [] \<and> hd re = CHR ''*'')" "\<not> (c = CHR ''$'' \<and> re = [])" by blast
  then show ?case
  proof cases
    case star
    then have "parse_re (c # re) = (Many (atom_of c) # fst (parse_re (tl re)), snd (parse_re (tl re)))"
      by (simp add: split_def Let_def)
    with star 2(1) show ?thesis by (simp add: matchhere.simps(2))
  next
    case eol
    then show ?thesis by (auto simp: matchhere.simps(2) starts_def intro: denotes.nil elim: denotes_nilE)
  next
    case one
    then have p: "parse_re (c # re) = (One (atom_of c) # fst (parse_re re), snd (parse_re re))"
      by (auto simp: split_def Let_def)
    show ?thesis
      unfolding p starts_one matchhere.simps(2) using one 2(2) [OF one] by (cases tx) (auto simp: atom_matches_of)
  qed
next
  case (3 c re tx)
  show ?case
    by (subst starts_many, subst matchstar.simps) (use 3 in \<open>cases tx; auto simp: atom_matches_of\<close>)
qed

text \<open>A pattern matches a line: at its start when the pattern begins with \<open>^\<close>, anywhere otherwise.\<close>

definition matches :: "string \<Rightarrow> string \<Rightarrow> bool" where
  "matches re tx \<longleftrightarrow>
     (if re \<noteq> [] \<and> hd re = CHR ''^'' then starts (parse_re (tl re)) tx
      else (\<exists>u v. tx = u @ v \<and> starts (parse_re re) v))"

lemma match_loop_iff: "match_loop re tx \<longleftrightarrow> (\<exists>u v. tx = u @ v \<and> matchhere re v)"
proof (induction tx)
  case (Cons c tx)
  have "(\<exists>u v. c # tx = u @ v \<and> matchhere re v) \<longleftrightarrow> matchhere re (c # tx) \<or> (\<exists>u v. tx = u @ v \<and> matchhere re v)"
    by (metis append_Cons append_Nil append_eq_Cons_conv)
  with Cons show ?case by simp
qed simp

lemma match_matches: "match re tx = matches re tx"
  by (simp add: match_def matches_def match_loop_iff matchhere_starts)

text \<open>C27. \<open>match\<close> decides the regular expressions it is meant for: with \<open>c\<close>, \<open>.\<close>, \<open>c*\<close>, \<open>.*\<close>, a leading
  \<open>^\<close> and a trailing \<open>$\<close> read as items of a pattern, it accepts a line exactly when the line has a part,
  at the position the anchors allow, that is in the language of the pattern.\<close>

theorem match_correct: "match re tx = matches re tx"
  by (rule match_matches)

section \<open>The lines of a file\<close>

lemma after_newline_shorter [termination_simp]:
  "newline \<in> set s \<Longrightarrow> length (dropWhile (\<lambda>c. c \<noteq> newline) s) - Suc 0 < length s"
  using length_dropWhile_le [of "\<lambda>c. c \<noteq> newline" s] by (cases s) auto

fun complete_lines :: "string \<Rightarrow> string list" where
  "complete_lines s = (if newline \<in> set s
     then takeWhile (\<lambda>c. c \<noteq> newline) s # complete_lines (tl (dropWhile (\<lambda>c. c \<noteq> newline) s)) else [])"

fun rest_line :: "string \<Rightarrow> string" where
  "rest_line s = (if newline \<in> set s then rest_line (tl (dropWhile (\<lambda>c. c \<noteq> newline) s)) else s)"

declare complete_lines.simps [simp del] rest_line.simps [simp del]

lemma find_newline:
  "find_idx (\<lambda>x. x = c) s =
     (if c \<in> set s then Some (length (takeWhile (\<lambda>x. x \<noteq> c) s)) else None)"
  by (induction s) auto

lemma drop_newline: "drop (Suc (length (takeWhile P s))) s = tl (dropWhile P s)"
  by (induction s) auto

lemma complete_lines_append: "complete_lines (p @ t) = complete_lines p @ complete_lines (rest_line p @ t)"
proof (induction p rule: complete_lines.induct)
  case (1 p)
  show ?case
  proof (cases "newline \<in> set p")
    case True
    then obtain u v where p: "p = u @ newline # v" "newline \<notin> set u" by (meson split_list_first)
    then have d: "dropWhile (\<lambda>c. c \<noteq> newline) p = newline # v" "takeWhile (\<lambda>c. c \<noteq> newline) p = u"
      "dropWhile (\<lambda>c. c \<noteq> newline) (p @ t) = newline # v @ t" "takeWhile (\<lambda>c. c \<noteq> newline) (p @ t) = u"
      by (auto simp: dropWhile_append takeWhile_append)
    have "complete_lines (p @ t) = u # complete_lines (v @ t)"
      using True d by (subst complete_lines.simps) simp
    moreover have "complete_lines p = u # complete_lines v" "rest_line p = rest_line v"
      using True d by (simp_all add: complete_lines.simps [of p] rest_line.simps [of p])
    ultimately show ?thesis using 1 [OF True] d(1) by simp
  qed (simp add: complete_lines.simps [of p] rest_line.simps [of p])
qed

text \<open>What \<open>grep\<close> prints for the lines of a text.\<close>

definition grep_output :: "string \<Rightarrow> string \<Rightarrow> string" where
  "grep_output pattern s = concat (map (\<lambda>l. l @ [newline]) (filter (matches pattern) (complete_lines s)))"

lemma run_grep_lines:
  assumes "CHR 0x00 \<notin> set p"
  shows "run_io (grep_lines pattern p moved) ins out =
    (EndReturn (rest_line p, moved \<or> newline \<in> set p), out @ grep_output pattern p, ins)"
  using assms
proof (induction pattern p moved arbitrary: out rule: grep_lines.induct)
  case (1 pattern p moved)
  have n: "takeWhile (\<lambda>c. c \<noteq> CHR 0x00) p = p" using 1(2) by (auto simp: takeWhile_eq_all_conv)
  show ?case
  proof (cases "newline \<in> set p")
    case False
    have "strchr (takeWhile (\<lambda>c. c \<noteq> CHR 0x00) p) newline = None"
      unfolding n using False by (simp add: strchr_def find_newline)
    with False show ?thesis
      by (subst grep_lines.simps) (simp add: rest_line.simps [of p] complete_lines.simps [of p] grep_output_def)
  next
    case True
    then obtain u v where p: "p = u @ newline # v" "newline \<notin> set u" by (meson split_list_first)
    have q: "strchr (takeWhile (\<lambda>c. c \<noteq> CHR 0x00) p) newline = Some (length u)"
      using n p by (simp add: strchr_def find_newline takeWhile_append)
    have d: "dropWhile (\<lambda>c. c \<noteq> newline) p = newline # v" "takeWhile (\<lambda>c. c \<noteq> newline) p = u"
      "take (length u) p = u" "take (Suc (length u)) p = u @ [newline]" "drop (Suc (length u)) p = v"
      using p by (auto simp: dropWhile_append takeWhile_append)
    have c: "complete_lines p = u # complete_lines v" "rest_line p = rest_line v"
      using True d by (simp_all add: complete_lines.simps [of p] rest_line.simps [of p])
    have v0: "CHR 0x00 \<notin> set v" using 1(2) p by auto
    note IH = 1(1) [OF q, unfolded Suc_eq_plus1 [symmetric] d, OF v0]
    show ?thesis
      using q IH True by (subst grep_lines.simps) (auto simp: d c grep_output_def match_matches run_io_ubnd)
  qed
qed

text \<open>Reads that each complete at least one line.\<close>

primrec line_chunks :: "string \<Rightarrow> string list \<Rightarrow> bool" where
  "line_chunks pend [] = True"
| "line_chunks pend (d # ds) =
     (newline \<in> set d \<and> CHR 0x00 \<notin> set d \<and> length pend + length d < 1024 \<and> line_chunks (rest_line (pend @ d)) ds)"

lemma set_rest_line: "set (rest_line p) \<subseteq> set p"
proof (induction p rule: rest_line.induct)
  case (1 p)
  show ?case
  proof (cases "newline \<in> set p")
    case True
    have "set (tl (dropWhile (\<lambda>c. c \<noteq> newline) p)) \<subseteq> set p"
      by (metis (full_types) dropWhile_eq_drop order_trans set_drop_subset tl_drop drop_Suc)
    with 1 [OF True] True show ?thesis by (subst rest_line.simps) auto
  qed (simp add: rest_line.simps [of p])
qed

lemma rest_line_no_newline: "newline \<notin> set (rest_line p)"
  by (induction p rule: rest_line.induct) (subst rest_line.simps, auto)

lemma run_grep:
  assumes "line_chunks pend ds" and "CHR 0x00 \<notin> set pend" and "newline \<notin> set pend" and "length ds < fuel"
  shows "run_io (grep fuel pattern fd pend) ds out = (EndReturn (), out @ grep_output pattern (pend @ concat ds), [])"
  using assms
proof (induction ds arbitrary: pend fuel out)
  case Nil
  then obtain f where f: "fuel = Suc f" by (cases fuel) auto
  then show ?case using Nil.prems by (simp add: grep_output_def complete_lines.simps [of pend])
next
  case (Cons d ds)
  then obtain f where f: "fuel = Suc f" by (cases fuel) auto
  let ?p = "pend @ d"
  have z: "CHR 0x00 \<notin> set ?p" "newline \<in> set ?p" "d \<noteq> []" using Cons.prems by auto
  have r: "newline \<notin> set (rest_line ?p)" "CHR 0x00 \<notin> set (rest_line ?p)"
    using rest_line_no_newline set_rest_line [of ?p] z(1) by auto
  have IH: "run_io (grep f pattern fd (rest_line ?p)) ds out' =
      (EndReturn (), out' @ grep_output pattern (rest_line ?p @ concat ds), [])" for out'
    using Cons.IH [of "rest_line ?p" f out'] Cons.prems r f by simp
  have "grep_output pattern (pend @ concat (d # ds)) = grep_output pattern ?p @ grep_output pattern (rest_line ?p @ concat ds)"
    using complete_lines_append [of ?p "concat ds"] by (simp add: grep_output_def)
  moreover have "\<not> 1024 - length pend - 1 < length d" using Cons.prems by auto
  moreover have "run_io (ubnd (grep_lines pattern ?p False) (\<lambda>(p, moved). grep f pattern fd (if moved then p else []))) ds out =
      run_io (grep f pattern fd (rest_line ?p)) ds (out @ grep_output pattern ?p)"
    by (subst run_io_ubnd [OF run_grep_lines [OF z(1)]]) (use z(2) in simp)
  ultimately show ?case using z(3) f IH by simp
qed

text \<open>C28. \<open>grep\<close> prints the matching lines: on any input that arrives in pieces of which each completes at least
  one line, contains no NUL and fits the buffer, the program ends and its output is the complete
  lines of the whole input that match the pattern, in order, however the input is split.\<close>

theorem grep_correct:
  assumes "line_chunks [] ds" and "length ds < fuel"
  shows "run_io (grep fuel pattern fd []) ds [] = (EndReturn (), grep_output pattern (concat ds), [])"
  using run_grep [OF assms(1) _ _ assms(2)] by simp

theorem grep_correct_witness:
  "run_io (grep 3 ''^c.e$'' 0 []) [''ab'' @ [newline] @ ''cd'', ''e'' @ [newline]] [] = (EndReturn (), ''cde'' @ [newline], [])"
proof -
  let ?ds = "[''ab'' @ [newline] @ ''cd'', ''e'' @ [newline]]"
  have "line_chunks [] ?ds" by code_simp
  moreover have "grep_output ''^c.e$'' (concat ?ds) = ''cde'' @ [newline]"
    unfolding grep_output_def match_matches [symmetric] by code_simp
  ultimately show ?thesis using grep_correct [of ?ds 3 "''^c.e$''" 0] by simp
qed

text \<open>The condition on the pieces is needed: a line of which the first read delivers only the beginning is
  lost, because \<open>p == buf\<close> is taken to mean that the line does not fit the buffer.\<close>

lemma grep_drops_split_line:
  "run_io (grep 3 ''abc'' 0 []) [''ab'', ''c'' @ [newline]] [] = (EndReturn (), [], [])"
  by code_simp

end
