(* ===== verification/Utils.thy ===== *)
theory Utils
  imports Ulib
begin

text \<open>
  The small user programs: \<open>cat\<close>, \<open>wc\<close>, \<open>echo\<close>, \<open>ls\<close>, \<open>kill\<close>, \<open>ln\<close>, \<open>mkdir\<close>, \<open>rm\<close>, \<open>ps\<close>, \<open>init\<close>,
  \<open>zombie\<close>, \<open>forktest\<close>, \<open>stressfs\<close> and \<open>tickettest\<close>. \<open>argv\<close> is a list of strings; \<open>main\<close> of each
  program carries its name.
\<close>

definition nl :: string where "nl = [CHR 0x0A]"

section \<open>cat\<close>

primrec cat :: "nat \<Rightarrow> int \<Rightarrow> unit uprog" where
  "cat 0 fd = Fuel"
| "cat (Suc fuel) fd =
     Sys (Read fd 512) (\<lambda>a.
       if r_val a > 0
       then ubnd (syscall_u (Write 1 (take (nat (r_val a)) (r_data a)))) (\<lambda>w.
            if w \<noteq> r_val a then useq (printf 1 (''cat: write error'' @ nl) []) ExitU else cat fuel fd)
       else if r_val a < 0 then useq (printf 1 (''cat: read error'' @ nl) []) ExitU
       else Return ())"

primrec cat_files :: "nat \<Rightarrow> string list \<Rightarrow> unit uprog" where
  "cat_files fuel [] = ExitU"
| "cat_files fuel (f # fs) =
     ubnd (syscall_u (Open f 0)) (\<lambda>fd.
     if fd < 0 then useq (printf 1 (''cat: cannot open %s'' @ nl) [AStr (Some f)]) ExitU
     else useq (cat fuel fd) (useq (syscall_u (Close fd)) (cat_files fuel fs)))"

definition cat_main :: "nat \<Rightarrow> string list \<Rightarrow> unit uprog" where
  "cat_main fuel argv = (if length argv \<le> 1 then useq (cat fuel 0) ExitU else cat_files fuel (tl argv))"

section \<open>wc\<close>

record wc_state =
  wc_l :: int
  wc_w :: int
  wc_c :: int
  wc_inword :: bool

definition wc_space :: string where "wc_space = '' '' @ [CHR 0x0D, CHR 0x09, CHR 0x0A, CHR 0x0B]"

definition wc_char :: "char \<Rightarrow> wc_state \<Rightarrow> wc_state" where
  "wc_char x st =
     (let st = st\<lparr>wc_c := wc_c st + 1\<rparr>;
          st = (if x = CHR 0x0A then st\<lparr>wc_l := wc_l st + 1\<rparr> else st)
      in if strchr wc_space x \<noteq> None then st\<lparr>wc_inword := False\<rparr>
         else if \<not> wc_inword st then st\<lparr>wc_w := wc_w st + 1, wc_inword := True\<rparr>
         else st)"

text \<open>The counters are \<open>int\<close>s; \<open>c\<close> is the largest of them, and overflows beyond \<open>2^31 - 1\<close> bytes.\<close>

primrec wc :: "nat \<Rightarrow> int \<Rightarrow> string \<Rightarrow> wc_state \<Rightarrow> unit uprog" where
  "wc 0 fd name st = Fuel"
| "wc (Suc fuel) fd name st =
     Sys (Read fd 512) (\<lambda>a.
       if r_val a > 0
       then (let st = fold wc_char (take (nat (r_val a)) (r_data a)) st
             in if wc_c st \<ge> 2 ^ 31 then UndefU else wc fuel fd name st)
       else if r_val a < 0 then useq (printf 1 (''wc: read error'' @ nl) []) ExitU
       else printf 1 (''%d %d %d %s'' @ nl) [AInt (wc_l st), AInt (wc_w st), AInt (wc_c st), AStr (Some name)])"

definition wc_init :: wc_state where
  "wc_init = \<lparr>wc_l = 0, wc_w = 0, wc_c = 0, wc_inword = False\<rparr>"

primrec wc_files :: "nat \<Rightarrow> string list \<Rightarrow> unit uprog" where
  "wc_files fuel [] = ExitU"
| "wc_files fuel (f # fs) =
     ubnd (syscall_u (Open f 0)) (\<lambda>fd.
     if fd < 0 then useq (printf 1 (''wc: cannot open %s'' @ nl) [AStr (Some f)]) ExitU
     else useq (wc fuel fd f wc_init) (useq (syscall_u (Close fd)) (wc_files fuel fs)))"

definition wc_main :: "nat \<Rightarrow> string list \<Rightarrow> unit uprog" where
  "wc_main fuel argv = (if length argv \<le> 1 then useq (wc fuel 0 [] wc_init) ExitU else wc_files fuel (tl argv))"

section \<open>echo\<close>

fun echo_args :: "string list \<Rightarrow> unit uprog" where
  "echo_args [] = ExitU"
| "echo_args [a] = useq (printf 1 ''%s%s'' [AStr (Some a), AStr (Some nl)]) ExitU"
| "echo_args (a # b # as) = useq (printf 1 ''%s%s'' [AStr (Some a), AStr (Some '' '')]) (echo_args (b # as))"

definition echo_main :: "string list \<Rightarrow> unit uprog" where
  "echo_main argv = echo_args (tl argv)"

section \<open>ls\<close>

text \<open>\<open>DIRSIZ\<close> is 14.\<close>

definition fmtname :: "string \<Rightarrow> string" where
  "fmtname path =
     (let p = rev (takeWhile (\<lambda>c. c \<noteq> CHR ''/'') (rev path))
      in if length p \<ge> 14 then p else p @ replicate (14 - length p) (CHR '' ''))"

definition ls_row :: "string \<Rightarrow> ustat \<Rightarrow> unit uprog" where
  "ls_row name st = printf 1 (''%s %d %d %d'' @ nl)
     [AStr (Some (fmtname name)), AInt (us_type st), AInt (us_ino st), AInt (us_size st)]"

text \<open>The 16 bytes of a \<open>struct dirent\<close> as \<open>read\<close> stores them: the number of the inode and the name.\<close>

definition de_inum_of :: "string \<Rightarrow> nat" where
  "de_inum_of d = of_char (d ! 0) + 256 * of_char (d ! 1)"

definition de_name_of :: "string \<Rightarrow> string" where
  "de_name_of d = takeWhile (\<lambda>c. c \<noteq> CHR 0x00) (take 14 (drop 2 d))"

primrec ls_entries :: "nat \<Rightarrow> string \<Rightarrow> int \<Rightarrow> unit uprog" where
  "ls_entries 0 path fd = Fuel"
| "ls_entries (Suc fuel) path fd =
     Sys (Read fd 16) (\<lambda>a.
       if r_val a \<noteq> 16 then Return ()
       else if length (r_data a) \<noteq> 16 then UndefU
       else if de_inum_of (r_data a) = 0 then ls_entries fuel path fd
       else (let buf = path @ ''/'' @ de_name_of (r_data a)
             in ubnd (stat_u buf) (\<lambda>(r, st).
                useq (if r < 0 then printf 1 (''ls: cannot stat %s'' @ nl) [AStr (Some buf)] else ls_row buf st)
                  (ls_entries fuel path fd))))"

definition ls :: "nat \<Rightarrow> string \<Rightarrow> unit uprog" where
  "ls fuel path =
     ubnd (syscall_u (Open path 0)) (\<lambda>fd.
     if fd < 0 then printf 2 (''ls: cannot open %s'' @ nl) [AStr (Some path)]
     else Sys (Fstat fd) (\<lambda>a.
       if r_val a < 0
       then useq (printf 2 (''ls: cannot stat %s'' @ nl) [AStr (Some path)]) (useq (syscall_u (Close fd)) (Return ()))
       else useq (if us_type (r_stat a) = 2 then ls_row path (r_stat a)
                  else if us_type (r_stat a) = 1
                  then (if length path + 1 + 14 + 1 > 512 then printf 1 (''ls: path too long'' @ nl) []
                        else ls_entries fuel path fd)
                  else Return ())
              (useq (syscall_u (Close fd)) (Return ()))))"

primrec ls_all :: "nat \<Rightarrow> string list \<Rightarrow> unit uprog" where
  "ls_all fuel [] = ExitU"
| "ls_all fuel (p # rest) = useq (ls fuel p) (ls_all fuel rest)"

definition ls_main :: "nat \<Rightarrow> string list \<Rightarrow> unit uprog" where
  "ls_main fuel argv = (if length argv < 2 then useq (ls fuel ''.'') ExitU else ls_all fuel (tl argv))"

section \<open>kill, ln, mkdir, rm, ps\<close>

primrec kill_all :: "string list \<Rightarrow> unit uprog" where
  "kill_all [] = ExitU"
| "kill_all (a # as) = ubnd (lift_res (atoi a)) (\<lambda>pid. useq (syscall_u (Kill pid)) (kill_all as))"

definition kill_main :: "string list \<Rightarrow> unit uprog" where
  "kill_main argv = (if length argv < 2 then useq (printf 2 (''usage: kill pid...'' @ nl) []) ExitU else kill_all (tl argv))"

definition ln_main :: "string list \<Rightarrow> unit uprog" where
  "ln_main argv =
     (if length argv \<noteq> 3 then useq (printf 2 (''Usage: ln old new'' @ nl) []) ExitU
      else ubnd (syscall_u (Link (argv ! 1) (argv ! 2))) (\<lambda>r.
           useq (if r < 0 then printf 2 (''link %s %s: failed'' @ nl) [AStr (Some (argv ! 1)), AStr (Some (argv ! 2))] else Return ())
             ExitU))"

primrec mkdir_all :: "string list \<Rightarrow> unit uprog" where
  "mkdir_all [] = ExitU"
| "mkdir_all (d # ds) =
     ubnd (syscall_u (Mkdir d)) (\<lambda>r.
     if r < 0 then useq (printf 2 (''mkdir: %s failed to create'' @ nl) [AStr (Some d)]) ExitU else mkdir_all ds)"

definition mkdir_main :: "string list \<Rightarrow> unit uprog" where
  "mkdir_main argv = (if length argv < 2 then useq (printf 2 (''Usage: mkdir files...'' @ nl) []) ExitU else mkdir_all (tl argv))"

primrec rm_all :: "string list \<Rightarrow> unit uprog" where
  "rm_all [] = ExitU"
| "rm_all (f # fs) =
     ubnd (syscall_u (Unlink f)) (\<lambda>r.
     if r < 0 then useq (printf 2 (''rm: %s failed to delete'' @ nl) [AStr (Some f)]) ExitU else rm_all fs)"

definition rm_main :: "string list \<Rightarrow> unit uprog" where
  "rm_main argv = (if length argv < 2 then useq (printf 2 (''Usage: rm files...'' @ nl) []) ExitU else rm_all (tl argv))"

definition ps_main :: "unit uprog" where
  "ps_main = useq ps ExitU"

section \<open>init, zombie\<close>

text \<open>The loop \<open>while((wpid=wait()) >= 0 && wpid != pid)\<close>.\<close>

primrec init_wait :: "nat \<Rightarrow> int \<Rightarrow> unit uprog" where
  "init_wait 0 pid = Fuel"
| "init_wait (Suc fuel) pid =
     ubnd (syscall_u Wait) (\<lambda>wpid.
     if wpid \<ge> 0 \<and> wpid \<noteq> pid then useq (printf 1 (''zombie!'' @ nl) []) (init_wait fuel pid) else Return ())"

primrec init_loop :: "nat \<Rightarrow> unit uprog" where
  "init_loop 0 = Fuel"
| "init_loop (Suc fuel) =
     useq (printf 1 (''init: starting sh'' @ nl) [])
       (ubnd fork_u (\<lambda>pid.
        if pid < 0 then useq (printf 1 (''init: fork failed'' @ nl) []) ExitU
        else if pid = 0
        then useq (syscall_u (Exec ''sh'' [''sh''])) (useq (printf 1 (''init: exec sh failed'' @ nl) []) ExitU)
        else useq (init_wait fuel pid) (init_loop fuel)))"

definition init_main :: "nat \<Rightarrow> unit uprog" where
  "init_main fuel =
     ubnd (syscall_u (Open ''console'' 2)) (\<lambda>fd.
     useq (if fd < 0 then useq (syscall_u (Mknod ''console'' 1 1)) (useq (syscall_u (Open ''console'' 2)) (Return ()))
           else Return ())
       (useq (syscall_u (Dup 0)) (useq (syscall_u (Dup 0)) (init_loop fuel))))"

definition zombie_main :: "unit uprog" where
  "zombie_main = ubnd fork_u (\<lambda>pid. useq (if pid > 0 then useq (syscall_u (SleepC 5)) (Return ()) else Return ()) ExitU)"

section \<open>forktest, stressfs, tickettest\<close>

text \<open>\<open>forktest.c\<close> has a \<open>printf\<close> of its own, which writes the string as it is.\<close>

definition print_str :: "string \<Rightarrow> unit uprog" where
  "print_str s = useq (syscall_u (Write 1 s)) (Return ())"

text \<open>The first loop, with \<open>k\<close> rounds left, returns the number of children.\<close>

primrec forktest_forks :: "nat \<Rightarrow> nat \<Rightarrow> nat uprog" where
  "forktest_forks 0 n = Return n"
| "forktest_forks (Suc k) n =
     ubnd fork_u (\<lambda>pid. if pid < 0 then Return n else if pid = 0 then ExitU else forktest_forks k (n + 1))"

primrec forktest_waits :: "nat \<Rightarrow> unit uprog" where
  "forktest_waits 0 = Return ()"
| "forktest_waits (Suc n) =
     ubnd (syscall_u Wait) (\<lambda>r. if r < 0 then useq (print_str (''wait stopped early'' @ nl)) ExitU else forktest_waits n)"

definition forktest :: "unit uprog" where
  "forktest =
     useq (print_str (''fork test'' @ nl))
       (ubnd (forktest_forks 1000 0) (\<lambda>n.
        if n = 1000 then useq (print_str (''fork claimed to work N times!'' @ nl)) ExitU
        else useq (forktest_waits n)
          (ubnd (syscall_u Wait) (\<lambda>r.
           if r \<noteq> - 1 then useq (print_str (''wait got too many'' @ nl)) ExitU
           else print_str (''fork test OK'' @ nl)))))"

definition forktest_main :: "unit uprog" where
  "forktest_main = useq forktest ExitU"

primrec stressfs_forks :: "nat \<Rightarrow> nat \<Rightarrow> nat uprog" where
  "stressfs_forks 0 i = Return i"
| "stressfs_forks (Suc k) i = ubnd fork_u (\<lambda>pid. if pid > 0 then Return i else stressfs_forks k (i + 1))"

primrec repeat_call :: "nat \<Rightarrow> req \<Rightarrow> unit uprog" where
  "repeat_call 0 r = Return ()"
| "repeat_call (Suc k) r = useq (syscall_u r) (repeat_call k r)"

definition stressfs_main :: "unit uprog" where
  "stressfs_main =
     useq (printf 1 (''stressfs starting'' @ nl) [])
       (ubnd (stressfs_forks 4 0) (\<lambda>i.
        useq (printf 1 (''write %d'' @ nl) [AInt (int i)])
          (let path = ''stressfs'' @ [char_of (48 + i)]
           in ubnd (syscall_u (Open path 0x202)) (\<lambda>fd.
              useq (repeat_call 20 (Write fd (replicate 512 (CHR ''a''))))
                (useq (syscall_u (Close fd))
                  (useq (printf 1 (''read'' @ nl) [])
                    (ubnd (syscall_u (Open path 0)) (\<lambda>fd.
                     useq (repeat_call 20 (Read fd 512))
                       (useq (syscall_u (Close fd)) (useq (syscall_u Wait) ExitU))))))))))"

text \<open>\<open>tickettest.c\<close>; the second message of the second child has a \<open>%d\<close> without an argument.\<close>

definition say_pid :: "string \<Rightarrow> unit uprog" where
  "say_pid t = ubnd (syscall_u Getpid) (\<lambda>pid. printf 1 (t @ nl) [AInt pid])"

definition tickettest_main :: "unit uprog" where
  "tickettest_main =
     useq (say_pid ''parent pid: %d; tickets should be 10'')
    (useq ps
    (ubnd fork_u (\<lambda>pid.
     if pid = 0 then useq (say_pid ''first child pid: %d; tickets should be 10'') (useq ps ExitU)
     else
     useq (syscall_u Wait)
    (useq (say_pid ''parent pid: %d; setting tickets to 20'')
    (useq (syscall_u (Settickets 20))
    (useq ps
    (ubnd fork_u (\<lambda>pid.
     if pid = 0
     then
       useq (say_pid ''second child pid: %d; tickets should be 20'')
      (useq ps
      (useq (syscall_u (Settickets 30))
      (useq (printf 1 (''second child pid: %d; tickets should now be 30'' @ nl) [])
      (useq ps
      (ubnd fork_u (\<lambda>pid.
       if pid = 0
       then useq (say_pid ''child of second child pid: %d; tickets should be 30'')
           (useq ps (useq (syscall_u Wait) ExitU))
       else useq (syscall_u Wait) ExitU))))))
     else useq (syscall_u Wait) ExitU))))))))"

section \<open>What \<open>cat\<close> and \<open>wc\<close> print\<close>

lemma run_cat:
  assumes "length ds < fuel" and "[] \<notin> set ds"
  shows "run_io (cat fuel fd) ds out = (EndReturn (), out @ concat ds, [])"
  using assms
proof (induction ds arbitrary: fuel out)
  case Nil
  then show ?case by (cases fuel) auto
next
  case (Cons d ds)
  then obtain f where "fuel = Suc f" by (cases fuel) auto
  moreover have "d \<noteq> []" using Cons.prems by auto
  ultimately show ?case using Cons by (simp add: syscall_u_def)
qed

abbreviation wsp :: "char \<Rightarrow> bool" where
  "wsp x \<equiv> x \<in> set wc_space"

text \<open>The words of a text.\<close>

function words_of :: "string \<Rightarrow> string list" where
  "words_of s = (let t = dropWhile wsp s in if t = [] then [] else takeWhile (\<lambda>x. \<not> wsp x) t # words_of (dropWhile (\<lambda>x. \<not> wsp x) t))"
  by pat_completeness auto
termination
proof (relation "measure length")
  fix s t
  assume t: "t = dropWhile wsp s" "t \<noteq> []"
  then have "\<not> wsp (hd t)" using hd_dropWhile by blast
  then have "length (dropWhile (\<lambda>x. \<not> wsp x) t) < length t"
    using t(2) length_dropWhile_le [of "\<lambda>x. \<not> wsp x" "tl t"] by (cases t) auto
  also have "\<dots> \<le> length s" using t(1) by (simp add: length_dropWhile_le)
  finally show "(dropWhile (\<lambda>x. \<not> wsp x) t, s) \<in> measure length" by simp
qed simp

declare words_of.simps [simp del]

lemma words_of_Cons:
  "words_of [] = []"
  "wsp x \<Longrightarrow> words_of (x # s) = words_of s"
  "\<not> wsp x \<Longrightarrow> words_of (x # s) = (x # takeWhile (\<lambda>x. \<not> wsp x) s) # words_of (dropWhile (\<lambda>x. \<not> wsp x) s)"
  by (simp_all add: words_of.simps [of "[]"] words_of.simps [of "x # s"] words_of.simps [of s] Let_def)

lemma words_of_dropWhile:
  "length (words_of (dropWhile (\<lambda>x. \<not> wsp x) s)) = (if s \<noteq> [] \<and> \<not> wsp (hd s) then length (words_of s) - 1 else length (words_of s))"
  by (cases s) (auto simp: words_of_Cons)

lemma strchr_space: "strchr wc_space x \<noteq> None \<longleftrightarrow> wsp x"
  by (auto simp: strchr_def find_idx_None_iff)

text \<open>The words counted from a state that may be inside a word.\<close>

lemma fold_wc:
  "fold wc_char s st =
     st\<lparr>wc_l := wc_l st + int (length (filter (\<lambda>x. x = CHR 0x0A) s)),
        wc_w := wc_w st + int (length (words_of (if wc_inword st then dropWhile (\<lambda>x. \<not> wsp x) s else s))),
        wc_c := wc_c st + int (length s),
        wc_inword := (if s = [] then wc_inword st else \<not> wsp (last s))\<rparr>"
proof (induction s arbitrary: st)
  case Nil
  then show ?case by (simp add: words_of_Cons)
next
  case (Cons x s)
  have "wsp (CHR 0x0A)" by (simp add: wc_space_def)
  then show ?case
    using Cons [of "wc_char x st"] strchr_space [of x]
    by (auto simp: wc_char_def Let_def words_of_Cons)
qed

lemma run_wc:
  assumes "length ds < fuel" and "[] \<notin> set ds" and "wc_c st + int (length (concat ds)) < 2 ^ 31"
    and "printf_text (''%d %d %d %s'' @ nl) [AInt (wc_l st'), AInt (wc_w st'), AInt (wc_c st'), AStr (Some name)] = Ret t"
    and "st' = fold wc_char (concat ds) st"
  shows "run_io (wc fuel fd name st) ds out = (EndReturn (), out @ t, [])"
  using assms
proof (induction ds arbitrary: fuel st)
  case Nil
  then show ?case by (cases fuel) (auto simp: run_io_printf)
next
  case (Cons d ds)
  then obtain f where f: "fuel = Suc f" by (cases fuel) auto
  have c: "wc_c (fold wc_char d st) = wc_c st + int (length d)" by (simp add: fold_wc)
  then have n: "\<not> wc_c (fold wc_char d st) \<ge> 2 ^ 31" using Cons.prems(3) by simp
  have "run_io (wc f fd name (fold wc_char d st)) ds out = (EndReturn (), out @ t, [])"
    by (rule Cons.IH) (use Cons.prems f c in \<open>auto simp del: printf_text.simps\<close>)
  moreover have "d \<noteq> []" using Cons.prems by auto
  ultimately show ?case using f n by (simp del: printf_text.simps)
qed

lemma printint_returns:
  assumes "0 \<le> x" and "x < 2 ^ 31"
  obtains t where "printint_text udigits x 10 True = Ret t"
proof -
  have "length (digits_rev 10 (nat x)) \<le> Suc 9" using assms by (intro length_digits_rev) auto
  moreover have "length udigits = 16" by (simp add: udigits_def)
  ultimately show ?thesis using assms by (intro that) (simp add: printint_text_def Let_def)
qed

lemma length_words_of: "length (words_of s) \<le> length s"
proof (induction s rule: length_induct)
  case (1 s)
  show ?case
  proof (cases s)
    case (Cons x xs)
    have "length (words_of (dropWhile (\<lambda>x. \<not> wsp x) xs)) \<le> length xs"
      using 1 [rule_format, of "dropWhile (\<lambda>x. \<not> wsp x) xs"] Cons length_dropWhile_le [of "\<lambda>x. \<not> wsp x" xs] by simp
    moreover have "length (words_of xs) \<le> length xs" using 1 Cons by simp
    ultimately show ?thesis using Cons by (cases "wsp x") (simp_all add: words_of_Cons)
  qed (simp add: words_of_Cons)
qed

text \<open>C29. \<open>cat\<close> copies its input and \<open>wc\<close> counts it: on any input of less than \<open>2^31\<close> bytes, in whatever pieces
  \<open>read\<close> delivers it, \<open>cat\<close> ends with the input on standard output, and \<open>wc\<close> ends after printing the
  numbers of newlines, of words and of bytes of the whole input.\<close>

theorem cat_wc_correct:
  assumes "length ds < fuel" and "[] \<notin> set ds" and "length (concat ds) < 2 ^ 31"
  shows "run_io (cat fuel fd) ds [] = (EndReturn (), concat ds, []) \<and>
    (\<exists>t. printf_text (''%d %d %d %s'' @ nl)
        [AInt (int (length (filter (\<lambda>x. x = CHR 0x0A) (concat ds)))), AInt (int (length (words_of (concat ds)))),
         AInt (int (length (concat ds))), AStr (Some name)] = Ret t \<and>
      run_io (wc fuel fd name wc_init) ds [] = (EndReturn (), t, []))"
proof
  show "run_io (cat fuel fd) ds [] = (EndReturn (), concat ds, [])" using run_cat [OF assms(1,2)] by simp
  let ?s = "concat ds"
  define l w c where "l = int (length (filter (\<lambda>x. x = CHR 0x0A) ?s))" and "w = int (length (words_of ?s))" and "c = int (length ?s)"
  have "length (filter (\<lambda>x. x = CHR 0x0A) ?s) < 2 ^ 31" by (rule le_less_trans [OF length_filter_le assms(3)])
  then have b: "0 \<le> l" "l < 2 ^ 31" "0 \<le> w" "w < 2 ^ 31" "0 \<le> c" "c < 2 ^ 31"
    using assms(3) length_words_of [of ?s] by (auto simp: l_def w_def c_def)
  obtain tl tw tc where "printint_text udigits l 10 True = Ret tl" "printint_text udigits w 10 True = Ret tw"
    "printint_text udigits c 10 True = Ret tc"
    using printint_returns [OF b(1,2)] printint_returns [OF b(3,4)] printint_returns [OF b(5,6)] by metis
  then obtain t where t: "printf_text (''%d %d %d %s'' @ nl) [AInt l, AInt w, AInt c, AStr (Some name)] = Ret t"
    by (simp add: nl_def)
  have f: "fold wc_char ?s wc_init = wc_init\<lparr>wc_l := l, wc_w := w, wc_c := c, wc_inword := (if ?s = [] then False else \<not> wsp (last ?s))\<rparr>"
    unfolding fold_wc by (simp add: wc_init_def l_def w_def c_def)
  have "run_io (wc fuel fd name wc_init) ds [] = (EndReturn (), [] @ t, [])"
    by (rule run_wc [OF assms(1,2) _ _ refl]) (use t f assms(3) in \<open>simp_all add: wc_init_def del: printf_text.simps\<close>)
  with t show "\<exists>t. printf_text (''%d %d %d %s'' @ nl) [AInt (int (length (filter (\<lambda>x. x = CHR 0x0A) ?s))),
        AInt (int (length (words_of ?s))), AInt (int (length ?s)), AStr (Some name)] = Ret t \<and>
      run_io (wc fuel fd name wc_init) ds [] = (EndReturn (), t, [])"
    by (auto simp: l_def w_def c_def simp del: printf_text.simps)
qed

theorem cat_wc_correct_witness:
  "run_io (cat 3 0) [''a b'', ''c d'' @ nl] [] = (EndReturn (), ''a bc d'' @ nl, []) \<and>
   run_io (wc 3 0 ''f'' wc_init) [''a b'', ''c d'' @ nl] [] = (EndReturn (), ''1 3 7 f'' @ nl, [])"
proof -
  have "length (words_of (concat [''a b'', ''c d'' @ nl])) = 3" "length (filter (\<lambda>x. x = CHR 0x0A) (concat [''a b'', ''c d'' @ nl])) = 1"
    by code_simp+
  moreover have "printf_text (''%d %d %d %s'' @ nl) [AInt 1, AInt 3, AInt 7, AStr (Some ''f'')] = Ret (''1 3 7 f'' @ nl)"
    by code_simp
  ultimately show ?thesis
    using cat_wc_correct [of "[''a b'', ''c d'' @ nl]" 3 0 "''f''"] by (simp add: nl_def del: printf_text.simps)
qed

end
