(* ===== verification/Sh.thy ===== *)
theory Sh
  imports Ulib "HOL-Library.Sublist"
begin

text \<open>
  The shell, \<open>sh.c\<close>. A pointer into the line being parsed is the part of the line from there to its NUL;
  \<open>es\<close> is the empty part. A parsed command (\<open>cmd\<close>) has pointers to its words as in C, a start and an end each;
  \<open>nulterminate\<close> writes NULs into the line at the ends. The commands are allocated with \<open>malloc\<close>, which is
  taken to succeed.

  The recursive descent takes fuel; \<open>parsecmd\<close> uses an amount that is shown to be enough.
\<close>

section \<open>Commands\<close>

type_synonym word_ptr = "string \<times> string"

datatype 'w gcmd =
    EXEC "'w list"
  | REDIR "'w gcmd" 'w int int
  | PIPE "'w gcmd" "'w gcmd"
  | LIST "'w gcmd" "'w gcmd"
  | BACK "'w gcmd"

type_synonym cmd = "word_ptr gcmd"

definition MAXARGS :: nat where "MAXARGS = 10"

definition O_RDONLY_u :: int where "O_RDONLY_u = 0"
definition O_WRONLY_CREATE :: int where "O_WRONLY_CREATE = 0x201"

text \<open>The result of a parsing routine: a value, the text printed on standard error before the shell's
  child exits, or no fuel.\<close>

datatype 'a pres = Parsed 'a | Failed string | NoFuel

fun pbnd :: "'a pres \<Rightarrow> ('a \<Rightarrow> 'b pres) \<Rightarrow> 'b pres" where
  "pbnd (Parsed x) f = f x"
| "pbnd (Failed m) f = Failed m"
| "pbnd NoFuel f = NoFuel"

definition sh_panic :: "string \<Rightarrow> 'a pres" where
  "sh_panic s = Failed (s @ [CHR 0x0A])"

section \<open>Tokens\<close>

definition whitespace :: string where "whitespace = '' '' @ [CHR 0x09, CHR 0x0D, CHR 0x0A, CHR 0x0B]"
definition symbols :: string where "symbols = ''<|>&;()''"

definition is_space :: "char \<Rightarrow> bool" where "is_space c \<longleftrightarrow> strchr whitespace c \<noteq> None"
definition is_symbol :: "char \<Rightarrow> bool" where "is_symbol c \<longleftrightarrow> strchr symbols c \<noteq> None"

definition skip_space :: "string \<Rightarrow> string" where
  "skip_space s = dropWhile is_space s"

text \<open>The token, its start and end, and the rest of the line after it and the space that follows.\<close>

definition gettoken :: "string \<Rightarrow> char \<times> word_ptr \<times> string" where
  "gettoken s =
     (let q = skip_space s;
          (ret, eq) =
            (case q of
               [] \<Rightarrow> (CHR 0x00, [])
             | c # r \<Rightarrow>
                 if c \<in> {CHR ''|'', CHR ''('', CHR '')'', CHR '';'', CHR ''&'', CHR ''<''} then (c, r)
                 else if c = CHR ''>''
                 then (case r of d # r' \<Rightarrow> if d = CHR ''>'' then (CHR ''+'', r') else (c, r) | [] \<Rightarrow> (c, r))
                 else (CHR ''a'', dropWhile (\<lambda>x. \<not> is_space x \<and> \<not> is_symbol x) q))
      in (ret, (q, eq), skip_space eq))"

definition peek :: "string \<Rightarrow> string \<Rightarrow> string \<times> bool" where
  "peek s toks = (let s = skip_space s in (s, s \<noteq> [] \<and> strchr toks (hd s) \<noteq> None))"

lemma skip_space_shorter: "length (skip_space s) \<le> length s"
  by (simp add: skip_space_def length_dropWhile_le)

lemma gettoken_shorter:
  assumes "gettoken s = (t, w, r)"
  shows "length r \<le> length s" and "t \<noteq> CHR 0x00 \<Longrightarrow> length r < length s"
proof -
  let ?q = "skip_space s"
  obtain ret eq where e: "(case ?q of [] \<Rightarrow> (CHR 0x00, [])
      | c # r \<Rightarrow> if c \<in> {CHR ''|'', CHR ''('', CHR '')'', CHR '';'', CHR ''&'', CHR ''<''} then (c, r)
         else if c = CHR ''>''
         then (case r of d # r' \<Rightarrow> if d = CHR ''>'' then (CHR ''+'', r') else (c, r) | [] \<Rightarrow> (c, r))
         else (CHR ''a'', dropWhile (\<lambda>x. \<not> is_space x \<and> \<not> is_symbol x) ?q)) = (ret, eq)"
    by (rule prod.exhaust)
  with assms have r: "t = ret" "r = skip_space eq" by (auto simp: gettoken_def Let_def)
  have q: "length ?q \<le> length s" by (rule skip_space_shorter)
  have "length eq \<le> length ?q \<and> (ret \<noteq> CHR 0x00 \<longrightarrow> length eq < length ?q)"
  proof (cases ?q)
    case Nil
    with e show ?thesis by auto
  next
    case (Cons c r)
    have "length (dropWhile (\<lambda>x. \<not> is_space x \<and> \<not> is_symbol x) (c # r)) < length (c # r)"
      if "c \<notin> {CHR ''|'', CHR ''('', CHR '')'', CHR '';'', CHR ''&'', CHR ''<''}" "c \<noteq> CHR ''>''"
    proof -
      have "\<not> is_space c" using Cons hd_dropWhile [of is_space s] by (simp add: skip_space_def)
      moreover have "\<not> is_symbol c" using that by (auto simp: is_symbol_def strchr_def symbols_def)
      ultimately show ?thesis using length_dropWhile_le [of "\<lambda>x. \<not> is_space x \<and> \<not> is_symbol x" r] by simp
    qed
    with e Cons show ?thesis by (auto split: if_splits list.splits)
  qed
  with r q skip_space_shorter [of eq] show "length r \<le> length s" "t \<noteq> CHR 0x00 \<Longrightarrow> length r < length s" by auto
qed

lemma peek_shorter: "peek s toks = (r, b) \<Longrightarrow> length r \<le> length s"
  using skip_space_shorter [of s] by (auto simp: peek_def Let_def)

lemma gettoken_less: "gettoken s = (CHR ''a'', w, r) \<Longrightarrow> length r < length s"
  using gettoken_shorter(2) [of s "CHR ''a''" w r] by simp

lemma after_tokens:
  assumes "peek s toks = (s1, b)" "gettoken s1 = (t1, w1, s2)" "gettoken s2 = (CHR ''a'', w, s3)"
  shows "length s3 < length s"
  using peek_shorter [OF assms(1)] gettoken_shorter(1) [OF assms(2)] gettoken_less [OF assms(3)] by linarith

lemma skip_space_idem: "skip_space (skip_space s) = skip_space s"
  using hd_dropWhile [of is_space s] by (cases "dropWhile is_space s") (auto simp: skip_space_def)

lemma gettoken_end: "fst (gettoken s) = CHR 0x00 \<longleftrightarrow> skip_space s = []"
  by (auto simp: gettoken_def Let_def split: list.splits prod.splits if_splits)

lemma after_peek:
  assumes "peek s toks = (s1, True)" "gettoken s1 = (t, w, s2)"
  shows "length s2 < length s"
proof -
  from assms(1) have "s1 = skip_space s" "s1 \<noteq> []" by (auto simp: peek_def Let_def)
  then have "t \<noteq> CHR 0x00" using gettoken_end [of s1] assms(2) by (simp add: skip_space_idem)
  with gettoken_shorter(2) [OF assms(2)] peek_shorter [OF assms(1)] show ?thesis by linarith
qed

section \<open>Parsing\<close>

type_synonym redir = "word_ptr \<times> int \<times> int"

definition redir_of :: "char \<Rightarrow> word_ptr \<Rightarrow> redir list" where
  "redir_of tok w =
     (if tok = CHR ''<'' then [(w, O_RDONLY_u, 0)]
      else if tok = CHR ''>'' \<or> tok = CHR ''+'' then [(w, O_WRONLY_CREATE, 1)]
      else [])"

text \<open>\<open>parseredirs\<close> returns the redirections it has found, in the order it wraps the command in them.\<close>

function parseredirs :: "redir list \<Rightarrow> string \<Rightarrow> (redir list \<times> string) pres" where
  "parseredirs rs s =
     (let (s1, b) = peek s ''<>''
      in if \<not> b then Parsed (rs, s1)
         else (let (tok, _, s2) = gettoken s1; (t, w, s3) = gettoken s2
               in if t \<noteq> CHR ''a'' then sh_panic ''missing file for redirection''
                  else parseredirs (rs @ redir_of tok w) s3))"
  by pat_completeness auto
termination
  by (relation "measure (\<lambda>(_, s). length s)")
    (auto intro: after_tokens [OF sym sym sym])

declare parseredirs.simps [simp del]

definition wrap :: "redir list \<Rightarrow> cmd \<Rightarrow> cmd" where
  "wrap rs c = foldl (\<lambda>c (w, mode, fd). REDIR c w mode fd) c rs"

lemma peek_skip: "peek s toks = (skip_space s, snd (peek s toks))"
  by (simp add: peek_def Let_def)

lemma parseredirs_rule [consumes 1, case_names stop fail more]:
  assumes "parseredirs rs s = x"
    and stop: "\<And>rs s. \<not> snd (peek s ''<>'') \<Longrightarrow> P rs s (Parsed (rs, skip_space s))"
    and fail: "\<And>rs s m. P rs s (Failed m)"
    and more: "\<And>rs s tok w1 s2 w s3 x. snd (peek s ''<>'') \<Longrightarrow> gettoken (skip_space s) = (tok, w1, s2) \<Longrightarrow>
      gettoken s2 = (CHR ''a'', w, s3) \<Longrightarrow> P (rs @ redir_of tok w) s3 x \<Longrightarrow> P rs s x"
  shows "P rs s x"
  unfolding assms(1) [symmetric]
proof (induction "length s" arbitrary: rs s rule: less_induct)
  case less
  let ?s1 = "skip_space s"
  obtain tok w1 s2 where g: "gettoken ?s1 = (tok, w1, s2)" by (rule prod_cases3)
  obtain t w s3 where h: "gettoken s2 = (t, w, s3)" by (rule prod_cases3)
  consider "\<not> snd (peek s ''<>'')" | "snd (peek s ''<>'')" "t \<noteq> CHR ''a''" | "snd (peek s ''<>'')" "t = CHR ''a''"
    by blast
  then show ?case
  proof cases
    case 1
    with peek_skip [of s "''<>''"] have "parseredirs rs s = Parsed (rs, ?s1)" by (subst parseredirs.simps) auto
    with stop [OF 1] show ?thesis by simp
  next
    case 2
    with peek_skip [of s "''<>''"] g h have "\<exists>m. parseredirs rs s = Failed m"
      by (subst parseredirs.simps) (auto simp: sh_panic_def)
    with fail show ?thesis by auto
  next
    case 3
    with peek_skip [of s "''<>''"] g h have e: "parseredirs rs s = parseredirs (rs @ redir_of tok w) s3"
      by (subst parseredirs.simps) auto
    have "length s3 < length s" using after_tokens [OF peek_skip g] h 3(2) by simp
    from more [OF 3(1) g h [unfolded 3(2)] less [OF this]] show ?thesis by (simp add: e)
  qed
qed

lemma parseredirs_fuel: "parseredirs rs s \<noteq> NoFuel"
proof
  assume "parseredirs rs s = NoFuel"
  then show False by (induction rs s "NoFuel :: (redir list \<times> string) pres" rule: parseredirs_rule) auto
qed

lemma parseredirs_shorter: "parseredirs rs s = Parsed (rs', r) \<Longrightarrow> length r \<le> length s"
proof (induction rs s "Parsed (rs', r)" rule: parseredirs_rule)
  case (more rs s tok w1 s2 w s3)
  with after_tokens [OF peek_skip more(2,3)] show ?case by simp
qed (auto simp: skip_space_shorter)

text \<open>The loop of \<open>parseexec\<close>: the words and redirections found. The tests are those of the source, in its
  order.\<close>

function exec_loop :: "word_ptr list \<Rightarrow> redir list \<Rightarrow> string \<Rightarrow> (word_ptr list \<times> redir list \<times> string) pres" where
  "exec_loop args rs s =
     (let (s1, b) = peek s ''|)&;''
      in if b then Parsed (args, rs, s1)
         else (let (tok, w, s2) = gettoken s1
               in if tok = CHR 0x00 then Parsed (args, rs, s2)
                  else if tok \<noteq> CHR ''a'' then sh_panic ''syntax''
                  else if length args + 1 \<ge> MAXARGS then sh_panic ''too many args''
                  else (case parseredirs rs s2 of
                      Parsed (rs', s3) \<Rightarrow> exec_loop (args @ [w]) rs' s3
                    | Failed m \<Rightarrow> Failed m
                    | NoFuel \<Rightarrow> NoFuel)))"
  by pat_completeness auto
termination
proof (relation "measure (\<lambda>(_, _, s). length s)", simp)
  fix args rs s x s1 b y tok z w s2 x1 rs' s3
  assume "x = peek s ''|)&;''" "(s1, b) = x" "y = gettoken s1" "(tok, z) = y" "(w, s2) = z"
    "\<not> tok \<noteq> CHR ''a''" "parseredirs rs s2 = Parsed x1" "(rs', s3) = x1"
  then have "length s1 \<le> length s" "length s2 < length s1" "length s3 \<le> length s2"
    using peek_shorter [of s "''|)&;''" s1 b] gettoken_less [of s1 w s2] parseredirs_shorter [of rs s2 rs' s3] by auto
  then show "((args @ [w], rs', s3), args, rs, s) \<in> measure (\<lambda>(_, _, s). length s)" by simp
qed

declare exec_loop.simps [simp del]

lemma exec_loop_step:
  assumes "gettoken (skip_space s) = (t, w, s2)"
  shows "exec_loop args rs s =
    (if snd (peek s ''|)&;'') then Parsed (args, rs, skip_space s)
     else if t = CHR 0x00 then Parsed (args, rs, s2)
     else if t \<noteq> CHR ''a'' then sh_panic ''syntax''
     else if length args + 1 \<ge> MAXARGS then sh_panic ''too many args''
     else (case parseredirs rs s2 of
         Parsed (rs', s3) \<Rightarrow> exec_loop (args @ [w]) rs' s3
       | Failed m \<Rightarrow> Failed m
       | NoFuel \<Rightarrow> NoFuel))"
  by (subst exec_loop.simps, subst peek_skip) (simp add: assms)

lemma exec_loop_rule [consumes 1, case_names stop end_of_line fail more]:
  assumes "exec_loop args rs s = x"
    and stop: "\<And>args rs s. snd (peek s ''|)&;'') \<Longrightarrow> P args rs s (Parsed (args, rs, skip_space s))"
    and "\<And>args rs s. skip_space s = [] \<Longrightarrow> P args rs s (Parsed (args, rs, []))"
    and fail: "\<And>args rs s m. P args rs s (Failed m)"
    and more: "\<And>args rs s w s2 rs' s3 x. \<not> snd (peek s ''|)&;'') \<Longrightarrow> length args + 1 < MAXARGS \<Longrightarrow>
      gettoken (skip_space s) = (CHR ''a'', w, s2) \<Longrightarrow>
      parseredirs rs s2 = Parsed (rs', s3) \<Longrightarrow> P (args @ [w]) rs' s3 x \<Longrightarrow> P args rs s x"
  shows "P args rs s x"
  unfolding assms(1) [symmetric]
proof (induction "length s" arbitrary: args rs s rule: less_induct)
  case less
  let ?s1 = "skip_space s"
  obtain t w s2 where g: "gettoken ?s1 = (t, w, s2)" by (rule prod_cases3)
  consider "snd (peek s ''|)&;'')" | "\<not> snd (peek s ''|)&;'')" "t = CHR 0x00"
    | m where "exec_loop args rs s = Failed m"
    | rs' s3 where "\<not> snd (peek s ''|)&;'')" "t = CHR ''a''" "length args + 1 < MAXARGS" "parseredirs rs s2 = Parsed (rs', s3)"
    using exec_loop_step [OF g, of args rs] parseredirs_fuel [of rs s2]
    by (cases "parseredirs rs s2") (auto simp: sh_panic_def not_le split: if_splits)
  then show ?case
  proof cases
    case 1
    then have "exec_loop args rs s = Parsed (args, rs, ?s1)" by (simp add: exec_loop_step [OF g])
    with stop [OF 1] show ?thesis by simp
  next
    case 2
    then have e: "?s1 = []" using gettoken_end [of ?s1] g by (simp add: skip_space_idem)
    with gettoken_shorter(1) [OF g] have "s2 = []" by simp
    with 2 have "exec_loop args rs s = Parsed (args, rs, [])" by (simp add: exec_loop_step [OF g])
    with assms(3) [OF e] show ?thesis by simp
  next
    case 3
    with fail show ?thesis by simp
  next
    case (4 rs' s3)
    then have e: "exec_loop args rs s = exec_loop (args @ [w]) rs' s3" by (simp add: exec_loop_step [OF g])
    have "length s3 < length s"
      using gettoken_less [of ?s1 w s2] g 4(2) parseredirs_shorter [OF 4(4)] skip_space_shorter [of s] by simp
    from more [OF 4(1,3) g [unfolded 4(2)] 4(4) less [OF this]] show ?thesis by (simp add: e)
  qed
qed

text \<open>The loop of \<open>parseline\<close> over \<open>&\<close>.\<close>

function back_loop :: "cmd \<Rightarrow> string \<Rightarrow> cmd \<times> string" where
  "back_loop c s =
     (let (s1, b) = peek s ''&''
      in if \<not> b then (c, s1) else (let (t, _, s2) = gettoken s1 in back_loop (BACK c) s2))"
  by pat_completeness auto
termination
  by (relation "measure (\<lambda>(_, s). length s)") (auto intro: after_peek [OF sym sym])

declare back_loop.simps [simp del]

lemma back_loop_rule [consumes 1, case_names stop more]:
  assumes "back_loop c s = x"
    and stop: "\<And>c s. \<not> snd (peek s ''&'') \<Longrightarrow> P c s (c, skip_space s)"
    and more: "\<And>c s t w s2 x. snd (peek s ''&'') \<Longrightarrow> gettoken (skip_space s) = (t, w, s2) \<Longrightarrow>
      P (BACK c) s2 x \<Longrightarrow> P c s x"
  shows "P c s x"
  unfolding assms(1) [symmetric]
proof (induction "length s" arbitrary: c s rule: less_induct)
  case less
  note p = peek_skip [of s "''&''"]
  obtain t w s2 where g: "gettoken (skip_space s) = (t, w, s2)" by (rule prod_cases3)
  show ?case
  proof (cases "snd (peek s ''&'')")
    case False
    with p have "back_loop c s = (c, skip_space s)" by (subst back_loop.simps) auto
    with stop [OF False] show ?thesis by simp
  next
    case True
    with p g have e: "back_loop c s = back_loop (BACK c) s2" by (subst back_loop.simps) auto
    have "length s2 < length s" using after_peek [OF _ g, of s "''&''"] p True by simp
    from more [OF True g less [OF this]] show ?thesis by (simp add: e)
  qed
qed

text \<open>\<open>parseblock\<close> is called by \<open>parseexec\<close> after it has seen the parenthesis.\<close>

fun parseline :: "nat \<Rightarrow> string \<Rightarrow> (cmd \<times> string) pres"
  and parsepipe :: "nat \<Rightarrow> string \<Rightarrow> (cmd \<times> string) pres"
  and parseexec :: "nat \<Rightarrow> string \<Rightarrow> (cmd \<times> string) pres"
  and parseblock :: "nat \<Rightarrow> string \<Rightarrow> (cmd \<times> string) pres" where
  "parseline 0 s = NoFuel"
| "parseline (Suc n) s =
     pbnd (parsepipe n s) (\<lambda>(c, s).
       let (c, s) = back_loop c s; (s, b) = peek s '';''
       in if b
          then (let (_, _, s) = gettoken s in pbnd (parseline n s) (\<lambda>(d, s). Parsed (LIST c d, s)))
          else Parsed (c, s))"
| "parsepipe 0 s = NoFuel"
| "parsepipe (Suc n) s =
     pbnd (parseexec n s) (\<lambda>(c, s).
       let (s, b) = peek s ''|''
       in if b
          then (let (_, _, s) = gettoken s in pbnd (parsepipe n s) (\<lambda>(d, s). Parsed (PIPE c d, s)))
          else Parsed (c, s))"
| "parseexec 0 s = NoFuel"
| "parseexec (Suc n) s =
     (let (s, b) = peek s ''(''
      in if b then parseblock n s
         else pbnd (parseredirs [] s) (\<lambda>(rs, s).
              pbnd (exec_loop [] rs s) (\<lambda>(args, rs, s). Parsed (wrap rs (EXEC args), s))))"
| "parseblock 0 s = NoFuel"
| "parseblock (Suc n) s =
     (let (s, b) = peek s ''(''
      in if \<not> b then sh_panic ''parseblock''
         else (let (_, _, s) = gettoken s
               in pbnd (parseline n s) (\<lambda>(c, s).
                  let (s, b) = peek s '')''
                  in if \<not> b then sh_panic ''syntax - missing )''
                     else (let (_, _, s) = gettoken s
                           in pbnd (parseredirs [] s) (\<lambda>(rs, s). Parsed (wrap rs c, s))))))"

text \<open>The writes of \<open>nulterminate\<close> into the line, at the place of each end; \<open>n\<close> is the length of the line. The
  terminating NUL of the line is not part of the list, so a write there changes nothing.\<close>

definition put_nul :: "nat \<Rightarrow> word_ptr \<Rightarrow> string \<Rightarrow> string" where
  "put_nul n w buf = buf[n - length (snd w) := CHR 0x00]"

primrec nulterminate :: "nat \<Rightarrow> cmd \<Rightarrow> string \<Rightarrow> string" where
  "nulterminate n (EXEC args) buf = fold (put_nul n) args buf"
| "nulterminate n (REDIR c w mode fd) buf = put_nul n w (nulterminate n c buf)"
| "nulterminate n (PIPE l r) buf = nulterminate n r (nulterminate n l buf)"
| "nulterminate n (LIST l r) buf = nulterminate n r (nulterminate n l buf)"
| "nulterminate n (BACK c) buf = nulterminate n c buf"

text \<open>The command and the line as it is then.\<close>

definition parse_fuel :: "string \<Rightarrow> nat" where
  "parse_fuel s = 4 * length s + 4"

definition parsecmd :: "string \<Rightarrow> (cmd \<times> string) pres" where
  "parsecmd s0 =
     pbnd (parseline (parse_fuel s0) s0) (\<lambda>(c, s).
       let (s, _) = peek s ''''
       in if s \<noteq> [] then Failed (''leftovers: '' @ s @ [CHR 0x0A] @ ''syntax'' @ [CHR 0x0A])
          else Parsed (c, nulterminate (length s0) c s0))"

section \<open>Running commands\<close>

text \<open>The C string that starts at a pointer, in the line after \<open>nulterminate\<close>.\<close>

definition cstr_at :: "nat \<Rightarrow> string \<Rightarrow> word_ptr \<Rightarrow> string" where
  "cstr_at n buf w = takeWhile (\<lambda>c. c \<noteq> CHR 0x00) (drop (n - length (fst w)) buf)"

definition panic_u :: "string \<Rightarrow> 'a uprog" where
  "panic_u s = useq (printf 2 (''%s'' @ [CHR 0x0A]) [AStr (Some s)]) ExitU"

definition fork1 :: "int uprog" where
  "fork1 = ubnd fork_u (\<lambda>pid. if pid = -1 then panic_u ''fork'' else Return pid)"

primrec runcmd :: "string \<Rightarrow> cmd \<Rightarrow> unit uprog" where
  "runcmd buf (EXEC args) =
     (let argv = map (cstr_at (length buf) buf) args
      in case argv of
           [] \<Rightarrow> ExitU
         | a # _ \<Rightarrow> useq (syscall_u (Exec a argv)) (useq (printf 2 (''exec %s failed'' @ [CHR 0x0A]) [AStr (Some a)]) ExitU))"
| "runcmd buf (REDIR c w mode fd) =
     useq (syscall_u (Close fd))
       (ubnd (syscall_u (Open (cstr_at (length buf) buf w) mode)) (\<lambda>r.
          if r < 0
          then useq (printf 2 (''open %s failed'' @ [CHR 0x0A]) [AStr (Some (cstr_at (length buf) buf w))]) ExitU
          else useq (runcmd buf c) ExitU))"
| "runcmd buf (LIST l r) =
     ubnd fork1 (\<lambda>pid.
       useq (if pid = 0 then runcmd buf l else Return ())
         (useq (syscall_u Wait) (useq (runcmd buf r) ExitU)))"
| "runcmd buf (PIPE l r) =
     Sys PipeC (\<lambda>a.
       if r_val a < 0 then panic_u ''pipe''
       else (let p = r_fds a in
         ubnd fork1 (\<lambda>pid.
         useq (if pid = 0
               then useq (syscall_u (Close 1)) (useq (syscall_u (Dup (snd p)))
                   (useq (syscall_u (Close (fst p))) (useq (syscall_u (Close (snd p))) (runcmd buf l))))
               else Return ())
         (ubnd fork1 (\<lambda>pid.
         useq (if pid = 0
               then useq (syscall_u (Close 0)) (useq (syscall_u (Dup (fst p)))
                   (useq (syscall_u (Close (fst p))) (useq (syscall_u (Close (snd p))) (runcmd buf r))))
               else Return ())
         (useq (syscall_u (Close (fst p))) (useq (syscall_u (Close (snd p)))
         (useq (syscall_u Wait) (useq (syscall_u Wait) ExitU)))))))))"
| "runcmd buf (BACK c) =
     ubnd fork1 (\<lambda>pid. useq (if pid = 0 then runcmd buf c else Return ()) ExitU)"

definition getcmd :: "nat \<Rightarrow> string option uprog" where
  "getcmd nbuf =
     useq (printf 2 ''$ '' [])
       (ubnd (gets nbuf) (\<lambda>buf.
          let s = takeWhile (\<lambda>c. c \<noteq> CHR 0x00) buf in Return (if s = [] then None else Some s)))"

text \<open>The first loop of \<open>main\<close>, and the second, with a bound on their rounds. A parse that fails prints its
  message and the child exits.\<close>

primrec open_console :: "nat \<Rightarrow> unit uprog" where
  "open_console 0 = Fuel"
| "open_console (Suc k) =
     ubnd (syscall_u (Open ''console'' 2)) (\<lambda>fd.
       if fd < 0 then Return ()
       else if fd \<ge> 3 then useq (syscall_u (Close fd)) (Return ())
       else open_console k)"

definition parse_and_run :: "string \<Rightarrow> unit uprog" where
  "parse_and_run s =
     (case parsecmd s of
        Parsed (c, buf) \<Rightarrow> runcmd buf c
      | Failed m \<Rightarrow> useq (puts_u 2 m) ExitU
      | NoFuel \<Rightarrow> Fuel)"

primrec sh_loop :: "nat \<Rightarrow> unit uprog" where
  "sh_loop 0 = Fuel"
| "sh_loop (Suc k) =
     ubnd (getcmd 100) (\<lambda>r. case r of
         None \<Rightarrow> ExitU
       | Some s \<Rightarrow>
           if take 3 s = ''cd ''
           then (let dir = drop 3 (butlast s)
                 in ubnd (syscall_u (Chdir dir)) (\<lambda>r.
                      useq (if r < 0 then printf 2 (''cannot cd %s'' @ [CHR 0x0A]) [AStr (Some dir)] else Return ())
                        (sh_loop k)))
           else ubnd fork1 (\<lambda>pid.
             useq (if pid = 0 then parse_and_run s else Return ())
               (useq (syscall_u Wait) (sh_loop k))))"

definition sh_main :: "nat \<Rightarrow> unit uprog" where
  "sh_main k = useq (open_console k) (sh_loop k)"

(*X*)
section \<open>The parser returns\<close>

lemma pbnd_Parsed: "pbnd p f = Parsed y \<longleftrightarrow> (\<exists>x. p = Parsed x \<and> f x = Parsed y)"
  by (cases p) auto

lemma pbnd_NoFuel: "pbnd p f = NoFuel \<longleftrightarrow> p = NoFuel \<or> (\<exists>x. p = Parsed x \<and> f x = NoFuel)"
  by (cases p) auto

lemma exec_loop_fuel: "exec_loop args rs s \<noteq> NoFuel"
proof
  assume "exec_loop args rs s = NoFuel"
  then show False by (induction args rs s "NoFuel :: (word_ptr list \<times> redir list \<times> string) pres" rule: exec_loop_rule) auto
qed

section \<open>Words\<close>

definition word_char :: "char \<Rightarrow> bool" where
  "word_char c \<longleftrightarrow> \<not> is_space c \<and> \<not> is_symbol c"

text \<open>A pair of pointers into \<open>s\<close> that delimits a longest run of characters that are neither space nor symbols.\<close>

definition good_word :: "string \<Rightarrow> word_ptr \<Rightarrow> bool" where
  "good_word s w \<longleftrightarrow> suffix (fst w) s \<and>
     (\<exists>t. fst w = t @ snd w \<and> t \<noteq> [] \<and> (\<forall>c \<in> set t. word_char c)) \<and> (snd w = [] \<or> \<not> word_char (hd (snd w)))"

lemma good_word_suffix: "good_word r w \<Longrightarrow> suffix r s \<Longrightarrow> good_word s w"
  unfolding good_word_def by (blast intro: suffix_order.trans)

lemma suffix_skip_space: "suffix (skip_space s) s"
  by (simp add: skip_space_def suffix_dropWhile)

lemma gettoken_suffix:
  assumes "gettoken s = (t, w, r)"
  shows "suffix r s" and "t = CHR ''a'' \<Longrightarrow> good_word s w"
proof -
  let ?q = "skip_space s"
  define e where "e = snd w"
  from assms have w: "fst w = ?q" "r = skip_space e" by (auto simp: e_def gettoken_def Let_def split: prod.splits)
  have t: "suffix e ?q \<and> (t = CHR ''a'' \<longrightarrow> ?q \<noteq> [] \<and> word_char (hd ?q) \<and> e = dropWhile word_char ?q)"
  proof (cases ?q)
    case Nil
    with assms show ?thesis by (auto simp: e_def gettoken_def Let_def)
  next
    case (Cons c r)
    have c: "\<not> is_space c" using Cons hd_dropWhile [of is_space s] by (simp add: skip_space_def)
    have d: "(\<lambda>x. \<not> is_space x \<and> \<not> is_symbol x) = word_char" by (auto simp: word_char_def)
    have y: "word_char c" if "c \<notin> {CHR ''|'', CHR ''('', CHR '')'', CHR '';'', CHR ''&'', CHR ''<''}" "c \<noteq> CHR ''>''"
      using that c by (auto simp: word_char_def is_symbol_def strchr_def symbols_def)
    show ?thesis using assms Cons y unfolding gettoken_def Let_def d
      by (auto simp: e_def suffix_ConsI suffix_dropWhile split: if_splits list.splits)
  qed
  then have "suffix e s" using suffix_skip_space [of s] suffix_order.trans by blast
  then show "suffix r s" using w(2) suffix_skip_space [of e] suffix_order.trans by blast
  assume "t = CHR ''a''"
  with t have q: "?q \<noteq> []" "word_char (hd ?q)" and e: "e = dropWhile word_char ?q" by auto
  then have "takeWhile word_char ?q \<noteq> []" by (cases ?q) auto
  with q e w suffix_skip_space [of s] show "good_word s w"
    unfolding good_word_def e_def [symmetric]
    using takeWhile_dropWhile_id [of word_char ?q] set_takeWhileD [of _ word_char ?q] hd_dropWhile [of word_char ?q]
    by (metis (no_types, lifting))
qed

lemma parseredirs_words:
  "parseredirs rs s = Parsed (rs', r) \<Longrightarrow> suffix r s \<and> (\<forall>x \<in> set rs'. x \<in> set rs \<or> good_word s (fst x))"
proof (induction rs s "Parsed (rs', r)" rule: parseredirs_rule)
  case (more rs s tok w1 s2 w s3)
  note g = gettoken_suffix [OF more(2)] gettoken_suffix [OF more(3)]
  have s: "suffix s2 s" using g(1) suffix_skip_space [of s] suffix_order.trans by blast
  then have "suffix s3 s" "good_word s w" using g(3,4) good_word_suffix suffix_order.trans by blast+
  with more(4) show ?case
    by (auto simp: redir_of_def split: if_splits dest: good_word_suffix intro: suffix_order.trans)
qed (auto simp: suffix_skip_space)

lemma exec_loop_words:
  "exec_loop args rs s = Parsed (args', rs', r) \<Longrightarrow>
   suffix r s \<and> (\<forall>x \<in> set args'. x \<in> set args \<or> good_word s x) \<and> (\<forall>x \<in> set rs'. x \<in> set rs \<or> good_word s (fst x))"
proof (induction args rs s "Parsed (args', rs', r)" rule: exec_loop_rule)
  case (more args rs s w s2 rs'' s3)
  note g = gettoken_suffix [OF more(3)]
  have s: "suffix s2 s" "good_word s w"
    using g suffix_skip_space [of s] suffix_order.trans good_word_suffix by blast+
  with parseredirs_words [OF more(4)] have "suffix s3 s" "\<forall>x \<in> set rs''. x \<in> set rs \<or> good_word s (fst x)"
    using suffix_order.trans good_word_suffix by blast+
  with s more(5) show ?case using suffix_order.trans good_word_suffix by auto
qed (auto simp: suffix_skip_space)

lemma back_loop_words: "back_loop c s = (c', r) \<Longrightarrow> suffix r s \<and> set_gcmd c' = set_gcmd c"
proof (induction c s "(c', r)" rule: back_loop_rule)
  case (more c s t w s2)
  then show ?case using gettoken_suffix(1) [OF more(2)] suffix_skip_space [of s]
    by (auto intro: suffix_order.trans)
qed (auto simp: suffix_skip_space)

lemma wrap_words: "set_gcmd (wrap rs c) = set_gcmd c \<union> fst ` set rs"
  by (induction rs arbitrary: c) (auto simp: wrap_def)

section \<open>The grammar routines\<close>

lemma parseline_cases:
  assumes "parseline (Suc n) s = Parsed (c, r)"
  obtains c1 s1 c2 s2 where "parsepipe n s = Parsed (c1, s1)" "back_loop c1 s1 = (c2, s2)" "c = c2" "r = skip_space s2"
  | c1 s1 c2 s2 t w s3 d where "parsepipe n s = Parsed (c1, s1)" "back_loop c1 s1 = (c2, s2)"
      "gettoken (skip_space s2) = (t, w, s3)" "parseline n s3 = Parsed (d, r)" "c = LIST c2 d"
  using assms by (cases "parsepipe n s") (auto simp: pbnd_Parsed peek_def Let_def split: prod.split_asm if_split_asm)

lemma parsepipe_cases:
  assumes "parsepipe (Suc n) s = Parsed (c, r)"
  obtains s1 where "parseexec n s = Parsed (c, s1)" "r = skip_space s1"
  | c1 s1 t w s2 d where "parseexec n s = Parsed (c1, s1)" "gettoken (skip_space s1) = (t, w, s2)"
      "parsepipe n s2 = Parsed (d, r)" "c = PIPE c1 d"
  using assms by (cases "parseexec n s") (auto simp: pbnd_Parsed peek_def Let_def split: prod.split_asm if_split_asm)

lemma parseexec_cases:
  assumes "parseexec (Suc n) s = Parsed (c, r)"
  obtains "parseblock n (skip_space s) = Parsed (c, r)"
  | rs s1 args rs' where "parseredirs [] (skip_space s) = Parsed (rs, s1)" "exec_loop [] rs s1 = Parsed (args, rs', r)"
      "c = wrap rs' (EXEC args)"
  using assms by (auto simp: pbnd_Parsed peek_def Let_def split: prod.split_asm if_split_asm)

lemma parseblock_cases:
  assumes "parseblock (Suc n) s = Parsed (c, r)"
  obtains t w s1 d s2 t' w' s3 rs where "gettoken (skip_space s) = (t, w, s1)" "parseline n s1 = Parsed (d, s2)"
    "gettoken (skip_space s2) = (t', w', s3)" "parseredirs [] s3 = Parsed (rs, r)" "c = wrap rs d"
  using assms by (auto simp: pbnd_Parsed peek_def Let_def sh_panic_def split: prod.split_asm if_split_asm)

definition parsed_ok :: "string \<Rightarrow> cmd \<Rightarrow> string \<Rightarrow> bool" where
  "parsed_ok s c r \<longleftrightarrow> suffix r s \<and> (\<forall>w \<in> set_gcmd c. good_word s w)"

lemma parsed_ok_suffix: "parsed_ok s' c r \<Longrightarrow> suffix s' s \<Longrightarrow> parsed_ok s c r"
  unfolding parsed_ok_def by (blast intro: suffix_order.trans good_word_suffix)

lemma parsed_ok_skip: "parsed_ok s c r \<Longrightarrow> parsed_ok s c (skip_space r)"
  unfolding parsed_ok_def by (blast intro: suffix_order.trans suffix_skip_space)

lemma suffix_token: "gettoken (skip_space s) = (t, w, r) \<Longrightarrow> suffix r s"
  by (rule suffix_order.trans [OF gettoken_suffix(1) suffix_skip_space])

lemma parse_words:
  "(\<forall>s c r. parseline n s = Parsed (c, r) \<longrightarrow> parsed_ok s c r) \<and>
   (\<forall>s c r. parsepipe n s = Parsed (c, r) \<longrightarrow> parsed_ok s c r) \<and>
   (\<forall>s c r. parseexec n s = Parsed (c, r) \<longrightarrow> parsed_ok s c r) \<and>
   (\<forall>s c r. parseblock n s = Parsed (c, r) \<longrightarrow> parsed_ok s c r)"
proof (induction n)
  case (Suc n)
  then have line: "\<And>s c r. parseline n s = Parsed (c, r) \<Longrightarrow> parsed_ok s c r"
    and pipe: "\<And>s c r. parsepipe n s = Parsed (c, r) \<Longrightarrow> parsed_ok s c r"
    and exec: "\<And>s c r. parseexec n s = Parsed (c, r) \<Longrightarrow> parsed_ok s c r"
    and block: "\<And>s c r. parseblock n s = Parsed (c, r) \<Longrightarrow> parsed_ok s c r"
    by blast+
  have seq: "parsed_ok s f r" if "parsed_ok s c s1" "suffix s2 s1" "parsed_ok s2 d r" "set_gcmd f = set_gcmd c \<union> set_gcmd d"
    for s c s1 s2 and d f :: cmd and r
    using that parsed_ok_suffix [of s2 d r s] suffix_order.trans [of s2 s1 s] by (auto simp: parsed_ok_def)
  have amps: "parsed_ok s c2 s2" if "parsed_ok s c1 s1" "back_loop c1 s1 = (c2, s2)" for s c1 s1 c2 s2
    using that(1) back_loop_words [OF that(2)] by (auto simp: parsed_ok_def intro: suffix_order.trans)
  have redirs: "parsed_ok s (wrap rs d) r" if "parsed_ok s d s2" "parseredirs [] s2 = Parsed (rs, r)" for s d s2 rs r
    using that(1) parseredirs_words [OF that(2)] good_word_suffix [of s2 _ s]
    by (auto simp: parsed_ok_def wrap_words intro: suffix_order.trans)
  have "parsed_ok s c r" if "parseline (Suc n) s = Parsed (c, r)" for s c r
    using that
  proof (cases rule: parseline_cases)
    case (1 c1 s1 c2 s2)
    with amps [OF pipe [OF 1(1)] 1(2)] show ?thesis by (simp add: parsed_ok_skip)
  next
    case (2 c1 s1 c2 s2 t w s3 d)
    then show ?thesis using seq [OF amps [OF pipe [OF 2(1)] 2(2)] suffix_token [OF 2(3)] line [OF 2(4)]] by simp
  qed
  moreover have "parsed_ok s c r" if "parsepipe (Suc n) s = Parsed (c, r)" for s c r
    using that
  proof (cases rule: parsepipe_cases)
    case (1 s1)
    with exec [OF 1(1)] show ?thesis by (simp add: parsed_ok_skip)
  next
    case (2 c1 s1 t w s2 d)
    then show ?thesis using seq [OF exec [OF 2(1)] suffix_token [OF 2(2)] pipe [OF 2(3)]] by simp
  qed
  moreover have "parsed_ok s c r" if "parseexec (Suc n) s = Parsed (c, r)" for s c r
    using that
  proof (cases rule: parseexec_cases)
    case 1
    with block [OF 1] show ?thesis by (blast intro: parsed_ok_suffix suffix_skip_space)
  next
    case (2 rs s1 args rs')
    have r1: "suffix s1 s" "\<forall>x \<in> set rs. good_word s (fst x)"
      using parseredirs_words [OF 2(1)] suffix_skip_space [of s] good_word_suffix suffix_order.trans by auto
    moreover have "suffix r s1" "\<forall>x \<in> set args. good_word s x" "\<forall>x \<in> set rs'. good_word s (fst x)"
      using exec_loop_words [OF 2(2)] good_word_suffix [OF _ r1(1)] r1(2) by auto
    ultimately show ?thesis by (auto simp: 2(3) parsed_ok_def wrap_words intro: suffix_order.trans)
  qed
  moreover have "parsed_ok s c r" if "parseblock (Suc n) s = Parsed (c, r)" for s c r
    using that
  proof (cases rule: parseblock_cases)
    case (1 t w s1 d s2 t' w' s3 rs)
    have "parsed_ok s d s2" by (rule parsed_ok_suffix [OF line [OF 1(2)] suffix_token [OF 1(1)]])
    then have "parsed_ok s d s3" using suffix_token [OF 1(3)] by (auto simp: parsed_ok_def intro: suffix_order.trans)
    with redirs [OF _ 1(4)] show ?thesis by (simp add: 1(5))
  qed
  ultimately show ?case by blast
qed simp

lemma parse_shorter:
  "parseline n s = Parsed (c, r) \<Longrightarrow> length r \<le> length s"
  "parsepipe n s = Parsed (c, r) \<Longrightarrow> length r \<le> length s"
  "parseexec n s = Parsed (c, r) \<Longrightarrow> length r \<le> length s"
  using parse_words [of n] by (meson parsed_ok_def suffix_length_le)+

lemma parse_fuel_enough:
  "(\<forall>s. 4 * length s + 4 \<le> n \<longrightarrow> parseline n s \<noteq> NoFuel) \<and>
   (\<forall>s. 4 * length s + 3 \<le> n \<longrightarrow> parsepipe n s \<noteq> NoFuel) \<and>
   (\<forall>s. 4 * length s + 2 \<le> n \<longrightarrow> parseexec n s \<noteq> NoFuel) \<and>
   (\<forall>s. 4 * length s + 1 \<le> n \<longrightarrow> parseblock n s \<noteq> NoFuel)"
proof (induction n)
  case (Suc n)
  then have line: "\<And>s. 4 * length s + 4 \<le> n \<Longrightarrow> parseline n s \<noteq> NoFuel"
    and pipe: "\<And>s. 4 * length s + 3 \<le> n \<Longrightarrow> parsepipe n s \<noteq> NoFuel"
    and exec: "\<And>s. 4 * length s + 2 \<le> n \<Longrightarrow> parseexec n s \<noteq> NoFuel"
    and block: "\<And>s. 4 * length s + 1 \<le> n \<Longrightarrow> parseblock n s \<noteq> NoFuel"
    by blast+
  have tok: "length s2 < length s" if "snd (peek s toks)" "gettoken (skip_space s) = (t, w, s2)" for s toks t w s2
    using after_peek [of s toks "skip_space s" t w s2] peek_skip [of s toks] that by simp
  have "parseline (Suc n) s \<noteq> NoFuel" if n: "4 * length s + 4 \<le> Suc n" for s
  proof
    assume "parseline (Suc n) s = NoFuel"
    with pipe [of s] n obtain c1 s1 c2 s2 t w s3 where p: "parsepipe n s = Parsed (c1, s1)" "back_loop c1 s1 = (c2, s2)"
      "snd (peek s2 '';'')" "gettoken (skip_space s2) = (t, w, s3)" "parseline n s3 = NoFuel"
      by (cases "parsepipe n s") (auto simp: pbnd_NoFuel peek_def Let_def split: prod.split_asm if_split_asm)
    have "length s3 < length s"
      using tok [OF p(3,4)] parse_shorter(2) [OF p(1)] back_loop_words [OF p(2)] by (auto dest: suffix_length_le)
    with line [of s3] n p(5) show False by simp
  qed
  moreover have "parsepipe (Suc n) s \<noteq> NoFuel" if n: "4 * length s + 3 \<le> Suc n" for s
  proof
    assume "parsepipe (Suc n) s = NoFuel"
    with exec [of s] n obtain c1 s1 t w s2 where p: "parseexec n s = Parsed (c1, s1)"
      "snd (peek s1 ''|'')" "gettoken (skip_space s1) = (t, w, s2)" "parsepipe n s2 = NoFuel"
      by (cases "parseexec n s") (auto simp: pbnd_NoFuel peek_def Let_def split: prod.split_asm if_split_asm)
    with tok [OF p(2,3)] parse_shorter(3) [OF p(1)] pipe [of s2] n show False by simp
  qed
  moreover have "parseexec (Suc n) s \<noteq> NoFuel" if n: "4 * length s + 2 \<le> Suc n" for s
    using block [of "skip_space s"] n skip_space_shorter [of s]
    by (auto simp: pbnd_NoFuel parseredirs_fuel exec_loop_fuel peek_def Let_def)
  moreover have "parseblock (Suc n) s \<noteq> NoFuel" if n: "4 * length s + 1 \<le> Suc n" for s
  proof
    assume "parseblock (Suc n) s = NoFuel"
    then obtain t w s1 where p: "snd (peek s ''('')" "gettoken (skip_space s) = (t, w, s1)" "parseline n s1 = NoFuel"
      by (auto simp: pbnd_NoFuel peek_def Let_def sh_panic_def parseredirs_fuel split: prod.split_asm if_split_asm)
    with tok [OF p(1,2)] line [of s1] n show False by simp
  qed
  ultimately show ?case by blast
qed simp

section \<open>Terminated words\<close>

definition word_text :: "word_ptr \<Rightarrow> string" where
  "word_text w = take (length (fst w) - length (snd w)) (fst w)"

lemma put_nul_nth: "length buf = n \<Longrightarrow> i < n \<Longrightarrow>
  put_nul n w buf ! i = (if i = n - length (snd w) then CHR 0x00 else buf ! i)"
  by (simp add: put_nul_def)

lemma put_nul_length [simp]: "length (put_nul n w buf) = length buf"
  by (simp add: put_nul_def)

lemma fold_put_nul_length [simp]: "length (fold (put_nul n) ws buf) = length buf"
  by (induction ws arbitrary: buf) auto

lemma nulterminate_length [simp]: "length (nulterminate n c buf) = length buf"
  by (induction c arbitrary: buf) auto

lemma fold_put_nul_nth: "length buf = n \<Longrightarrow> i < n \<Longrightarrow>
  fold (put_nul n) ws buf ! i = (if \<exists>w \<in> set ws. i = n - length (snd w) then CHR 0x00 else buf ! i)"
  by (induction ws arbitrary: buf) (auto simp: put_nul_nth)

lemma nulterminate_nth: "length buf = n \<Longrightarrow> i < n \<Longrightarrow>
  nulterminate n c buf ! i = (if \<exists>w \<in> set_gcmd c. i = n - length (snd w) then CHR 0x00 else buf ! i)"
  by (induction c arbitrary: buf) (auto simp: fold_put_nul_nth put_nul_nth)

text \<open>In the terminated line the C string at the start of each word is the word.\<close>

lemma good_word_cstr:
  assumes "CHR 0x00 \<notin> set s" and good: "\<forall>w \<in> set_gcmd c. good_word s w" and w: "w \<in> set_gcmd c"
  shows "cstr_at (length s) (nulterminate (length s) c s) w = word_text w"
proof -
  let ?n = "length s"
  let ?b = "nulterminate ?n c s"
  obtain q e where we: "w = (q, e)" by (rule prod.exhaust)
  from good w obtain t p where t: "q = t @ e" "\<forall>c \<in> set t. word_char c" and s: "s = p @ q"
    and e: "e = [] \<or> \<not> word_char (hd e)" by (auto simp: good_word_def we suffix_def)
  have stay: "?b ! i = s ! i" if "i < ?n" "word_char (s ! i)" for i
  proof -
    have "i \<noteq> ?n - length (snd v)" if v: "v \<in> set_gcmd c" for v
    proof
      assume i: "i = ?n - length (snd v)"
      from good v obtain a b where "s = a @ b @ snd v" "snd v = [] \<or> \<not> word_char (hd (snd v))"
        by (auto simp: good_word_def suffix_def)
      then have "drop i s = snd v" "snd v \<noteq> [] \<longrightarrow> \<not> word_char (hd (snd v))" using i by auto
      with \<open>i < ?n\<close> \<open>word_char (s ! i)\<close> show False by (cases "snd v") (auto simp: drop_eq_Nil dest: hd_drop_conv_nth)
    qed
    with \<open>i < ?n\<close> show ?thesis by (auto simp: nulterminate_nth)
  qed
  have n: "?n - length q = length p" using s by simp
  have pre: "take (length t) (drop (length p) ?b) = t"
  proof (rule nth_equalityI)
    show "length (take (length t) (drop (length p) ?b)) = length t" using s t by simp
    fix i assume "i < length (take (length t) (drop (length p) ?b))"
    then have i: "i < length t" by simp
    with s t have "s ! (length p + i) = t ! i" "length p + i < ?n" by (auto simp: nth_append)
    with stay [of "length p + i"] t(2) i show "take (length t) (drop (length p) ?b) ! i = t ! i" by simp
  qed
  have post: "takeWhile (\<lambda>c. c \<noteq> CHR 0x00) (drop (length t) (drop (length p) ?b)) = []"
  proof (cases e)
    case (Cons x y)
    have "?b ! (length p + length t) = CHR 0x00" if "length p + length t < ?n"
      using that w s t(1) by (auto simp: nulterminate_nth we)
    moreover have l: "length p + length t < ?n" using s t(1) Cons by simp
    ultimately have "hd (drop (length p + length t) ?b) = CHR 0x00" by (simp add: hd_drop_conv_nth)
    then show ?thesis by (cases "drop (length p + length t) ?b") (simp_all add: add.commute)
  qed (simp add: s t)
  have "drop (length p) ?b = t @ drop (length t) (drop (length p) ?b)"
    using append_take_drop_id [of "length t" "drop (length p) ?b"] pre by simp
  moreover have "\<And>c. c \<in> set t \<Longrightarrow> c \<noteq> CHR 0x00" using assms(1) s t by auto
  ultimately have "takeWhile (\<lambda>c. c \<noteq> CHR 0x00) (drop (length p) ?b) = t"
    using takeWhile_append2 [of t "\<lambda>c. c \<noteq> CHR 0x00" "drop (length t) (drop (length p) ?b)"] post by simp
  then show ?thesis using t s by (simp add: cstr_at_def word_text_def we)
qed

text \<open>C26. The shell's parser always returns. For every line, \<open>parsecmd\<close> either reports an error or builds a command
  each of whose words is a longest run of ordinary characters of the line, and in the line as \<open>nulterminate\<close>
  leaves it the C string at the start of each word is exactly that run: no write for one word damages another.
\<close>

theorem parsecmd_returns:
  assumes "CHR 0x00 \<notin> set s"
  shows "(\<exists>m. parsecmd s = Failed m) \<or>
    (\<exists>c buf. parsecmd s = Parsed (c, buf) \<and>
       (\<forall>w \<in> set_gcmd c. good_word s w \<and> cstr_at (length s) buf w = word_text w))"
proof (cases "parseline (parse_fuel s) s")
  case (Parsed x)
  obtain c r where x: "x = (c, r)" by (rule prod.exhaust)
  with Parsed have p: "parseline (parse_fuel s) s = Parsed (c, r)" by simp
  with parse_words [of "parse_fuel s"] have "\<forall>w \<in> set_gcmd c. good_word s w" by (simp add: parsed_ok_def)
  with p good_word_cstr [OF assms this] show ?thesis by (auto simp: parsecmd_def peek_def Let_def)
next
  case (Failed m)
  then show ?thesis by (simp add: parsecmd_def)
next
  case NoFuel
  with parse_fuel_enough [of "parse_fuel s"] show ?thesis by (simp add: parse_fuel_def)
qed

theorem parsecmd_returns_witness:
  "CHR 0x00 \<notin> set ''ls>f'' \<and>
   ((\<exists>m. parsecmd ''ls>f'' = Failed m) \<or>
    (\<exists>c buf. parsecmd ''ls>f'' = Parsed (c, buf) \<and>
       (\<forall>w \<in> set_gcmd c. good_word ''ls>f'' w \<and> cstr_at (length ''ls>f'') buf w = word_text w)))"
  using parsecmd_returns [of "''ls>f''"] by simp

section \<open>Printing and parsing\<close>

definition plain :: "string \<Rightarrow> bool" where
  "plain w \<longleftrightarrow> w \<noteq> [] \<and> (\<forall>c \<in> set w. word_char c \<and> c \<noteq> CHR 0x00)"

definition words_str :: "string list \<Rightarrow> string" where
  "words_str ws = concat (map (\<lambda>w. w @ '' '') ws)"

definition redir_str :: "string \<times> int \<times> int \<Rightarrow> string" where
  "redir_str r = (if snd (snd r) = 0 then ''< '' else ''> '') @ fst r @ '' ''"

definition paren :: "bool \<Rightarrow> string \<Rightarrow> string" where
  "paren b s = (if b then ''( '' @ s @ '') '' else s)"

text \<open>A command as text, at the level of a line (0), of the operand of \<open>&\<close> (1), of a pipeline (2) or of a part of a
  pipeline (3).\<close>

primrec print_cmd :: "nat \<Rightarrow> string gcmd \<Rightarrow> string" where
  "print_cmd lev (EXEC ws) = words_str ws"
| "print_cmd lev (REDIR c w m fd) = print_cmd 3 c @ redir_str (w, m, fd)"
| "print_cmd lev (PIPE l r) = paren (lev > 2) (print_cmd 3 l @ ''| '' @ print_cmd 2 r)"
| "print_cmd lev (BACK c) = paren (lev > 1) (print_cmd 1 c @ ''& '')"
| "print_cmd lev (LIST l r) = paren (lev > 0) (print_cmd 1 l @ ''; '' @ print_cmd 0 r)"

definition redir_ok :: "string \<times> int \<times> int \<Rightarrow> bool" where
  "redir_ok r \<longleftrightarrow> plain (fst r) \<and> (snd r = (O_RDONLY_u, 0) \<or> snd r = (O_WRONLY_CREATE, 1))"

primrec writable :: "string gcmd \<Rightarrow> bool" where
  "writable (EXEC ws) \<longleftrightarrow> length ws < MAXARGS \<and> (\<forall>w \<in> set ws. plain w)"
| "writable (REDIR c w m fd) \<longleftrightarrow> writable c \<and> redir_ok (w, m, fd)"
| "writable (PIPE l r) \<longleftrightarrow> writable l \<and> writable r"
| "writable (BACK c) \<longleftrightarrow> writable c"
| "writable (LIST l r) \<longleftrightarrow> writable l \<and> writable r"

lemma strchr_set: "strchr s c \<noteq> None \<longleftrightarrow> c \<in> set s"
  by (metis (mono_tags, lifting) strchr_def find_idx_None_iff)

lemma is_symbol_set: "is_symbol c \<longleftrightarrow> c \<in> set ''<|>&;()''"
  unfolding is_symbol_def strchr_set by (simp add: symbols_def)

lemma is_space_set: "is_space c \<longleftrightarrow> c \<in> set (CHR '' '' # [CHR 0x09, CHR 0x0D, CHR 0x0A, CHR 0x0B])"
  unfolding is_space_def strchr_set by (simp add: whitespace_def)

lemma skip_space_Nil [simp]: "skip_space [] = []"
  by (simp add: skip_space_def)

lemma skip_space_Cons: "skip_space (c # s) = (if is_space c then skip_space s else c # s)"
  by (simp add: skip_space_def)

lemma skip_space_blank [simp]: "skip_space (CHR '' '' # s) = skip_space s"
  by (simp add: skip_space_Cons is_space_set)

lemma skip_space_symbol: "r = [] \<or> is_symbol (hd r) \<Longrightarrow> skip_space r = r"
  by (cases r) (auto simp: skip_space_Cons is_symbol_set is_space_set)

lemma peek_snd: "snd (peek s toks) \<longleftrightarrow> skip_space s \<noteq> [] \<and> hd (skip_space s) \<in> set toks"
  unfolding peek_def Let_def strchr_set by simp

lemma gettoken_word:
  assumes "plain w"
  shows "gettoken (w @ CHR '' '' # r) = (CHR ''a'', (w @ CHR '' '' # r, CHR '' '' # r), skip_space r)"
proof -
  obtain c v where w: "w = c # v" using assms by (cases w) (auto simp: plain_def)
  have d: "(\<lambda>x. \<not> is_space x \<and> \<not> is_symbol x) = word_char" by (auto simp: word_char_def)
  have c: "\<not> is_space c" "\<not> is_symbol c" using assms by (auto simp: plain_def w word_char_def)
  then have q: "skip_space (w @ CHR '' '' # r) = w @ CHR '' '' # r" by (simp add: w skip_space_Cons)
  have "dropWhile word_char (w @ CHR '' '' # r) = CHR '' '' # r"
    using assms by (subst dropWhile_append2) (auto simp: plain_def word_char_def is_space_set)
  then show ?thesis using c(2) unfolding gettoken_def Let_def q d by (simp add: w is_symbol_set)
qed

lemma gettoken_symbol:
  "c \<in> set ''|();&<'' \<Longrightarrow> gettoken (c # r) = (c, (c # r, r), skip_space r)"
  by (auto simp: gettoken_def Let_def skip_space_Cons is_space_set)

lemma gettoken_redir:
  "c \<in> set ''<>'' \<Longrightarrow> gettoken (c # CHR '' '' # r) = (c, (c # CHR '' '' # r, CHR '' '' # r), skip_space r)"
  by (auto simp: gettoken_def Let_def skip_space_Cons is_space_set)

lemma gettoken_skip: "gettoken (skip_space s) = gettoken s"
  by (simp add: gettoken_def skip_space_idem)

lemma peek_skip_space: "peek (skip_space s) toks = peek s toks"
  by (simp add: peek_def skip_space_idem)

lemma parseredirs_skip: "parseredirs rs (skip_space s) = parseredirs rs s"
  by (subst (1 2) parseredirs.simps) (simp add: peek_skip_space)

lemma exec_loop_skip: "exec_loop args rs (skip_space s) = exec_loop args rs s"
  by (subst (1 2) exec_loop.simps) (simp add: peek_skip_space)

lemma back_loop_skip: "back_loop c (skip_space s) = back_loop c s"
  by (subst (1 2) back_loop.simps) (simp add: peek_skip_space)

lemma parse_skip:
  "parseline n (skip_space s) = parseline n s"
  "parsepipe n (skip_space s) = parsepipe n s"
  "parseexec n (skip_space s) = parseexec n s"
proof -
  show e: "parseexec n (skip_space s) = parseexec n s" for n by (cases n) (simp_all add: peek_skip_space)
  show p: "parsepipe n (skip_space s) = parsepipe n s" for n by (cases n) (simp_all add: e)
  show "parseline n (skip_space s) = parseline n s" by (cases n) (simp_all add: p)
qed

definition texts :: "redir list \<Rightarrow> (string \<times> int \<times> int) list" where
  "texts rs = map (\<lambda>(w, m, fd). (word_text w, m, fd)) rs"

definition redirs_str :: "(string \<times> int \<times> int) list \<Rightarrow> string" where
  "redirs_str rs = concat (map redir_str rs)"

text \<open>The end of a part of a pipeline.\<close>

definition stops :: "string \<Rightarrow> bool" where
  "stops r \<longleftrightarrow> r = [] \<or> hd r \<in> set ''|)&;''"

lemma stops_skip: "stops r \<Longrightarrow> skip_space r = r"
  by (rule skip_space_symbol) (auto simp: stops_def is_symbol_set)

lemma stops_Cons: "c \<in> set ''|)&;'' \<Longrightarrow> stops (c # r)"
  by (simp add: stops_def)

lemma word_text_token [simp]: "word_text (w @ r, r) = w"
  by (simp add: word_text_def)

lemma parseredirs_none:
  assumes "\<not> snd (peek s ''<>'')"
  shows "parseredirs rs s = Parsed (rs, skip_space s)"
  using assms peek_skip [of s "''<>''"] by (subst parseredirs.simps) auto

lemma plain_skip: "plain w \<Longrightarrow> skip_space (w @ t) = w @ t"
  by (cases w) (auto simp: plain_def word_char_def skip_space_Cons)

lemma plain_peek: "plain w \<Longrightarrow> set toks \<subseteq> set ''<|>&;()'' \<Longrightarrow> \<not> snd (peek (w @ t) toks)"
  by (cases w) (auto simp: peek_snd plain_def word_char_def skip_space_Cons is_symbol_set)

lemma parseredirs_printed:
  assumes "\<forall>x \<in> set R. redir_ok x" and "\<not> snd (peek r ''<>'')"
  shows "\<exists>rs'. parseredirs rs (redirs_str R @ r) = Parsed (rs @ rs', skip_space r) \<and> texts rs' = R"
  using assms(1)
proof (induction R arbitrary: rs)
  case Nil
  then show ?case using parseredirs_none [OF assms(2)] by (auto simp: redirs_str_def texts_def)
next
  case (Cons x R)
  obtain w m fd where x: "x = (w, m, fd)" by (rule prod_cases3)
  define k where "k = (if fd = 0 then CHR ''<'' else CHR ''>'')"
  let ?t = "redirs_str R @ r"
  let ?q = "w @ CHR '' '' # ?t"
  have w: "plain w" "(m = O_RDONLY_u \<and> fd = 0) \<or> (m = O_WRONLY_CREATE \<and> fd = 1)"
    using Cons.prems by (auto simp: x redir_ok_def)
  have e: "redirs_str (x # R) @ r = k # CHR '' '' # ?q" by (simp add: redirs_str_def redir_str_def x k_def)
  have p: "peek (k # CHR '' '' # ?q) ''<>'' = (k # CHR '' '' # ?q, True)"
    by (simp add: k_def peek_def Let_def skip_space_Cons is_space_set strchr_def)
  have g: "gettoken (k # CHR '' '' # ?q) = (k, (k # CHR '' '' # ?q, CHR '' '' # ?q), ?q)"
    using gettoken_redir [of k ?q] by (simp add: k_def plain_skip [OF w(1)])
  have "parseredirs rs (k # CHR '' '' # ?q) = parseredirs (rs @ redir_of k (?q, CHR '' '' # ?t)) ?t"
    by (subst parseredirs.simps) (simp add: p g gettoken_word [OF w(1)] parseredirs_skip)
  moreover have "redir_of k (?q, CHR '' '' # ?t) = [((?q, CHR '' '' # ?t), m, fd)]"
    using w(2) by (auto simp: redir_of_def k_def)
  moreover obtain rs' where "parseredirs (rs @ [((?q, CHR '' '' # ?t), m, fd)]) ?t = Parsed ((rs @ [((?q, CHR '' '' # ?t), m, fd)]) @ rs', skip_space r)"
    "texts rs' = R" using Cons.IH [of "rs @ [((?q, CHR '' '' # ?t), m, fd)]"] Cons.prems by auto
  ultimately show ?case by (intro exI [of _ "((?q, CHR '' '' # ?t), m, fd) # rs'"]) (simp add: e [unfolded x] x texts_def)
qed

lemma exec_loop_stops:
  assumes "stops r"
  shows "exec_loop args rs r = Parsed (args, rs, r)"
proof (cases r)
  case Nil
  then show ?thesis by (subst exec_loop.simps) (simp add: peek_def gettoken_def)
next
  case (Cons c r')
  with assms have "snd (peek r ''|)&;'')" by (simp add: peek_snd stops_skip) (simp add: stops_def)
  then show ?thesis using peek_skip [of r "''|)&;''"] assms by (subst exec_loop.simps) (auto simp: stops_skip)
qed

lemma exec_loop_word:
  assumes "plain w" "length args + 1 < MAXARGS" "parseredirs rs t = Parsed (rs', s3)"
  shows "exec_loop args rs (w @ CHR '' '' # t) = exec_loop (args @ [(w @ CHR '' '' # t, CHR '' '' # t)]) rs' s3"
proof -
  have g: "gettoken (skip_space (w @ CHR '' '' # t)) = (CHR ''a'', (w @ CHR '' '' # t, CHR '' '' # t), skip_space t)"
    by (simp add: plain_skip [OF assms(1)] gettoken_word [OF assms(1)])
  show ?thesis
    using assms plain_peek [OF assms(1), of "''|)&;''" "CHR '' '' # t"]
    by (simp add: exec_loop_step [OF g] parseredirs_skip)
qed

lemma stops_peek: "stops r \<Longrightarrow> \<not> snd (peek r ''<>'')"
  by (cases r) (auto simp: peek_snd stops_skip, auto simp: stops_def)

lemma exec_loop_printed:
  assumes "ws \<noteq> []" "\<forall>w \<in> set ws. plain w" "length args + length ws < MAXARGS" "\<forall>x \<in> set R. redir_ok x" "stops r"
  shows "\<exists>args' rs'. exec_loop args rs (words_str ws @ redirs_str R @ r) = Parsed (args @ args', rs @ rs', r) \<and>
    map word_text args' = ws \<and> texts rs' = R"
  using assms(1-3)
proof (induction ws arbitrary: args rs rule: list_nonempty_induct)
  case (single w)
  let ?t = "redirs_str R @ r"
  obtain rs' where "parseredirs rs ?t = Parsed (rs @ rs', r)" "texts rs' = R"
    using parseredirs_printed [OF assms(4) stops_peek [OF assms(5)], of rs] stops_skip [OF assms(5)] by auto
  with single exec_loop_word [of w args rs ?t "rs @ rs'" r] show ?case
    by (intro exI [of _ "[(w @ CHR '' '' # ?t, CHR '' '' # ?t)]"] exI [of _ rs'])
      (simp add: words_str_def exec_loop_stops [OF assms(5)])
next
  case (cons w ws)
  let ?t = "words_str ws @ redirs_str R @ r"
  let ?w = "(w @ CHR '' '' # ?t, CHR '' '' # ?t)"
  obtain v vs where ws: "ws = v # vs" "plain v" using cons(1,3) by (cases ws) auto
  then have "parseredirs rs ?t = Parsed (rs, skip_space ?t)"
    using plain_peek [OF ws(2), of "''<>''"] by (intro parseredirs_none) (simp add: words_str_def)
  with cons exec_loop_word [of w args rs ?t rs "skip_space ?t"]
  have "exec_loop args rs (w @ CHR '' '' # ?t) = exec_loop (args @ [?w]) rs ?t" by (simp add: exec_loop_skip)
  moreover obtain args' rs' where "exec_loop (args @ [?w]) rs ?t = Parsed ((args @ [?w]) @ args', rs @ rs', r)"
    "map word_text args' = ws" "texts rs' = R" using cons(2) [of "args @ [?w]" rs] cons(3,4) by auto
  ultimately show ?case by (intro exI [of _ "?w # args'"] exI [of _ rs']) (simp add: words_str_def)
qed

definition wrap_texts :: "(string \<times> int \<times> int) list \<Rightarrow> string gcmd \<Rightarrow> string gcmd" where
  "wrap_texts R c = foldl (\<lambda>c (w, m, fd). REDIR c w m fd) c R"

lemma map_wrap: "map_gcmd word_text (wrap rs c) = wrap_texts (texts rs) (map_gcmd word_text c)"
  by (induction rs arbitrary: c) (auto simp: wrap_def wrap_texts_def texts_def)

text \<open>What each routine does on the text of a command that is followed by \<open>r\<close>.\<close>

definition execs :: "string gcmd \<Rightarrow> bool" where
  "execs c \<longleftrightarrow> (\<forall>n R r. (\<forall>x \<in> set R. redir_ok x) \<longrightarrow> stops r \<longrightarrow>
     parseexec n (print_cmd 3 c @ redirs_str R @ r) \<noteq> NoFuel \<longrightarrow>
     (\<exists>c'. parseexec n (print_cmd 3 c @ redirs_str R @ r) = Parsed (c', r) \<and> map_gcmd word_text c' = wrap_texts R c))"

definition pipes :: "string gcmd \<Rightarrow> bool" where
  "pipes c \<longleftrightarrow> (\<forall>n r. r = [] \<or> hd r \<in> set '')&;'' \<longrightarrow> parsepipe n (print_cmd 2 c @ r) \<noteq> NoFuel \<longrightarrow>
     (\<exists>c'. parsepipe n (print_cmd 2 c @ r) = Parsed (c', r) \<and> map_gcmd word_text c' = c))"

definition backs :: "string gcmd \<Rightarrow> bool" where
  "backs c \<longleftrightarrow> (\<forall>n r. r = [] \<or> hd r \<in> set '')&;'' \<longrightarrow> parsepipe n (print_cmd 1 c @ r) \<noteq> NoFuel \<longrightarrow>
     (\<exists>c0 s0 c'. parsepipe n (print_cmd 1 c @ r) = Parsed (c0, s0) \<and> back_loop c0 s0 = back_loop c' r \<and>
        map_gcmd word_text c' = c))"

definition lines :: "string gcmd \<Rightarrow> bool" where
  "lines c \<longleftrightarrow> (\<forall>n r. r = [] \<or> hd r = CHR '')'' \<longrightarrow> parseline n (print_cmd 0 c @ r) \<noteq> NoFuel \<longrightarrow>
     (\<exists>c'. parseline n (print_cmd 0 c @ r) = Parsed (c', r) \<and> map_gcmd word_text c' = c))"

lemma pbnd_fuel: "pbnd p f \<noteq> NoFuel \<Longrightarrow> p \<noteq> NoFuel"
  by auto

lemma peek_first: "skip_space r = r \<Longrightarrow> peek r toks = (r, r \<noteq> [] \<and> hd r \<in> set toks)"
  by (simp add: prod_eq_iff peek_snd) (simp add: peek_def Let_def)

lemma execsE:
  assumes "execs c" "\<forall>x \<in> set R. redir_ok x" "stops r" "parseexec n (print_cmd 3 c @ redirs_str R @ r) \<noteq> NoFuel"
  obtains c' where "parseexec n (print_cmd 3 c @ redirs_str R @ r) = Parsed (c', r)" "map_gcmd word_text c' = wrap_texts R c"
  using assms unfolding execs_def by blast

lemma execsE0:
  assumes "execs c" "stops r" "parseexec n (print_cmd 3 c @ r) \<noteq> NoFuel"
  obtains c' where "parseexec n (print_cmd 3 c @ r) = Parsed (c', r)" "map_gcmd word_text c' = c"
  using execsE [of c "[]" r n] assms by (auto simp: redirs_str_def wrap_texts_def)

lemma pipesE:
  assumes "pipes c" "r = [] \<or> hd r \<in> set '')&;''" "parsepipe n (print_cmd 2 c @ r) \<noteq> NoFuel"
  obtains c' where "parsepipe n (print_cmd 2 c @ r) = Parsed (c', r)" "map_gcmd word_text c' = c"
  using assms unfolding pipes_def by blast

lemma backsE:
  assumes "backs c" "r = [] \<or> hd r \<in> set '')&;''" "parsepipe n (print_cmd 1 c @ r) \<noteq> NoFuel"
  obtains c0 s0 c' where "parsepipe n (print_cmd 1 c @ r) = Parsed (c0, s0)" "back_loop c0 s0 = back_loop c' r"
    "map_gcmd word_text c' = c"
  using assms unfolding backs_def by blast

lemma linesE:
  assumes "lines c" "r = [] \<or> hd r = CHR '')''" "parseline n (print_cmd 0 c @ r) \<noteq> NoFuel"
  obtains c' where "parseline n (print_cmd 0 c @ r) = Parsed (c', r)" "map_gcmd word_text c' = c"
  using assms unfolding lines_def by blast

lemma execs_pipes:
  assumes "execs c" and same: "print_cmd 2 c = print_cmd 3 c"
  shows "pipes c"
  unfolding pipes_def same
proof (intro allI impI)
  fix n r assume r: "r = [] \<or> hd r \<in> set '')&;''" and n: "parsepipe n (print_cmd 3 c @ r) \<noteq> NoFuel"
  then obtain m where m: "n = Suc m" by (cases n) auto
  have s: "stops r" using r by (auto simp: stops_def)
  from n m have "parseexec m (print_cmd 3 c @ r) \<noteq> NoFuel" by auto
  then obtain c' where "parseexec m (print_cmd 3 c @ r) = Parsed (c', r)" "map_gcmd word_text c' = c"
    by (rule execsE0 [OF assms(1) s])
  with r show "\<exists>c'. parsepipe n (print_cmd 3 c @ r) = Parsed (c', r) \<and> map_gcmd word_text c' = c"
    by (auto simp: m peek_first [OF stops_skip [OF s]])
qed

lemma pipes_backs:
  assumes "pipes c" and same: "print_cmd 1 c = print_cmd 2 c"
  shows "backs c"
  using pipesE [OF assms(1)] unfolding backs_def same by metis

lemma back_loop_none:
  assumes "skip_space r = r" "r = [] \<or> hd r \<noteq> CHR ''&''"
  shows "back_loop c r = (c, r)"
  using assms by (subst back_loop.simps) (auto simp: peek_first)

lemma backs_lines:
  assumes "backs c" and same: "print_cmd 0 c = print_cmd 1 c"
  shows "lines c"
  unfolding lines_def same
proof (intro allI impI)
  fix n r assume r: "r = [] \<or> hd r = CHR '')''" and n: "parseline n (print_cmd 1 c @ r) \<noteq> NoFuel"
  then obtain m where m: "n = Suc m" by (cases n) auto
  have s: "skip_space r = r" using r by (intro stops_skip) (auto simp: stops_def)
  from n m have f: "parsepipe m (print_cmd 1 c @ r) \<noteq> NoFuel" by auto
  from r have "r = [] \<or> hd r \<in> set '')&;''" by auto
  then obtain c0 s0 c' where "parsepipe m (print_cmd 1 c @ r) = Parsed (c0, s0)" "back_loop c0 s0 = back_loop c' r"
    "map_gcmd word_text c' = c" using f by (rule backsE [OF assms(1)])
  with r s show "\<exists>c'. parseline n (print_cmd 1 c @ r) = Parsed (c', r) \<and> map_gcmd word_text c' = c"
    by (auto simp: m back_loop_none peek_first)
qed

lemma execs_EXEC:
  assumes "writable (EXEC ws)"
  shows "execs (EXEC ws)"
  unfolding execs_def
proof (intro allI impI)
  fix n R r assume R: "\<forall>x \<in> set R. redir_ok x" and r: "stops r"
    and n: "parseexec n (print_cmd 3 (EXEC ws) @ redirs_str R @ r) \<noteq> NoFuel"
  then obtain m where m: "n = Suc m" by (cases n) auto
  let ?s = "words_str ws @ redirs_str R @ r"
  have b: "\<not> snd (peek ?s ''('')"
  proof (cases ws)
    case Nil
    show ?thesis
    proof (cases R)
      case (Cons x R')
      then show ?thesis by (auto simp: Nil words_str_def redirs_str_def redir_str_def peek_snd skip_space_Cons is_space_set)
    qed (use r in \<open>auto simp: Nil words_str_def redirs_str_def peek_snd stops_skip, auto simp: stops_def\<close>)
  next
    case (Cons w ws')
    with assms plain_peek [of w "''(''"] show ?thesis by (simp add: words_str_def)
  qed
  have "\<exists>rs s1 args rs'. parseredirs [] ?s = Parsed (rs, s1) \<and> exec_loop [] rs s1 = Parsed (args, rs', r) \<and>
      map word_text args = ws \<and> texts rs' = R"
  proof (cases ws)
    case Nil
    obtain rs' where "parseredirs [] (redirs_str R @ r) = Parsed (rs', r)" "texts rs' = R"
      using parseredirs_printed [OF R stops_peek [OF r], of "[]"] stops_skip [OF r] by auto
    then show ?thesis using exec_loop_stops [OF r] by (simp add: Nil words_str_def)
  next
    case (Cons w ws')
    with assms plain_peek [of w "''<>''"] have "parseredirs [] ?s = Parsed ([], skip_space ?s)"
      by (intro parseredirs_none) (simp add: words_str_def)
    with exec_loop_printed [of ws "[]" R r "[]"] assms R r Cons show ?thesis by (auto simp: exec_loop_skip)
  qed
  then show "\<exists>c'. parseexec n (print_cmd 3 (EXEC ws) @ redirs_str R @ r) = Parsed (c', r) \<and>
      map_gcmd word_text c' = wrap_texts R (EXEC ws)"
    using peek_skip [of ?s "''(''"] b by (auto simp: m parseredirs_skip map_wrap)
qed

lemma lines_execs:
  assumes "lines c" and same: "print_cmd 3 c = paren True (print_cmd 0 c)"
  shows "execs c"
  unfolding execs_def
proof (intro allI impI)
  fix n R r assume R: "\<forall>x \<in> set R. redir_ok x" and r: "stops r"
    and n: "parseexec n (print_cmd 3 c @ redirs_str R @ r) \<noteq> NoFuel"
  let ?e = "CHR '')'' # CHR '' '' # redirs_str R @ r"
  let ?s = "print_cmd 0 c @ ?e"
  have e: "print_cmd 3 c @ redirs_str R @ r = CHR ''('' # CHR '' '' # ?s" by (simp add: same paren_def)
  have p: "peek (CHR ''('' # CHR '' '' # ?s) ''('' = (CHR ''('' # CHR '' '' # ?s, True)"
    "peek ?e '')'' = (?e, True)"
    by (subst peek_first; simp add: skip_space_Cons is_space_set)+
  from n have "n \<noteq> 0" by (intro notI) simp
  moreover from n have "n \<noteq> 1" using p by (intro notI) (simp add: e)
  ultimately obtain m where m: "n = Suc (Suc m)" by (cases n; cases "n - 1") auto
  have f: "parseline m ?s \<noteq> NoFuel" using n p by (auto simp: m e gettoken_symbol parse_skip)
  obtain rs' where rs: "parseredirs [] (redirs_str R @ r) = Parsed (rs', r)" "texts rs' = R"
    using parseredirs_printed [OF R stops_peek [OF r], of "[]"] stops_skip [OF r] by auto
  obtain c' where c': "parseline m ?s = Parsed (c', ?e)" "map_gcmd word_text c' = c"
    using linesE [OF assms(1) _ f] by auto
  then have "parseexec n (CHR ''('' # CHR '' '' # ?s) = Parsed (wrap rs' c', r)"
    using rs(1) by (simp add: m p gettoken_symbol parse_skip parseredirs_skip)
  with c'(2) rs(2) show "\<exists>c'. parseexec n (print_cmd 3 c @ redirs_str R @ r) = Parsed (c', r) \<and> map_gcmd word_text c' = wrap_texts R c"
    by (auto simp: e map_wrap)
qed

lemma pipes_PIPE:
  assumes "execs l" "pipes r"
  shows "pipes (PIPE l r)"
  unfolding pipes_def
proof (intro allI impI)
  fix n t assume t: "t = [] \<or> hd t \<in> set '')&;''" and n: "parsepipe n (print_cmd 2 (PIPE l r) @ t) \<noteq> NoFuel"
  then obtain m where m: "n = Suc m" by (cases n) auto
  let ?e = "CHR ''|'' # CHR '' '' # print_cmd 2 r @ t"
  have e: "print_cmd 2 (PIPE l r) @ t = print_cmd 3 l @ ?e" by (simp add: paren_def)
  from n have "parseexec m (print_cmd 3 l @ ?e) \<noteq> NoFuel" unfolding e m by auto
  then obtain c1 where c1: "parseexec m (print_cmd 3 l @ ?e) = Parsed (c1, ?e)" "map_gcmd word_text c1 = l"
    by (rule execsE0 [OF assms(1), rotated]) (simp_all add: stops_Cons)
  have p: "peek ?e ''|'' = (?e, True)" by (subst peek_first) (simp_all add: skip_space_Cons is_space_set)
  have st: "parsepipe n (print_cmd 3 l @ ?e) = pbnd (parsepipe m (print_cmd 2 r @ t)) (\<lambda>(d, s). Parsed (PIPE c1 d, s))"
    by (simp add: m c1 p gettoken_symbol parse_skip)
  with n e have "parsepipe m (print_cmd 2 r @ t) \<noteq> NoFuel" by auto
  then obtain c2 where "parsepipe m (print_cmd 2 r @ t) = Parsed (c2, t)" "map_gcmd word_text c2 = r"
    by (rule pipesE [OF assms(2) t])
  with st c1(2) show "\<exists>c'. parsepipe n (print_cmd 2 (PIPE l r) @ t) = Parsed (c', t) \<and> map_gcmd word_text c' = PIPE l r"
    unfolding e by auto
qed

lemma backs_BACK:
  assumes "backs c"
  shows "backs (BACK c)"
  unfolding backs_def
proof (intro allI impI)
  fix n t assume t: "t = [] \<or> hd t \<in> set '')&;''" and n: "parsepipe n (print_cmd 1 (BACK c) @ t) \<noteq> NoFuel"
  let ?e = "CHR ''&'' # CHR '' '' # t"
  have e: "print_cmd 1 (BACK c) @ t = print_cmd 1 c @ ?e" by (simp add: paren_def)
  have p: "peek ?e ''&'' = (?e, True)" by (subst peek_first) (simp_all add: skip_space_Cons is_space_set)
  from n obtain c0 s0 c' where c: "parsepipe n (print_cmd 1 c @ ?e) = Parsed (c0, s0)" "back_loop c0 s0 = back_loop c' ?e"
    "map_gcmd word_text c' = c" unfolding e by (rule backsE [OF assms, rotated]) simp_all
  have "back_loop c' ?e = back_loop (BACK c') t"
    by (subst back_loop.simps) (simp add: p gettoken_symbol back_loop_skip)
  with c show "\<exists>c0 s0 c'. parsepipe n (print_cmd 1 (BACK c) @ t) = Parsed (c0, s0) \<and> back_loop c0 s0 = back_loop c' t \<and>
      map_gcmd word_text c' = BACK c"
    unfolding e by (intro exI [of _ c0] exI [of _ s0] exI [of _ "BACK c'"]) simp
qed

lemma lines_LIST:
  assumes "backs l" "lines r"
  shows "lines (LIST l r)"
  unfolding lines_def
proof (intro allI impI)
  fix n t assume t: "t = [] \<or> hd t = CHR '')''" and n: "parseline n (print_cmd 0 (LIST l r) @ t) \<noteq> NoFuel"
  then obtain m where m: "n = Suc m" by (cases n) auto
  let ?e = "CHR '';'' # CHR '' '' # print_cmd 0 r @ t"
  have e: "print_cmd 0 (LIST l r) @ t = print_cmd 1 l @ ?e" by (simp add: paren_def)
  have f: "parsepipe m (print_cmd 1 l @ ?e) \<noteq> NoFuel" using n unfolding e m by auto
  obtain c0 s0 c1 where c1: "parsepipe m (print_cmd 1 l @ ?e) = Parsed (c0, s0)" "back_loop c0 s0 = back_loop c1 ?e"
    "map_gcmd word_text c1 = l" by (rule backsE [OF assms(1) _ f]) simp_all
  have sk: "skip_space ?e = ?e" by (simp add: skip_space_Cons is_space_set)
  have b: "back_loop c0 s0 = (c1, ?e)" using c1(2) back_loop_none [OF sk, of c1] by simp
  have p: "peek ?e '';'' = (?e, True)" by (simp add: peek_first [OF sk])
  have st: "parseline n (print_cmd 1 l @ ?e) = pbnd (parseline m (print_cmd 0 r @ t)) (\<lambda>(d, s). Parsed (LIST c1 d, s))"
    unfolding m parseline.simps c1(1) by (simp add: b p gettoken_symbol parse_skip)
  with n e have "parseline m (print_cmd 0 r @ t) \<noteq> NoFuel" by auto
  then obtain c2 where "parseline m (print_cmd 0 r @ t) = Parsed (c2, t)" "map_gcmd word_text c2 = r"
    by (rule linesE [OF assms(2) t])
  with st c1(3) show "\<exists>c'. parseline n (print_cmd 0 (LIST l r) @ t) = Parsed (c', t) \<and> map_gcmd word_text c' = LIST l r"
    unfolding e by auto
qed

lemma execs_REDIR:
  assumes "execs c" "redir_ok (w, m, fd)"
  shows "execs (REDIR c w m fd)"
  unfolding execs_def
proof (intro allI impI)
  fix n R r assume R: "\<forall>x \<in> set R. redir_ok x" and r: "stops r"
    and n: "parseexec n (print_cmd 3 (REDIR c w m fd) @ redirs_str R @ r) \<noteq> NoFuel"
  have e: "print_cmd 3 (REDIR c w m fd) @ redirs_str R @ r = print_cmd 3 c @ redirs_str ((w, m, fd) # R) @ r"
    by (simp add: redirs_str_def)
  obtain c' where "parseexec n (print_cmd 3 c @ redirs_str ((w, m, fd) # R) @ r) = Parsed (c', r)"
    "map_gcmd word_text c' = wrap_texts ((w, m, fd) # R) c"
    by (rule execsE [OF assms(1) _ r n [unfolded e]]) (use R assms(2) in auto)
  then show "\<exists>c'. parseexec n (print_cmd 3 (REDIR c w m fd) @ redirs_str R @ r) = Parsed (c', r) \<and>
      map_gcmd word_text c' = wrap_texts R (REDIR c w m fd)" unfolding e by (auto simp: wrap_texts_def)
qed

lemma printed_parses: "writable c \<Longrightarrow> execs c \<and> pipes c \<and> backs c \<and> lines c"
proof (induction c)
  case (EXEC ws)
  then have "execs (EXEC ws)" by (rule execs_EXEC)
  then show ?case by (simp add: execs_pipes pipes_backs backs_lines)
next
  case (REDIR c w m fd)
  then have "execs (REDIR c w m fd)" by (simp add: execs_REDIR)
  then show ?case by (simp add: execs_pipes pipes_backs backs_lines)
next
  case (PIPE l r)
  then have "pipes (PIPE l r)" by (simp add: pipes_PIPE)
  then have "backs (PIPE l r)" by (rule pipes_backs) (simp add: paren_def)
  then have "lines (PIPE l r)" by (rule backs_lines) (simp add: paren_def)
  moreover from this have "execs (PIPE l r)" by (rule lines_execs) (simp add: paren_def)
  ultimately show ?case using \<open>pipes (PIPE l r)\<close> \<open>backs (PIPE l r)\<close> by simp
next
  case (LIST l r)
  then have l: "lines (LIST l r)" by (simp add: lines_LIST)
  then have x: "execs (LIST l r)" by (rule lines_execs) (simp add: paren_def)
  then have "pipes (LIST l r)" by (rule execs_pipes) (simp add: paren_def)
  moreover from this have "backs (LIST l r)" by (rule pipes_backs) (simp add: paren_def)
  ultimately show ?case using l x by simp
next
  case (BACK c)
  then have b: "backs (BACK c)" by (simp add: backs_BACK)
  then have l: "lines (BACK c)" by (rule backs_lines) (simp add: paren_def)
  then have "execs (BACK c)" by (rule lines_execs) (simp add: paren_def)
  moreover from this have "pipes (BACK c)" by (rule execs_pipes) (simp add: paren_def)
  ultimately show ?case using b l by simp
qed

lemma printed_no_nul: "writable c \<Longrightarrow> CHR 0x00 \<notin> set (print_cmd lev c)"
  by (induction c arbitrary: lev) (auto simp: words_str_def redir_str_def redir_ok_def plain_def paren_def)

text \<open>C25. Reading back what is written. A command of simple commands with words, redirections, pipes, background
  commands and lists, nested in any way, written out with parentheses where the grammar needs them, is parsed to
  the same command: \<open>parsecmd\<close> accepts the text, and the words, as C strings of the line that \<open>nulterminate\<close> leaves,
  are the words written.
\<close>

theorem parse_print:
  assumes "writable c"
  shows "\<exists>c' buf. parsecmd (print_cmd 0 c) = Parsed (c', buf) \<and>
    map_gcmd (cstr_at (length (print_cmd 0 c)) buf) c' = c"
proof -
  let ?s = "print_cmd 0 c"
  have f: "parseline (parse_fuel ?s) ?s \<noteq> NoFuel" using parse_fuel_enough [of "parse_fuel ?s"] by (simp add: parse_fuel_def)
  with printed_parses [OF assms] obtain c' where c': "parseline (parse_fuel ?s) ?s = Parsed (c', [])" "map_gcmd word_text c' = c"
    using linesE [of c "[]" "parse_fuel ?s"] by auto
  let ?b = "nulterminate (length ?s) c' ?s"
  have "\<forall>w \<in> set_gcmd c'. good_word ?s w" using parse_words [of "parse_fuel ?s"] c'(1) by (simp add: parsed_ok_def)
  with good_word_cstr [OF printed_no_nul [OF assms]] have "map_gcmd (cstr_at (length ?s) ?b) c' = map_gcmd word_text c'"
    by (intro gcmd.map_cong0) auto
  with c' show ?thesis by (auto simp: parsecmd_def peek_def Let_def)
qed

theorem parse_print_witness:
  "writable (LIST (BACK (PIPE (EXEC [''cat'', ''f'']) (REDIR (LIST (EXEC [''wc'']) (EXEC [])) ''out'' O_WRONLY_CREATE 1))) (EXEC [''ls''])) \<and>
   (\<exists>c' buf. parsecmd ''cat f | ( wc ; ) > out & ; ls '' = Parsed (c', buf) \<and>
      map_gcmd (cstr_at (length ''cat f | ( wc ; ) > out & ; ls '') buf) c' =
      LIST (BACK (PIPE (EXEC [''cat'', ''f'']) (REDIR (LIST (EXEC [''wc'']) (EXEC [])) ''out'' O_WRONLY_CREATE 1))) (EXEC [''ls'']))"
  using parse_print [of "LIST (BACK (PIPE (EXEC [''cat'', ''f'']) (REDIR (LIST (EXEC [''wc'']) (EXEC [])) ''out'' O_WRONLY_CREATE 1))) (EXEC [''ls''])"]
  by (simp add: paren_def words_str_def redir_str_def redir_ok_def plain_def word_char_def is_space_set is_symbol_set MAXARGS_def)

end
