(* ===== verification/Spec2Isabelle.thy ===== *)
theory Spec2Isabelle
  imports Klib Spinlock Proc Sleepwakeup Scheduler Kalloc Consout Vm Bio Ide Log Fs Pipe Consin File Usermem Process
    Exec Sysfile Syscall Bcache Logging Transaction Fsblock Fsfile Fswrite Fstrans Ulib Grep Utils Sh
begin

text \<open>
  A verification library for the xv6 teaching kernel for the x86, extended with tickets per process and a
  listing of processes (\<open>settickets\<close>, \<open>getpinfo\<close>, \<open>ps\<close>), and for its user programs.

  \<^bold>\<open>The program and its parts.\<close> The kernel is a single image. \<open>kalloc.c\<close> hands out pages of memory, \<open>vm.c\<close> builds the
  page tables in them, \<open>proc.c\<close> runs the processes, switching between them under spin locks (\<open>spinlock.c\<close>) and letting
  them sleep and wake up. The file system is a stack: a disk driver (\<open>ide.c\<close>, or \<open>memide.c\<close> for a disk in memory), a cache of blocks (\<open>bio.c\<close>), a
  write-ahead log (\<open>log.c\<close>), inodes, directories and path names (\<open>fs.c\<close>), open files (\<open>file.c\<close>, \<open>pipe.c\<close>), system calls
  (\<open>sysfile.c\<close>, \<open>exec.c\<close>). \<open>syscall.c\<close> and \<open>trap.c\<close> dispatch to them; \<open>console.c\<close> is the terminal. The user programs use
  the kernel through system calls only.

  \<^bold>\<open>State and operations.\<close> A kernel routine is a function of the state. The state is one record that grows with the
  components: \<open>mach\<close> (\<open>Spinlock\<close>: CPUs and interrupt flag), \<open>kstate\<close> (\<open>Proc\<close>: the process table), \<open>kmem_state\<close>
  (\<open>Kalloc\<close>: memory and free list), \<open>con_state\<close> (\<open>Consout\<close>: screen and serial line), \<open>vm_state\<close> (\<open>Vm\<close>), \<open>bio_state\<close>
  (\<open>Bio\<close>: buffers, their order, the disk and the history of the blocks written to it), \<open>log_state\<close> (\<open>Log\<close>), \<open>fs_state\<close> (\<open>Fs\<close>:
  super block and inode cache), \<open>file_state\<close> (\<open>File\<close>: open files, pipes and console input). A routine is polymorphic in
  the fields that come after its own, so a lower routine runs unchanged on the larger state. A C pointer to a table
  entry is the index of the entry. A routine that can fail to return has a result of type \<open>res\<close>: \<open>Ret\<close>, \<open>Panic\<close> with
  the message, \<open>Sleep\<close> on a channel, \<open>Spin\<close> for a lock that is never released, and \<open>Undef\<close> for undefined behaviour of C. A
  routine runs as one step between two points at which the process gives up the CPU; the interleavings that matter
  are modelled where they do (\<open>Spinlock\<close>: the memory accesses of several CPUs on one lock; \<open>Sleepwakeup\<close>: sleepers and
  wakers; \<open>Pipe\<close> and \<open>Consin\<close>: readers and writers; \<open>Scheduler\<close>: the loop of a CPU with arbitrary changes between its
  choices). Machine integers are words where they wrap (\<open>Klib\<close>, \<open>Kalloc\<close>, \<open>Vm\<close>, \<open>Pipe\<close>, \<open>Consin\<close>) and natural numbers or
  integers with the bound written out elsewhere.

  A user program is a tree of system calls that continues with the reply of the kernel (\<open>uprog\<close> in \<open>Ulib\<close>).

  \<^bold>\<open>Theories.\<close>
  \<^item> \<open>Prelude\<close>: results, table scans, bytes, windows of arrays; sequences of operations and the contract \<open>simulation\<close>, under
    which a component behaves as its specification for every sequence (used by \<open>Pipe\<close>, \<open>Consin\<close> and \<open>Ide\<close>).
  \<^item> \<open>Klib\<close>: \<open>string.c\<close>. The memory routines are correct for every overlap and with the word-wise fast path.
  \<^item> \<open>Spinlock\<close>: \<open>spinlock.c\<close>. Nesting of interrupt disabling, mutual exclusion.
  \<^item> \<open>Proc\<close>, \<open>Sleepwakeup\<close>, \<open>Scheduler\<close>: \<open>proc.c\<close>. No wakeup is lost; the scheduler picks the next runnable process in
    cyclic order and passes over none more than a bounded number of times; \<open>kill\<close>; tickets.
  \<^item> \<open>Kalloc\<close>: \<open>kalloc.c\<close>. The free list threaded through the free pages.
  \<^item> \<open>Vm\<close>: \<open>vm.c\<close>. Page tables in memory.
  \<^item> \<open>Consout\<close>, \<open>Consin\<close>: \<open>console.c\<close>, \<open>uart.c\<close>. Numbers as text; every cell of the screen after a
    character; the line discipline for any sequence of keys and reads.
  \<^item> \<open>Bio\<close>, \<open>Bcache\<close>: \<open>bio.c\<close>, \<open>memide.c\<close>, \<open>sleeplock.c\<close>; the cache behaves as the disk. The file system theories run on the
    synchronous driver \<open>memide.c\<close>.
  \<^item> \<open>Ide\<close>: \<open>ide.c\<close>, the driver of the default kernel; under any order of requests and interrupts it has the effect of \<open>memide.c\<close>.
  \<^item> \<open>Log\<close>, \<open>Logging\<close>, \<open>Transaction\<close>: \<open>log.c\<close>; a transaction is atomic, also when the machine stops at any write.
  \<^item> \<open>Fs\<close>, \<open>Fsblock\<close>, \<open>Fsfile\<close>, \<open>Fswrite\<close>, \<open>Fstrans\<close>: \<open>fs.c\<close>; the block allocator and its bitmap, reading and writing the
    contents of a file, and a write as a transaction that is atomic across crashes.
  \<^item> \<open>File\<close>, \<open>Pipe\<close>, \<open>Sysfile\<close>, \<open>Exec\<close>, \<open>Process\<close>, \<open>Usermem\<close>, \<open>Syscall\<close>: \<open>file.c\<close>, \<open>pipe.c\<close>, \<open>sysfile.c\<close>, \<open>exec.c\<close>, the rest of
    \<open>proc.c\<close>, \<open>syscall.c\<close>, \<open>sysproc.c\<close>, \<open>trap.c\<close>; a pipe is a bounded queue for any sequence of writes, reads and closes.
  \<^item> \<open>Ulib\<close>, \<open>Grep\<close>, \<open>Utils\<close>, \<open>Sh\<close>: the user library and programs; the matcher of \<open>grep\<close> decides the language of its
    pattern, the parser of the shell returns on every line and reads back what is written.

  \<^bold>\<open>Bounds and fuel.\<close> Kernel loops are recursion on what is left to do, with a termination proof. The scheduler loop runs
  for a number of iterations that is shown to be enough. The shell's recursive descent takes fuel \<open>4 * length s + 4\<close>,
  which is shown to be enough for every line. Loops of user programs that end only when the kernel says so take a
  bound on their rounds and end in \<open>Fuel\<close> when it is used up; statements about them say which bound is enough.

  \<^bold>\<open>Limits of the model.\<close> The outcome \<open>Sleep\<close> of a system call does not carry the state in which it sleeps: a \<open>pipewrite\<close>
  or \<open>consoleread\<close> that sleeps half-way is resumed from its loop, and what the loop has stored or taken by then is in the
  results of \<open>pipewrite_loop\<close> and \<open>input_read\<close>, over which the theorems on sequences are stated. \<open>scheduler_step\<close> releases and
  takes the process table lock at the end of a scan in one step; changes by other CPUs are admitted between two
  choices. \<open>switchuvm\<close> leaves out the constant fields of the task state and its \<open>pushcli\<close> and \<open>popcli\<close>. The interrupt of the
  disk is the empty handler of \<open>memide.c\<close> in \<open>trap\<close>; the handler of \<open>ide.c\<close> is in \<open>Ide\<close>.

  \<^bold>\<open>Not modelled.\<close> The assembly files and the generated vector table; the start of the machine (\<open>bootmain.c\<close>, \<open>main.c\<close>);
  the interrupt controllers and the search for processors (\<open>lapic.c\<close>, \<open>ioapic.c\<close>, \<open>picirq.c\<close>, \<open>mp.c\<close>), which only access device
  registers and BIOS tables; loading of segment and interrupt descriptors (\<open>seginit\<close>, \<open>tvinit\<close>, \<open>idtinit\<close>); the translation of
  scan codes (\<open>kbd.c\<close>: the characters of the keyboard are an argument of \<open>trap\<close>); the heap of the user programs
  (\<open>umalloc.c\<close>) and the tool that makes a file system image (\<open>mkfs.c\<close>); procedures that only print (\<open>procdump\<close>,
  \<open>getcallerpcs\<close>); the test driver \<open>usertests.c\<close>.
\<close>

end
